(* ===== verification/Prelude.thy ===== *)
theory Prelude
  imports Main "HOL-Library.Word"
begin

unbundle bit_operations_syntax

text \<open>
  Shared vocabulary of the development: C characters and their classification in the C locale,
  the ranges of the C integer types of a 64-bit target, decimal notation, and the generic facts
  on lists that several components use.

  A byte is a \<open>char\<close>: HOL's \<open>char\<close> has exactly 256 values, \<open>of_char\<close> reads it as
  an unsigned number and \<open>char_of\<close> stores a number modulo 256, as a cast to
  \<open>unsigned char\<close> does.
\<close>

named_theorems c_char \<open>characters and their codes\<close>
named_theorems c_int \<open>ranges of the C integer types\<close>

type_synonym byte = char
type_synonym bytes = "char list"
type_synonym u64 = "64 word"
type_synonym u32 = "32 word"

subsection \<open>Characters\<close>

abbreviation code :: "char \<Rightarrow> nat" where
  "code c \<equiv> of_char c"

abbreviation NUL :: char where
  "NUL \<equiv> CHR 0x00"

definition isdigit :: "char \<Rightarrow> bool" where
  "isdigit c \<longleftrightarrow> 48 \<le> code c \<and> code c \<le> 57"

definition isupper :: "char \<Rightarrow> bool" where
  "isupper c \<longleftrightarrow> 65 \<le> code c \<and> code c \<le> 90"

definition islower :: "char \<Rightarrow> bool" where
  "islower c \<longleftrightarrow> 97 \<le> code c \<and> code c \<le> 122"

definition tolower :: "char \<Rightarrow> char" where
  "tolower c = (if isupper c then char_of (code c + 32) else c)"

definition toupper :: "char \<Rightarrow> char" where
  "toupper c = (if islower c then char_of (code c - 32) else c)"

definition isspace :: "char \<Rightarrow> bool" where
  "isspace c \<longleftrightarrow> code c = 32 \<or> (9 \<le> code c \<and> code c \<le> 13)"

definition isprint :: "char \<Rightarrow> bool" where
  "isprint c \<longleftrightarrow> 32 \<le> code c \<and> code c \<le> 126"

lemma char_eq_code [c_char]: "c = d \<longleftrightarrow> code c = code d"
  by simp

text \<open>\<open>strcasecmp(a,b) == 0\<close> on NUL-free strings.\<close>

definition strcaseeq :: "string \<Rightarrow> string \<Rightarrow> bool" where
  "strcaseeq a b \<longleftrightarrow> map tolower a = map tolower b"

text \<open>The C string that starts a buffer: the bytes before the first NUL.\<close>

definition c_str :: "bytes \<Rightarrow> bytes" where
  "c_str s = takeWhile (\<lambda>c. c \<noteq> NUL) s"

lemma c_str_no_nul [simp]: "NUL \<notin> set s \<Longrightarrow> c_str s = s"
  unfolding c_str_def by (induction s) auto

lemma length_c_str_le: "length (c_str s) \<le> length s"
  by (simp add: c_str_def length_takeWhile_le)

definition CRLF :: bytes where
  "CRLF = [CHR 0x0D, CHR 0x0A]"

lemma length_CRLF [simp]: "length CRLF = 2"
  by (simp add: CRLF_def)

subsection \<open>Integer ranges\<close>

abbreviation LLONG_MIN :: int where "LLONG_MIN \<equiv> - 9223372036854775808"
abbreviation LLONG_MAX :: int where "LLONG_MAX \<equiv> 9223372036854775807"
abbreviation INT_MIN :: int where "INT_MIN \<equiv> - 2147483648"
abbreviation INT_MAX :: int where "INT_MAX \<equiv> 2147483647"
abbreviation SHRT_MIN :: int where "SHRT_MIN \<equiv> - 32768"
abbreviation SHRT_MAX :: int where "SHRT_MAX \<equiv> 32767"

definition in_ll :: "int \<Rightarrow> bool" where
  "in_ll n \<longleftrightarrow> LLONG_MIN \<le> n \<and> n \<le> LLONG_MAX"

lemma unat_u64_less [simp]: "unat (w :: u64) < 18446744073709551616"
  using unsigned_less [of w, where ?'a = nat] by simp

lemma unat_u32_less [simp]: "unat (w :: u32) < 4294967296"
  using unsigned_less [of w, where ?'a = nat] by simp

lemma in_ll_sint [simp]: "in_ll (sint (w :: u64))"
  using sint_range_size [of w] by (simp add: in_ll_def word_size)

lemma sint_of_int_ll [c_int]: "in_ll n \<Longrightarrow> sint (word_of_int n :: u64) = n"
  by (simp add: in_ll_def signed_of_int signed_take_bit_int_eq_self)

subsection \<open>Decimal notation\<close>

definition digit :: "nat \<Rightarrow> char" where
  "digit n = char_of (48 + n)"

fun dec :: "nat \<Rightarrow> string" where
  "dec n = (if n < 10 then [digit n] else dec (n div 10) @ [digit (n mod 10)])"

declare dec.simps [simp del]

definition dec_int :: "int \<Rightarrow> string" where
  "dec_int n = (if n < 0 then CHR ''-'' # dec (nat (- n)) else dec (nat n))"

lemma code_digit [c_char]: "n < 10 \<Longrightarrow> code (digit n) = 48 + n"
  by (simp add: digit_def)

lemma digit_0: "digit 0 = CHR ''0''"
  by code_simp

lemma isdigit_digit [simp]: "n < 10 \<Longrightarrow> isdigit (digit n)"
  by (simp add: isdigit_def code_digit)

lemma digit_of_code: "isdigit c \<Longrightarrow> digit (code c - 48) = c"
  by (simp add: isdigit_def digit_def)

lemma isdigit_code: "isdigit c \<Longrightarrow> code c - 48 < 10"
  by (auto simp: isdigit_def)

lemma dec_small: "n < 10 \<Longrightarrow> dec n = [digit n]"
  by (simp add: dec.simps)

lemma dec_step: "10 \<le> n \<Longrightarrow> dec n = dec (n div 10) @ [digit (n mod 10)]"
  by (subst dec.simps) simp

lemma dec_snoc: "0 < n \<Longrightarrow> d < 10 \<Longrightarrow> dec (10 * n + d) = dec n @ [digit d]"
  by (subst dec_step) simp_all

lemma dec_nonempty [simp]: "dec n \<noteq> []"
  by (subst dec.simps) simp

lemma dec_digits: "\<forall>c \<in> set (dec n). isdigit c"
proof (induction n rule: dec.induct)
  case (1 n)
  then show ?case
    by (cases "n < 10") (auto simp: dec_small dec_step)
qed

text \<open>The value of a string of digits, read from the left.\<close>

definition digits_val :: "nat \<Rightarrow> string \<Rightarrow> nat" where
  "digits_val = foldl (\<lambda>a c. 10 * a + (code c - 48))"

lemma digits_val_simps [simp]:
  "digits_val a [] = a"
  "digits_val a (c # cs) = digits_val (10 * a + (code c - 48)) cs"
  "digits_val a (cs @ ds) = digits_val (digits_val a cs) ds"
  by (simp_all add: digits_val_def)

lemma digits_val_dec: "digits_val 0 (dec n) = n"
proof (induction n rule: dec.induct)
  case (1 n)
  then show ?case
    by (cases "n < 10") (simp_all add: dec_small dec_step code_digit)
qed

lemma dec_inject [simp]: "dec m = dec n \<longleftrightarrow> m = n"
  using digits_val_dec by metis

lemma dec_digits_val:
  "0 < a \<Longrightarrow> \<forall>c \<in> set cs. isdigit c \<Longrightarrow> dec (digits_val a cs) = dec a @ cs"
proof (induction cs arbitrary: a)
  case Nil
  then show ?case by simp
next
  case (Cons c cs)
  then have "dec (digits_val (10 * a + (code c - 48)) cs)
      = dec (10 * a + (code c - 48)) @ cs"
    by simp
  also have "\<dots> = (dec a @ [c]) @ cs"
    using Cons.prems by (simp add: dec_snoc isdigit_code digit_of_code)
  finally show ?case by simp
qed

lemma digits_val_bound:
  "\<forall>c \<in> set cs. isdigit c \<Longrightarrow> digits_val a cs < (a + 1) * 10 ^ length cs"
proof (induction cs arbitrary: a)
  case (Cons c cs)
  have "digits_val (10 * a + (code c - 48)) cs < (10 * a + (code c - 48) + 1) * 10 ^ length cs"
    using Cons by simp
  also have "\<dots> \<le> ((a + 1) * 10) * 10 ^ length cs"
    using isdigit_code [of c] Cons.prems by (intro mult_le_mono1) simp
  finally show ?case by (simp add: algebra_simps)
qed simp

lemma digits_val_less: "\<forall>c \<in> set cs. isdigit c \<Longrightarrow> digits_val 0 cs < 10 ^ length cs"
  using digits_val_bound [of cs 0] by simp

lemma digits_val_mono: "a \<le> digits_val a cs"
proof (induction cs arbitrary: a)
  case Nil
  then show ?case by simp
next
  case (Cons c cs)
  have "a \<le> 10 * a + (code c - 48)" by simp
  also have "\<dots> \<le> digits_val (10 * a + (code c - 48)) cs" by (rule Cons.IH)
  finally show ?case by simp
qed

lemma dec_length_le: "n < 10 ^ k \<Longrightarrow> 0 < k \<Longrightarrow> length (dec n) \<le> k"
proof (induction k arbitrary: n)
  case 0
  then show ?case by simp
next
  case (Suc k)
  show ?case
  proof (cases "n < 10")
    case True
    then show ?thesis by (simp add: dec_small)
  next
    case False
    then have "n div 10 < 10 ^ k" and "0 < k"
      using Suc.prems by (simp add: div_less_iff_less_mult mult.commute)
        (use False Suc.prems in \<open>cases k; simp\<close>)
    then have "length (dec (n div 10)) \<le> k" by (rule Suc.IH)
    with False show ?thesis by (simp add: dec_step)
  qed
qed

lemma dec_hd_nonzero: "0 < n \<Longrightarrow> hd (dec n) \<noteq> CHR ''0''"
proof (induction n rule: dec.induct)
  case (1 n)
  show ?case
  proof (cases "n < 10")
    case True
    with "1.prems" show ?thesis
      using code_digit [of n] by (auto simp: dec_small)
  next
    case False
    with "1.IH" have "hd (dec (n div 10)) \<noteq> CHR ''0''" by simp
    with False show ?thesis by (simp add: dec_step)
  qed
qed

subsection \<open>Words and masks\<close>

lemma unat_drop_bit: "unat (drop_bit k (w :: u64)) = unat w div 2 ^ k"
proof -
  have "take_bit 64 (unat w) = unat w" by (simp add: take_bit_nat_eq_self)
  then show ?thesis by (simp only: unsigned_drop_bit_eq) (simp add: drop_bit_eq_div)
qed

lemma nat_or_mask: "(n::nat) OR mask k = (n div 2 ^ k) * 2 ^ k + (2 ^ k - 1)"
proof -
  have "n OR mask k = push_bit k (drop_bit k n) OR mask k"
    by (rule bit_eqI) (auto simp: bit_simps)
  also have "\<dots> = push_bit k (drop_bit k n) + mask k"
    by (rule disjunctive_add [symmetric]) (auto simp: bit_simps)
  finally show ?thesis by (simp add: push_bit_eq_mult drop_bit_eq_div mask_eq_exp_minus_1)
qed

lemma unat_mask: "k \<le> 64 \<Longrightarrow> unat (mask k :: u64) = mask k"
  by (rule bit_eqI) (auto simp: bit_simps)

lemma unat_or_mask:
  assumes "k \<le> 64"
  shows "unat ((w :: u64) OR mask k) = (unat w div 2 ^ k) * 2 ^ k + (2 ^ k - 1)"
  unfolding unsigned_or_eq using assms by (simp add: nat_or_mask unat_mask)

lemma unat_and_mask: "unat ((w :: u64) AND mask k) = unat w mod 2 ^ k"
  by (simp only: take_bit_eq_mask [symmetric] unsigned_take_bit_eq) (simp add: take_bit_eq_mod)

lemma unat_plus_one: "unat ((w :: u64) + 1) = (unat w + 1) mod 2 ^ 64"
  by (simp add: unat_word_ariths)

lemma block_plus: "k \<le> 64 \<Longrightarrow> (unat (w :: u64) div 2 ^ k) * 2 ^ k + (2 ^ k - 1) + 1 = (unat w div 2 ^ k + 1) * 2 ^ k"
  by simp

lemma nat_and_not_mask: "(n :: nat) div 2 ^ k * 2 ^ k = push_bit k (drop_bit k n)"
  by (simp add: push_bit_eq_mult drop_bit_eq_div)

lemma unat_and_not_mask: "unat ((w :: u64) AND NOT (mask k)) = unat w div 2 ^ k * 2 ^ k"
proof -
  have "w AND NOT (mask k) = push_bit k (drop_bit k w)"
    by (rule bit_word_eqI) (auto simp: bit_simps)
  moreover have "unat (push_bit k (drop_bit k w)) = unat w div 2 ^ k * 2 ^ k"
    unfolding nat_and_not_mask by (rule bit_eqI) (auto simp: bit_simps dest: bit_imp_le_length)
  ultimately show ?thesis by simp
qed

subsection \<open>Generic list facts\<close>

lemma take_drop_mid: "i \<le> j \<Longrightarrow> take i xs @ take (j - i) (drop i xs) @ drop j xs = xs"
proof -
  assume "i \<le> j"
  then have "take (j - i) (drop i xs) @ drop j xs = drop i xs"
    using append_take_drop_id [of "j - i" "drop i xs"] by simp
  then show ?thesis by simp
qed

lemma remove1_split:
  "x \<in> set xs \<Longrightarrow> \<exists>ys zs. xs = ys @ x # zs \<and> x \<notin> set ys \<and> remove1 x xs = ys @ zs"
proof -
  assume "x \<in> set xs"
  then obtain ys zs where "xs = ys @ x # zs" and "x \<notin> set ys"
    using split_list_first by metis
  then show ?thesis
    by (intro exI [of _ ys] exI [of _ zs]) (simp add: remove1_append)
qed

lemma find_SomeD: "find P xs = Some x \<Longrightarrow> x \<in> set xs \<and> P x"
  by (induction xs) (auto split: if_splits)

end
