(* ===== verification/Util.thy ===== *)
theory Util
  imports Prelude
begin

text \<open>
  Number conversions of \<open>src/lib/src/util.c\<close>: \<open>ll2string\<close>, \<open>string2ll\<close> and
  \<open>string2l\<close>. The unsigned accumulator of the C code is a 64-bit word, with its overflow tests
  as they are written there; a \<open>long long\<close> is the \<open>int\<close> that \<open>sint\<close> reads.
\<close>

subsection \<open>Printing: ll2string\<close>

text \<open>The \<open>do { *p-- = '0'+(v%10); v /= 10; } while(v);\<close> loop fills the buffer from the right.\<close>

function ull_digits :: "u64 \<Rightarrow> string \<Rightarrow> string" where
  "ull_digits v acc =
     (let acc' = digit (unat (v mod 10)) # acc; v' = v div 10
      in if v' \<noteq> 0 then ull_digits v' acc' else acc')"
  by pat_completeness auto
termination
proof (relation "measure (\<lambda>(v, acc). unat v)", simp)
  fix v :: u64 and acc and x y
  assume "y = v div 10" and "y \<noteq> 0"
  then have "0 < unat (v div 10)" by (simp add: unat_gt_0)
  then have "unat v div 10 > 0" by (simp add: unat_div)
  then show "((y, x), (v, acc)) \<in> measure (\<lambda>(v, acc). unat v)"
    using \<open>y = v div 10\<close> by (simp add: unat_div)
qed

declare ull_digits.simps [simp del]

definition ll2string_buf :: "int \<Rightarrow> string" where
  "ll2string_buf value =
     (let v = (if value < 0 then - word_of_int value else word_of_int value) :: u64;
          p = ull_digits v []
      in if value < 0 then CHR ''-'' # p else p)"

definition ll2string :: "nat \<Rightarrow> int \<Rightarrow> string" where
  "ll2string len value =
     (if len = 0 then []
      else let p = ll2string_buf value; l = length p;
               l' = (if l + 1 > len then len - 1 else l)
           in take l' p)"

subsection \<open>Parsing: string2ll and string2l\<close>

definition ULLONG_MAX :: u64 where
  "ULLONG_MAX = 18446744073709551615"

definition digit_word :: "char \<Rightarrow> u64" where
  "digit_word c = of_nat (code c - 48)"

fun string2ll_loop :: "u64 \<Rightarrow> string \<Rightarrow> (u64 \<times> string) option" where
  "string2ll_loop v [] = Some (v, [])"
| "string2ll_loop v (c # cs) =
     (if isdigit c then
        if v > ULLONG_MAX div 10 then None
        else if v * 10 > ULLONG_MAX - digit_word c then None
        else string2ll_loop (v * 10 + digit_word c) cs
      else Some (v, c # cs))"

definition string2ll_finish :: "bool \<Rightarrow> u64 \<Rightarrow> int option" where
  "string2ll_finish negative v =
     (if negative then
        if v > word_of_int (- (LLONG_MIN + 1)) + 1 then None else Some (sint (- v))
      else
        if v > word_of_int LLONG_MAX then None else Some (sint v))"

definition string2ll :: "string \<Rightarrow> int option" where
  "string2ll s =
     (if s = [] then None
      else if s = ''0'' then Some 0
      else
        let negative = (hd s = CHR ''-''); p = (if negative then tl s else s) in
        case p of
          [] \<Rightarrow> None
        | c # cs \<Rightarrow>
            if 49 \<le> code c \<and> code c \<le> 57 then
              case string2ll_loop (digit_word c) cs of
                None \<Rightarrow> None
              | Some (v, rest) \<Rightarrow>
                  if rest \<noteq> [] then None else string2ll_finish negative v
            else None)"

definition string2l :: "string \<Rightarrow> int option" where
  "string2l s =
     (case string2ll s of
        None \<Rightarrow> None
      | Some llval \<Rightarrow>
          if llval < LLONG_MIN \<or> llval > LLONG_MAX then None else Some llval)"

text \<open>\<open>atoll\<close>, and \<open>atoi\<close> at its smaller range.\<close>

definition atoll :: "bytes \<Rightarrow> int option" where
  "atoll p =
     (let q = dropWhile isspace p;
          neg = (q \<noteq> [] \<and> hd q = CHR ''-'');
          r = (if q \<noteq> [] \<and> (hd q = CHR ''-'' \<or> hd q = CHR ''+'') then tl q else q);
          n = int (digits_val 0 (takeWhile isdigit r));
          v = (if neg then - n else n)
      in if in_ll v then Some v else None)"

definition atoi :: "bytes \<Rightarrow> int option" where
  "atoi p = (case atoll p of None \<Rightarrow> None | Some v \<Rightarrow> if INT_MIN \<le> v \<and> v \<le> INT_MAX then Some v else None)"

subsection \<open>Memory sizes: memtoll\<close>

text \<open>
  \<open>strtoll\<close> on an optional minus sign followed by digits: the value, clamped to the range of
  \<open>long long\<close>. The product with the unit is a 64-bit multiplication.
\<close>

definition strtoll_digits :: "string \<Rightarrow> int" where
  "strtoll_digits s =
     (let neg = (s \<noteq> [] \<and> hd s = CHR ''-''); ds = (if neg then tl s else s);
          n = int (digits_val 0 ds); m = (if neg then - n else n)
      in max LLONG_MIN (min LLONG_MAX m))"

definition mem_unit :: "string \<Rightarrow> int option" where
  "mem_unit u =
     (if u = [] \<or> strcaseeq u ''b'' then Some 1
      else if strcaseeq u ''k'' then Some 1000
      else if strcaseeq u ''kb'' then Some 1024
      else if strcaseeq u ''m'' then Some (1000 * 1000)
      else if strcaseeq u ''mb'' then Some (1024 * 1024)
      else if strcaseeq u ''g'' then Some (1000 * 1000 * 1000)
      else if strcaseeq u ''gb'' then Some (1024 * 1024 * 1024)
      else None)"

definition memtoll :: "string \<Rightarrow> int \<times> bool" where
  "memtoll p =
     (let sign = takeWhile (\<lambda>c. c = CHR ''-'') (take 1 p);
          ds = takeWhile isdigit (drop (length sign) p);
          u = drop (length sign + length ds) p;
          err = (mem_unit u = None);
          mul = (case mem_unit u of None \<Rightarrow> 1 | Some m \<Rightarrow> m);
          digits = length sign + length ds
      in if digits \<ge> 128 then (LLONG_MAX, True)
         else let val = strtoll_digits (take digits p)
              in (sint (word_of_int val * word_of_int mul :: u64), err))"

subsection \<open>Correctness of the conversions\<close>

lemma ull_digits_dec: "ull_digits v acc = dec (unat v) @ acc"
proof (induction v acc rule: ull_digits.induct)
  case (1 v acc)
  have m: "unat (v mod 10) = unat v mod 10" and d: "unat (v div 10) = unat v div 10"
    by (simp_all add: unat_mod unat_div)
  show ?case
  proof (cases "v div 10 = 0")
    case True
    then have "unat v < 10" using d by (simp add: div_eq_0_iff)
    then show ?thesis by (simp add: ull_digits.simps [of v acc] True m dec_small)
  next
    case False
    then have "10 \<le> unat v" using d by (simp add: unat_eq_zero [symmetric] del: unat_eq_zero)
    then show ?thesis
      using "1.IH" False by (simp add: ull_digits.simps [of v acc] m d dec_step)
  qed
qed

lemma unat_ll_abs:
  "in_ll n \<Longrightarrow> unat (if n < 0 then - word_of_int n else word_of_int n :: u64) = nat \<bar>n\<bar>"
proof -
  assume n: "in_ll n"
  have "(if n < 0 then - word_of_int n else word_of_int n) = (word_of_int \<bar>n\<bar> :: u64)"
    by simp
  moreover have "\<bar>n\<bar> < 2 ^ 64" using n by (auto simp: in_ll_def)
  ultimately show ?thesis
    by (simp add: unat_eq_nat_uint uint_word_of_int take_bit_int_eq_self)
qed

lemma ll2string_buf_dec: "in_ll n \<Longrightarrow> ll2string_buf n = dec_int n"
  using unat_ll_abs [of n] by (auto simp: ll2string_buf_def dec_int_def ull_digits_dec)

lemma dec_int_length: "in_ll n \<Longrightarrow> length (dec_int n) \<le> 20"
proof -
  assume "in_ll n"
  then have "nat \<bar>n\<bar> < 10 ^ 19" by (auto simp: in_ll_def nat_less_iff)
  then have "length (dec (nat \<bar>n\<bar>)) \<le> 19" by (rule dec_length_le) simp
  then show ?thesis by (cases "n < 0") (simp_all add: dec_int_def)
qed

lemma string2ll_loop_eq:
  "string2ll_loop v cs =
     (if digits_val (unat v) (takeWhile isdigit cs) < 2 ^ 64
      then Some (of_nat (digits_val (unat v) (takeWhile isdigit cs)), dropWhile isdigit cs)
      else None)"
proof (induction v cs rule: string2ll_loop.induct)
  case (1 v)
  show ?case by simp
next
  case (2 v c cs)
  show ?case
  proof (cases "isdigit c")
    case False
    then show ?thesis by simp
  next
    case True
    then obtain d where c: "code c = 48 + d" and d: "d < 10"
      by (auto simp: isdigit_def dest: le_Suc_ex)
    have w: "unat (digit_word c) = d"
      using d by (simp add: digit_word_def c unat_of_nat)
    have g1: "v > ULLONG_MAX div 10 \<longleftrightarrow> unat v > 1844674407370955161"
      by (simp add: word_less_nat_alt unat_div ULLONG_MAX_def)
    have mono: "10 * unat v + d \<le> digits_val (10 * unat v + d) (takeWhile isdigit cs)"
      by (rule digits_val_mono)
    have s: "unat (ULLONG_MAX - digit_word c) = 2 ^ 64 - 1 - d"
    proof -
      have "digit_word c \<le> ULLONG_MAX"
        using d w by (simp add: ULLONG_MAX_def word_le_nat_alt)
      then have "unat (ULLONG_MAX - digit_word c) = unat ULLONG_MAX - unat (digit_word c)"
        by (rule unat_sub)
      then show ?thesis by (simp add: w ULLONG_MAX_def)
    qed
    show ?thesis
    proof (cases "unat v > 1844674407370955161")
      case big: True
      then show ?thesis using True c mono g1 by simp
    next
      case small: False
      then have m: "unat (v * 10) = 10 * unat v" by (simp add: unat_word_ariths)
      have g2: "v * 10 > ULLONG_MAX - digit_word c \<longleftrightarrow> \<not> 10 * unat v + d < 2 ^ 64"
        using d by (auto simp: word_less_nat_alt m s)
      show ?thesis
      proof (cases "10 * unat v + d < 2 ^ 64")
        case False
        then show ?thesis using True c small g1 g2 mono by simp
      next
        case fits: True
        then have "unat (v * 10 + digit_word c) = 10 * unat v + d"
          by (simp add: unat_word_ariths(1) w m)
        then show ?thesis using "2.IH" True c small fits g1 g2 by simp
      qed
    qed
  qed
qed

lemma string2ll_finish_eq:
  "string2ll_finish neg v =
     (let n = (if neg then - uint v else uint v) in if in_ll n then Some n else None)"
proof -
  have p: "sint v = uint v" if "in_ll (uint v)"
    using sint_of_int_ll [OF that] by simp
  have n: "sint (- v) = - uint v" if "in_ll (- uint v)"
    using sint_of_int_ll [OF that] by simp
  have "\<not> uint v > 9223372036854775808 \<longleftrightarrow> in_ll (- uint v)"
    and "\<not> uint v > LLONG_MAX \<longleftrightarrow> in_ll (uint v)"
    using uint_ge_0 [of v] unfolding in_ll_def by linarith+
  with p n show ?thesis
    by (cases neg) (auto simp: string2ll_finish_def Let_def word_less_def)
qed

lemma string2ll_loop_Some_Nil:
  "string2ll_loop v cs = Some (w, []) \<longleftrightarrow>
     (\<forall>c \<in> set cs. isdigit c) \<and> digits_val (unat v) cs < 2 ^ 64 \<and>
     w = of_nat (digits_val (unat v) cs)"
proof (cases "\<forall>c \<in> set cs. isdigit c")
  case True
  then have tw: "takeWhile isdigit cs = cs" and dw: "dropWhile isdigit cs = []" by simp_all
  show ?thesis by (simp only: string2ll_loop_eq tw dw) (use True in auto)
next
  case False
  then have "dropWhile isdigit cs \<noteq> []" by (simp add: dropWhile_eq_Nil_conv)
  with False show ?thesis by (auto simp: string2ll_loop_eq)
qed

lemma digit_word_unat: "isdigit c \<Longrightarrow> unat (digit_word c) = code c - 48"
  using isdigit_code [of c] by (simp add: digit_word_def unat_of_nat)

lemma uint_of_nat_u64: "m < 2 ^ 64 \<Longrightarrow> uint (of_nat m :: u64) = int m"
  by (simp add: unsigned_of_nat take_bit_nat_eq_self)

text \<open>A nonempty digit string that starts with 1..9 is the notation of its value.\<close>

lemma nonzero_digits:
  assumes "49 \<le> code c" "code c \<le> 57" "\<forall>d \<in> set cs. isdigit d"
  shows "dec (digits_val (code c - 48) cs) = c # cs" "0 < digits_val (code c - 48) cs"
proof -
  have "isdigit c" using assms by (simp add: isdigit_def)
  then show "dec (digits_val (code c - 48) cs) = c # cs"
    using assms by (simp add: dec_digits_val dec_small isdigit_code digit_of_code)
  show "0 < digits_val (code c - 48) cs"
    using assms digits_val_mono [of "code c - 48" cs] by linarith
qed

lemma string2ll_SomeD:
  assumes "string2ll s = Some n"
  shows "in_ll n \<and> s = dec_int n"
proof (cases "s = ''0''")
  case True
  with assms show ?thesis
    by (simp add: string2ll_def in_ll_def dec_int_def dec_small digit_0)
next
  case False
  let ?neg = "hd s = CHR ''-''"
  let ?p = "if ?neg then tl s else s"
  from assms False obtain c cs v where p: "?p = c # cs" and c: "49 \<le> code c" "code c \<le> 57"
    and l: "string2ll_loop (digit_word c) cs = Some (v, [])"
    and f: "string2ll_finish ?neg v = Some n" and s: "s \<noteq> []"
    by (auto simp: string2ll_def Let_def split: if_splits list.splits option.splits)
  have "isdigit c" using c by (simp add: isdigit_def)
  with l have ds: "\<forall>d \<in> set cs. isdigit d" and b: "digits_val (code c - 48) cs < 2 ^ 64"
    and v: "v = of_nat (digits_val (code c - 48) cs)"
    by (simp_all add: string2ll_loop_Some_Nil digit_word_unat)
  note dv = nonzero_digits [OF c ds]
  from f b v have ll: "in_ll n"
    and n: "n = (if ?neg then - int (digits_val (code c - 48) cs)
                 else int (digits_val (code c - 48) cs))"
    by (simp_all add: string2ll_finish_eq uint_of_nat_u64 Let_def split: if_splits)
  have "s = dec_int n"
  proof (cases ?neg)
    case True
    then have "s = CHR ''-'' # dec (digits_val (code c - 48) cs)"
      using p s dv(1) by (cases s) simp_all
    moreover have "n = - int (digits_val (code c - 48) cs)" using n True by simp
    ultimately show ?thesis using dv(2) by (simp add: dec_int_def)
  next
    case False
    then have "s = dec (digits_val (code c - 48) cs)" using p dv(1) by simp
    moreover have "n = int (digits_val (code c - 48) cs)" using n False by simp
    ultimately show ?thesis by (simp add: dec_int_def)
  qed
  with ll show ?thesis ..
qed

lemma string2ll_dec_int:
  assumes "in_ll n"
  shows "string2ll (dec_int n) = Some n"
proof (cases "n = 0")
  case True
  then show ?thesis by (simp add: string2ll_def dec_int_def dec_small digit_0)
next
  case False
  let ?m = "nat \<bar>n\<bar>"
  obtain c cs where d: "dec ?m = c # cs" by (cases "dec ?m") simp_all
  have ds: "isdigit c" "\<forall>d \<in> set cs. isdigit d" using dec_digits [of ?m] d by auto
  have nz: "c \<noteq> CHR ''0''" using dec_hd_nonzero [of ?m] False d by simp
  have c: "49 \<le> code c" "code c \<le> 57"
    using ds(1) nz char_eq_code [of c "CHR ''0''"] by (auto simp: isdigit_def)
  have val: "digits_val (code c - 48) cs = ?m"
    using digits_val_dec [of ?m] d by simp
  have b: "?m < 2 ^ 64" using assms by (auto simp: in_ll_def)
  have l: "string2ll_loop (digit_word c) cs = Some (of_nat ?m, [])"
    using ds b val by (simp add: string2ll_loop_Some_Nil digit_word_unat)
  have f: "string2ll_finish (n < 0) (of_nat ?m) = Some n"
  proof -
    have "uint (of_nat ?m :: u64) = \<bar>n\<bar>" using uint_of_nat_u64 [OF b] by simp
    then show ?thesis
      unfolding string2ll_finish_eq Let_def using assms by (cases "n < 0") simp_all
  qed
  have "c \<noteq> CHR ''-''" using c by auto
  then show ?thesis
    using d l f c nz False by (auto simp: string2ll_def dec_int_def Let_def abs_if split: if_splits)
qed

text \<open>
  C21. \<open>string2ll\<close> accepts exactly the canonical decimal notation of the integers that fit in a
  \<open>long long\<close> (no sign, leading zero, blank or overflow gets through), and returns that integer:
  it parses a string \<open>s\<close> to \<open>n\<close> if and only if \<open>n\<close> is in range and \<open>s\<close> is what
  \<open>ll2string\<close> prints for \<open>n\<close>.
\<close>
theorem string2ll_exact:
  "string2ll s = Some n \<longleftrightarrow> in_ll n \<and> s = ll2string_buf n"
  using string2ll_SomeD [of s n] string2ll_dec_int [of n] ll2string_buf_dec [of n] by auto



lemma strtoll_digits_dec_int: "in_ll n \<Longrightarrow> strtoll_digits (dec_int n) = n"
proof -
  assume n: "in_ll n"
  have hd: "hd (dec m) \<noteq> CHR ''-''" for m
  proof
    assume "hd (dec m) = CHR ''-''"
    moreover have "isdigit (hd (dec m))" using dec_digits [of m] by simp
    ultimately show False by (simp add: isdigit_def)
  qed
  show ?thesis
    using n hd [of "nat n"]
    by (cases "n < 0") (simp_all add: strtoll_digits_def dec_int_def digits_val_dec in_ll_def Let_def)
qed

lemma dec_int_sign:
  "takeWhile (\<lambda>c. c = CHR ''-'') (take 1 (dec_int n @ u)) = (if n < 0 then ''-'' else [])"
proof (cases "n < 0")
  case False
  have "isdigit (hd (dec (nat n)))" using dec_digits [of "nat n"] by simp
  then have "hd (dec (nat n)) \<noteq> CHR ''-''" by (auto simp: isdigit_def)
  with False show ?thesis by (cases "dec (nat n)") (simp_all add: dec_int_def)
qed (simp add: dec_int_def)




end
