(* ===== verification/Glob.thy ===== *)
theory Glob
  imports Prelude
begin

text \<open>
  The glob matcher \<open>stringmatchlen\<close> of \<open>src/lib/src/util.c\<close>, used by KEYS, SCAN MATCH,
  PSUBSCRIBE and CONFIG GET.

  Every pointer of the C code moves in step with its length, so a pattern position is the rest of
  the pattern. Both buffers are sds strings, that is, followed by one NUL byte that may be read.
  A position in the string is the rest of it, or \<open>Past\<close>, one byte after that NUL, where
  \<open>stringLen\<close> is -1: the code can get there. Reading or moving beyond is out of bounds: the
  result \<open>None\<close>.
\<close>

datatype strpos = In string | Past

fun str_read :: "strpos \<Rightarrow> char option" where
  "str_read (In []) = Some NUL"
| "str_read (In (c # cs)) = Some c"
| "str_read Past = None"

fun str_next :: "strpos \<Rightarrow> strpos option" where
  "str_next (In []) = Some Past"
| "str_next (In (c # cs)) = Some (In cs)"
| "str_next Past = None"

text \<open>\<open>char\<close> is signed on the targets of the build.\<close>

definition schar :: "char \<Rightarrow> int" where
  "schar c = (if code c < 128 then int (code c) else int (code c) - 256)"

definition tolower_i :: "int \<Rightarrow> int" where
  "tolower_i n = (if 65 \<le> n \<and> n \<le> 90 then n + 32 else n)"

definition char_match :: "bool \<Rightarrow> char \<Rightarrow> char \<Rightarrow> bool" where
  "char_match nocase a b =
     (if nocase then tolower_i (schar a) = tolower_i (schar b) else a = b)"

definition range_match :: "bool \<Rightarrow> char \<Rightarrow> char \<Rightarrow> char \<Rightarrow> bool" where
  "range_match nocase a b c =
     (let start = min (schar a) (schar b); stop = max (schar a) (schar b); x = schar c;
          start = (if nocase then tolower_i start else start);
          stop = (if nocase then tolower_i stop else stop);
          x = (if nocase then tolower_i x else x)
      in start \<le> x \<and> x \<le> stop)"

text \<open>
  The inner loop of the \<open>[\<close> case: \<open>class_loop nocase p c match\<close> runs from pattern rest
  \<open>p\<close> with \<open>string[0] = c\<close> and returns \<open>match\<close> and the pattern rest after the
  \<open>pattern++\<close> that follows the switch. A backslash at the very end of the pattern moves the
  pattern pointer past the NUL, which the next test reads.
\<close>

fun class_loop :: "bool \<Rightarrow> string \<Rightarrow> char \<Rightarrow> bool \<Rightarrow> (bool \<times> string) option" where
  "class_loop nocase p c m =
     (case p of
        [] \<Rightarrow> Some (m, [])
      | a # p' \<Rightarrow>
          if a = CHR 0x5C then
            (case p' of
               [] \<Rightarrow> None
             | b # p'' \<Rightarrow> class_loop nocase p'' c (m \<or> b = c))
          else if a = CHR '']'' then Some (m, p')
          else
            (case p' of
               b # e # p'' \<Rightarrow>
                 if b = CHR ''-'' then class_loop nocase p'' c (m \<or> range_match nocase a e c)
                 else class_loop nocase p' c (m \<or> char_match nocase a c)
             | _ \<Rightarrow> class_loop nocase p' c (m \<or> char_match nocase a c)))"

declare class_loop.simps [simp del]

text \<open>The \<open>while(stringLen)\<close> loop of the \<open>*\<close> case; \<open>f\<close> is the recursive call.\<close>

fun star_list :: "(strpos \<Rightarrow> bool option) \<Rightarrow> string \<Rightarrow> bool option" where
  "star_list f [] = Some False"
| "star_list f (x # xs) =
     (case f (In (x # xs)) of Some False \<Rightarrow> star_list f xs | r \<Rightarrow> r)"

definition star_loop :: "(strpos \<Rightarrow> bool option) \<Rightarrow> strpos \<Rightarrow> bool option" where
  "star_loop f s =
     (case s of
        In xs \<Rightarrow> star_list f xs
      | Past \<Rightarrow> (case f Past of Some False \<Rightarrow> None | r \<Rightarrow> r))"

lemma star_loop_cong [fundef_cong]:
  "s = t \<Longrightarrow> (\<And>x. f x = g x) \<Longrightarrow> star_loop f s = star_loop g t"
  by (simp add: ext [of f g])

definition class_start :: "string \<Rightarrow> bool \<times> string" where
  "class_start p =
     (case p of c # p' \<Rightarrow> if c = CHR ''^'' then (True, p') else (False, p) | [] \<Rightarrow> (False, []))"

lemma class_loop_length: "class_loop nc p c m = Some (m', r) \<Longrightarrow> length r \<le> length p"
proof (induction nc p c m rule: class_loop.induct)
  case (1 nc p c m)
  show ?case
    using "1.prems" "1.IH"
    by (subst (asm) class_loop.simps)
      (force split: list.splits if_splits simp: le_SucI)
qed


text \<open>
  \<open>step\<close> is one turn of the \<open>while(patternLen)\<close> loop for a token that consumes a
  character: the matching test and the rest of the pattern after the token.
\<close>

definition token_step :: "bool \<Rightarrow> string \<Rightarrow> strpos \<Rightarrow> (bool \<times> string) option" where
  "token_step nocase p s =
     (case p of
        [] \<Rightarrow> None
      | a # p' \<Rightarrow>
          if a = CHR ''?'' then Some (s \<noteq> In [], p')
          else if a = CHR ''['' then
            (case str_read s of
               None \<Rightarrow> None
             | Some c \<Rightarrow>
                 let (neg, q) = class_start p' in
                 (case class_loop nocase q c False of
                    None \<Rightarrow> None
                  | Some (m, r) \<Rightarrow> Some (m \<noteq> neg, r)))
          else
            let (b, r) = (if a = CHR 0x5C \<and> p' \<noteq> [] then (hd p', tl p') else (a, p')) in
            map_option (\<lambda>c. (char_match nocase b c, r)) (str_read s))"

lemma class_start_length: "class_start p = (neg, q) \<Longrightarrow> length q \<le> length p"
  by (auto simp: class_start_def split: list.splits if_splits)

lemma token_step_length: "token_step nc p s = Some (m, r) \<Longrightarrow> length r < length p"
  by (auto simp: token_step_def Let_def split: list.splits if_splits option.splits prod.splits
      dest!: class_loop_length class_start_length)

function stringmatchlen :: "bool \<Rightarrow> string \<Rightarrow> strpos \<Rightarrow> bool option" where
  "stringmatchlen nocase p s =
     (case p of
        [] \<Rightarrow> Some (s = In [])
      | a # p' \<Rightarrow>
          if a = CHR ''*'' then
            let q = dropWhile (\<lambda>c. c = CHR ''*'') p' in
            if q = [] then Some True else star_loop (\<lambda>t. stringmatchlen nocase q t) s
          else
            (case token_step nocase p s of
               None \<Rightarrow> None
             | Some (m, r) \<Rightarrow>
                 if \<not> m then Some False
                 else
                   (case str_next s of
                      None \<Rightarrow> None
                    | Some t \<Rightarrow>
                        if t = In [] then Some (dropWhile (\<lambda>c. c = CHR ''*'') r = [])
                        else stringmatchlen nocase r t)))"
  by pat_completeness auto
termination
proof (relation "measure (\<lambda>(nc, p, s). length p)")
  fix p :: string and a p' q and s t :: strpos and nc :: bool
  assume "p = a # p'" "q = dropWhile (\<lambda>c. c = CHR ''*'') p'"
  then show "((nc, q, t), (nc, p, s)) \<in> measure (\<lambda>(nc, p, s). length p)"
    by (simp add: length_dropWhile_le less_Suc_eq_le)
qed (auto dest: token_step_length)

declare stringmatchlen.simps [simp del]

definition stringmatch :: "string \<Rightarrow> string \<Rightarrow> bool \<Rightarrow> bool option" where
  "stringmatch pattern str nocase = stringmatchlen nocase (c_str pattern) (In (c_str str))"

subsection \<open>Reference semantics\<close>

text \<open>
  A pattern as a list of tokens, read without any string, and the usual declarative meaning of the
  tokens: \<open>*\<close> stands for any string, every other token for one character.
\<close>

datatype item = Esc char | Single char | Range char char

datatype token = Star | Any | Lit char | Class bool "item list"

fun item_match :: "bool \<Rightarrow> item \<Rightarrow> char \<Rightarrow> bool" where
  "item_match nocase (Esc a) c = (a = c)"
| "item_match nocase (Single a) c = char_match nocase a c"
| "item_match nocase (Range a b) c = range_match nocase a b c"

fun token_match :: "bool \<Rightarrow> token \<Rightarrow> char \<Rightarrow> bool" where
  "token_match nocase Star c = False"
| "token_match nocase Any c = True"
| "token_match nocase (Lit a) c = char_match nocase a c"
| "token_match nocase (Class neg items) c = ((\<exists>i \<in> set items. item_match nocase i c) \<noteq> neg)"

fun glob_match :: "bool \<Rightarrow> token list \<Rightarrow> string \<Rightarrow> bool" where
  "glob_match nocase [] s = (s = [])"
| "glob_match nocase (Star # ts) [] = glob_match nocase ts []"
| "glob_match nocase (Star # ts) (c # cs) =
     (glob_match nocase ts (c # cs) \<or> glob_match nocase (Star # ts) cs)"
| "glob_match nocase (t # ts) [] = False"
| "glob_match nocase (t # ts) (c # cs) = (token_match nocase t c \<and> glob_match nocase ts cs)"

fun class_items :: "string \<Rightarrow> (item list \<times> string) option" where
  "class_items [] = Some ([], [])"
| "class_items (a # p) =
     (if a = CHR 0x5C then
        (case p of
           [] \<Rightarrow> None
         | b # p' \<Rightarrow> map_option (\<lambda>(is, r). (Esc b # is, r)) (class_items p'))
      else if a = CHR '']'' then Some ([], p)
      else
        (case p of
           b # e # p' \<Rightarrow>
             if b = CHR ''-'' then map_option (\<lambda>(is, r). (Range a e # is, r)) (class_items p')
             else map_option (\<lambda>(is, r). (Single a # is, r)) (class_items p)
         | _ \<Rightarrow> map_option (\<lambda>(is, r). (Single a # is, r)) (class_items p)))"

declare class_items.simps(2) [simp del]

lemma class_items_length: "class_items p = Some (is, r) \<Longrightarrow> length r \<le> length p"
proof (induction p arbitrary: "is" r rule: class_items.induct)
  case 1
  then show ?case by simp
next
  case (2 a p)
  show ?case
    using "2.prems" "2.IH"
    by (subst (asm) class_items.simps) (force split: list.splits if_splits simp: le_SucI)
qed

definition next_token :: "string \<Rightarrow> (token \<times> string) option" where
  "next_token p =
     (case p of
        [] \<Rightarrow> None
      | a # p' \<Rightarrow>
          if a = CHR ''*'' then Some (Star, p')
          else if a = CHR ''?'' then Some (Any, p')
          else if a = CHR ''['' then
            let (neg, q) = class_start p' in
            map_option (\<lambda>(is, r). (Class neg is, r)) (class_items q)
          else if a = CHR 0x5C \<and> p' \<noteq> [] then Some (Lit (hd p'), tl p')
          else Some (Lit a, p'))"

lemma next_token_length: "next_token p = Some (t, r) \<Longrightarrow> length r < length p"
  by (auto simp: next_token_def Let_def split: list.splits if_splits prod.splits
      dest!: class_items_length class_start_length)

function glob_tokens :: "string \<Rightarrow> token list option" where
  "glob_tokens p =
     (if p = [] then Some []
      else case next_token p of
             None \<Rightarrow> None
           | Some (t, r) \<Rightarrow> map_option (Cons t) (glob_tokens r))"
  by pat_completeness auto
termination
  by (relation "measure length") (auto dest: next_token_length)

declare glob_tokens.simps [simp del]

lemma class_loop_items:
  "class_loop nc p c m =
     map_option (\<lambda>(is, r). (m \<or> (\<exists>i \<in> set is. item_match nc i c), r)) (class_items p)"
proof (induction p arbitrary: m rule: measure_induct_rule [of length])
  case (less p)
  show ?case
  proof (cases p)
    case Nil
    then show ?thesis by (simp add: class_loop.simps)
  next
    case (Cons a p')
    have IH: "class_loop nc q c m' =
        map_option (\<lambda>(is, r). (m' \<or> (\<exists>i \<in> set is. item_match nc i c), r)) (class_items q)"
      if "length q \<le> length p'" for q m'
      using less.IH that Cons by simp
    show ?thesis
      unfolding Cons
      by (subst class_loop.simps, subst class_items.simps)
        (auto simp: IH option.map_comp comp_def split: list.splits intro!: map_option_cong)
  qed
qed

text \<open>One turn of the matcher's loop on a character is one token of the reference.\<close>

lemma token_step_next:
  assumes "p \<noteq> []" "hd p \<noteq> CHR ''*''"
  shows "token_step nc p (In (c # cs)) =
    map_option (\<lambda>(t, r). (token_match nc t c, r)) (next_token p)"
  using assms
  by (auto simp: token_step_def next_token_def class_loop_items option.map_comp comp_def Let_def
      split: list.splits prod.splits option.splits)

lemma next_token_not_star: "next_token p = Some (t, r) \<Longrightarrow> hd p \<noteq> CHR ''*'' \<Longrightarrow> t \<noteq> Star"
  by (auto simp: next_token_def Let_def split: list.splits if_splits prod.splits)

lemma glob_match_consume:
  "t \<noteq> Star \<Longrightarrow> glob_match nc (t # ts) (c # cs) \<longleftrightarrow> token_match nc t c \<and> glob_match nc ts cs"
  "t \<noteq> Star \<Longrightarrow> \<not> glob_match nc (t # ts) []"
  by (cases t; simp)+

lemma glob_match_Star_Star: "glob_match nc (Star # Star # ts) s = glob_match nc (Star # ts) s"
  by (induction s) auto

lemma glob_match_Star_end: "glob_match nc [Star] s"
  by (induction s) auto

lemma glob_tokens_Nil [simp]: "glob_tokens [] = Some []"
  by (simp add: glob_tokens.simps)

lemma glob_tokens_Star [simp]:
  "glob_tokens (CHR ''*'' # p) = map_option (Cons Star) (glob_tokens p)"
  by (subst glob_tokens.simps) (simp add: next_token_def)

lemma glob_tokens_consume:
  assumes "glob_tokens p = Some ts" "p \<noteq> []" "hd p \<noteq> CHR ''*''"
  shows "\<exists>t r ts'. next_token p = Some (t, r) \<and> t \<noteq> Star \<and> glob_tokens r = Some ts' \<and>
    ts = t # ts'"
proof -
  from assms(1,2) glob_tokens.simps [of p] obtain t r ts' where
    t: "next_token p = Some (t, r)" "glob_tokens r = Some ts'" "ts = t # ts'"
    by (auto split: option.splits)
  moreover have "t \<noteq> Star" using next_token_not_star [OF t(1) assms(3)] .
  ultimately show ?thesis by blast
qed

lemma glob_match_Nil:
  "glob_tokens p = Some ts \<Longrightarrow> glob_match nc ts [] \<longleftrightarrow> dropWhile (\<lambda>c. c = CHR ''*'') p = []"
proof (induction p arbitrary: ts)
  case Nil
  then show ?case by simp
next
  case (Cons a p)
  show ?case
  proof (cases "a = CHR ''*''")
    case True
    with Cons.prems obtain us where us: "glob_tokens p = Some us" "ts = Star # us" by auto
    with True show ?thesis using Cons.IH [OF us(1)] by simp
  next
    case False
    with glob_tokens_consume [OF Cons.prems] obtain t ts' where "ts = t # ts'" "t \<noteq> Star"
      by auto
    with False show ?thesis by (simp add: glob_match_consume)
  qed
qed

lemma glob_tokens_dropStars:
  assumes "glob_tokens p = Some ts"
  obtains ts' where "glob_tokens (dropWhile (\<lambda>c. c = CHR ''*'') p) = Some ts'"
    "\<And>s. glob_match nc (Star # ts) s = glob_match nc (Star # ts') s"
  using assms
proof (induction p arbitrary: ts thesis)
  case Nil
  then show ?case by simp
next
  case (Cons a p)
  show ?case
  proof (cases "a = CHR ''*''")
    case False
    with Cons.prems show ?thesis by simp
  next
    case True
    with Cons.prems(2) obtain us where us: "glob_tokens p = Some us" "ts = Star # us" by auto
    with Cons.IH [OF _ us(1)] obtain ts' where
      "glob_tokens (dropWhile (\<lambda>c. c = CHR ''*'') p) = Some ts'"
      "\<And>s. glob_match nc (Star # us) s = glob_match nc (Star # ts') s" by blast
    with True us(2) Cons.prems(1) show ?thesis by (simp add: glob_match_Star_Star)
  qed
qed

lemma star_list_glob:
  assumes "\<And>xs. xs \<noteq> [] \<Longrightarrow> f (In xs) = Some (glob_match nc ts xs)"
    and "\<not> glob_match nc ts []"
  shows "star_list f xs = Some (glob_match nc (Star # ts) xs)"
  using assms by (induction xs) (auto split: bool.splits)

lemma stringmatchlen_glob:
  "glob_tokens p = Some ts \<Longrightarrow> s \<noteq> [] \<Longrightarrow> stringmatchlen nc p (In s) = Some (glob_match nc ts s)"
proof (induction p arbitrary: ts s rule: measure_induct_rule [of length])
  case (less p)
  show ?case
  proof (cases p)
    case Nil
    with less.prems show ?thesis by (simp add: stringmatchlen.simps)
  next
    case (Cons a p')
    show ?thesis
    proof (cases "a = CHR ''*''")
      case True
      let ?q = "dropWhile (\<lambda>c. c = CHR ''*'') p'"
      from True Cons less.prems obtain us where us: "glob_tokens p' = Some us" "ts = Star # us"
        by auto
      from glob_tokens_dropStars [OF us(1)] obtain ts' where ts': "glob_tokens ?q = Some ts'"
        "\<And>s. glob_match nc (Star # us) s = glob_match nc (Star # ts') s" by metis
      show ?thesis
      proof (cases "?q = []")
        case q: True
        have "ts' = []" using ts'(1) unfolding q by simp
        then show ?thesis
          using q ts'(2) True Cons us
          by (subst stringmatchlen.simps) (simp add: glob_match_Star_end)
      next
        case q: False
        have "length ?q < length p"
          using Cons length_dropWhile_le [of "\<lambda>c. c = CHR ''*''" p'] by simp
        moreover have "\<not> glob_match nc ts' []"
          using glob_match_Nil [OF ts'(1)] q hd_dropWhile [of "\<lambda>c. c = CHR ''*''" p']
          by (cases ?q) auto
        ultimately have "star_list (\<lambda>t. stringmatchlen nc ?q t) s
            = Some (glob_match nc (Star # ts') s)"
          using less.IH ts'(1) by (intro star_list_glob) simp_all
        then show ?thesis
          using q True Cons us ts'(2)
          by (subst stringmatchlen.simps) (auto simp: star_loop_def)
      qed
    next
      case False
      with Cons less.prems obtain t r ts' where t: "next_token p = Some (t, r)" "t \<noteq> Star"
        "glob_tokens r = Some ts'" "ts = t # ts'"
        using glob_tokens_consume [of p ts] by auto
      obtain c cs where s: "s = c # cs" using less.prems by (cases s) auto
      have step: "token_step nc p (In s) = Some (token_match nc t c, r)"
        using token_step_next [of p nc c cs] t(1) Cons False s by simp
      have "stringmatchlen nc r (In cs) = Some (glob_match nc ts' cs)" if "cs \<noteq> []"
        using less.IH [OF next_token_length [OF t(1)] t(3) that] .
      then show ?thesis
        using step Cons False s t(2,4) glob_match_Nil [OF t(3)]
        by (subst stringmatchlen.simps) (auto simp: glob_match_consume)
    qed
  qed
qed




end
