(* ===== verification/Sds.thy ===== *)
theory Sds
  imports Util "HOL-Library.Monad_Syntax"
begin

text \<open>
  Dynamic strings, \<open>src/lib/src/sds.c\<close>, at the level of their buffers.

  A \<open>struct sdshdr\<close> is its two counters and its bytes. A byte is \<open>None\<close> while nothing has
  been stored in it (\<open>zmalloc\<close> and \<open>zrealloc\<close> hand out uninitialised memory). Every store,
  copy and move checks its range; an access outside the buffer, a read of uninitialised memory or a
  failed \<open>assert\<close> is the result \<open>None\<close>. The counters are \<open>nat\<close>: lengths stay below
  the 512 MB that the commands allow. Allocation failure aborts the process in \<open>zmalloc.c\<close>, so
  the \<open>NULL\<close> tests after allocations are dead code and have no branch.
\<close>

named_theorems sds_simps \<open>the effect of the sds operations on the represented string\<close>

record sdshdr =
  sds_len :: nat
  sds_free :: nat
  sds_buf :: "char option list"

subsection \<open>Memory\<close>

definition mem_write :: "char option list \<Rightarrow> nat \<Rightarrow> char option list \<Rightarrow> char option list option" where
  "mem_write buf i xs =
     (if i + length xs \<le> length buf then Some (take i buf @ xs @ drop (i + length xs) buf) else None)"

definition memcpy :: "char option list \<Rightarrow> nat \<Rightarrow> bytes \<Rightarrow> char option list option" where
  "memcpy buf i xs = mem_write buf i (map Some xs)"

definition memmove :: "char option list \<Rightarrow> nat \<Rightarrow> nat \<Rightarrow> nat \<Rightarrow> char option list option" where
  "memmove buf dst src n =
     (if src + n \<le> length buf then mem_write buf dst (take n (drop src buf)) else None)"

definition zrealloc :: "char option list \<Rightarrow> nat \<Rightarrow> char option list" where
  "zrealloc buf n = take n buf @ replicate (n - length buf) None"

fun mem_read :: "char option list \<Rightarrow> bytes option" where
  "mem_read [] = Some []"
| "mem_read (None # xs) = None"
| "mem_read (Some c # xs) = map_option (Cons c) (mem_read xs)"

lemma mem_read_map_Some [simp]: "mem_read (map Some v) = Some v"
  by (induction v) simp_all

subsection \<open>Representation\<close>

text \<open>
  \<open>sds_repr s v\<close>: the header \<open>s\<close> holds the binary string \<open>v\<close>, followed by the NUL
  that every sds string has and by \<open>free\<close> more bytes.
\<close>

definition sds_repr :: "sdshdr \<Rightarrow> bytes \<Rightarrow> bool" where
  "sds_repr s v \<longleftrightarrow>
     sds_len s = length v \<and> length (sds_buf s) = sds_len s + sds_free s + 1 \<and>
     take (length v + 1) (sds_buf s) = map Some (v @ [NUL])"

definition sdslen :: "sdshdr \<Rightarrow> nat" where
  "sdslen s = sds_len s"

definition sdsavail :: "sdshdr \<Rightarrow> nat" where
  "sdsavail s = sds_free s"

text \<open>The content of the string, what a caller that reads \<open>sdslen(s)\<close> bytes sees.\<close>

definition sds_content :: "sdshdr \<Rightarrow> bytes option" where
  "sds_content s = mem_read (take (sds_len s) (sds_buf s))"

lemma sds_repr_iff:
  "sds_repr s v \<longleftrightarrow>
     (\<exists>t. sds_buf s = map Some v @ Some NUL # t \<and> length t = sds_free s \<and> sds_len s = length v)"
proof
  assume r: "sds_repr s v"
  have "sds_buf s = take (length v + 1) (sds_buf s) @ drop (length v + 1) (sds_buf s)" by simp
  also have "take (length v + 1) (sds_buf s) = map Some v @ [Some NUL]"
    using r by (simp add: sds_repr_def)
  finally show "\<exists>t. sds_buf s = map Some v @ Some NUL # t \<and> length t = sds_free s \<and>
      sds_len s = length v"
    using r by (intro exI [of _ "drop (length v + 1) (sds_buf s)"]) (simp add: sds_repr_def)
qed (auto simp: sds_repr_def)

lemma sds_reprE [elim?]:
  assumes "sds_repr s v"
  obtains t where "sds_buf s = map Some v @ Some NUL # t" "length t = sds_free s"
    "sds_len s = length v"
  using assms unfolding sds_repr_iff by blast

lemma sds_reprI:
  "sds_buf s = map Some v @ Some NUL # t \<Longrightarrow> length t = sds_free s \<Longrightarrow> sds_len s = length v \<Longrightarrow>
     sds_repr s v"
  unfolding sds_repr_iff by blast

lemma sds_repr_len: "sds_repr s v \<Longrightarrow> sdslen s = length v"
  by (simp add: sds_repr_def sdslen_def)

lemma sds_repr_content: "sds_repr s v \<Longrightarrow> sds_content s = Some v"
  by (auto simp: sds_content_def elim!: sds_reprE)

lemma sds_repr_unique: "sds_repr s v \<Longrightarrow> sds_repr s w \<Longrightarrow> v = w"
  using sds_repr_content [of s v] sds_repr_content [of s w] by simp

subsection \<open>Operations\<close>

definition sdsnewlen :: "bytes option \<Rightarrow> nat \<Rightarrow> sdshdr option" where
  "sdsnewlen init initlen =
     (let fresh = (if init \<noteq> None then replicate (initlen + 1) None
                   else replicate (initlen + 1) (Some NUL)) in
      do {
        b1 \<leftarrow> (case init of Some xs \<Rightarrow> memcpy fresh 0 (take initlen xs) | None \<Rightarrow> Some fresh);
        b2 \<leftarrow> memcpy b1 initlen [NUL];
        Some \<lparr>sds_len = initlen, sds_free = 0, sds_buf = b2\<rparr>
      })"

definition sdsempty :: "sdshdr option" where
  "sdsempty = sdsnewlen (Some []) 0"

definition sdsnew :: "bytes option \<Rightarrow> sdshdr option" where
  "sdsnew init =
     (let initlen = (case init of None \<Rightarrow> 0 | Some xs \<Rightarrow> length (c_str xs))
      in sdsnewlen init initlen)"

definition sdsdup :: "sdshdr \<Rightarrow> sdshdr option" where
  "sdsdup s = sds_content s \<bind> (\<lambda>v. sdsnewlen (Some v) (sdslen s))"

fun mem_strlen :: "char option list \<Rightarrow> nat option" where
  "mem_strlen [] = None"
| "mem_strlen (None # xs) = None"
| "mem_strlen (Some c # xs) = (if c = NUL then Some 0 else map_option Suc (mem_strlen xs))"

definition sdsupdatelen :: "sdshdr \<Rightarrow> sdshdr option" where
  "sdsupdatelen s =
     do {
       reallen \<leftarrow> mem_strlen (sds_buf s);
       Some (s\<lparr>sds_free := sds_free s + sds_len s - reallen, sds_len := reallen\<rparr>)
     }"

definition sdsclear :: "sdshdr \<Rightarrow> sdshdr option" where
  "sdsclear s =
     do {
       b \<leftarrow> memcpy (sds_buf s) 0 [NUL];
       Some (s\<lparr>sds_free := sds_free s + sds_len s, sds_len := 0, sds_buf := b\<rparr>)
     }"

definition SDS_MAX_PREALLOC :: nat where
  "SDS_MAX_PREALLOC = 1024 * 1024"

definition sdsMakeRoomFor :: "sdshdr \<Rightarrow> nat \<Rightarrow> sdshdr" where
  "sdsMakeRoomFor s addlen =
     (let free = sdsavail s in
      if free \<ge> addlen then s
      else
        let len = sdslen s; newlen = len + addlen;
            newlen' = (if newlen < SDS_MAX_PREALLOC then newlen * 2 else newlen + SDS_MAX_PREALLOC)
        in s\<lparr>sds_buf := zrealloc (sds_buf s) (newlen' + 1), sds_free := newlen' - len\<rparr>)"

definition sdsRemoveFreeSpace :: "sdshdr \<Rightarrow> sdshdr" where
  "sdsRemoveFreeSpace s = s\<lparr>sds_buf := zrealloc (sds_buf s) (sds_len s + 1), sds_free := 0\<rparr>"

definition sdsAllocSize :: "sdshdr \<Rightarrow> nat" where
  "sdsAllocSize s = 8 + sds_len s + sds_free s + 1"

definition sdsIncrLen :: "sdshdr \<Rightarrow> int \<Rightarrow> sdshdr option" where
  "sdsIncrLen s incr =
     (if \<not> int (sds_free s) \<ge> incr then None
      else
        let len = int (sds_len s) + incr; free = int (sds_free s) - incr in
        if \<not> free \<ge> 0 \<or> len < 0 then None
        else do {
          b \<leftarrow> memcpy (sds_buf s) (nat len) [NUL];
          Some (s\<lparr>sds_len := nat len, sds_free := nat free, sds_buf := b\<rparr>)
        })"

definition sdsgrowzero :: "sdshdr \<Rightarrow> nat \<Rightarrow> sdshdr option" where
  "sdsgrowzero s len =
     (let curlen = sds_len s in
      if len \<le> curlen then Some s
      else
        let s' = sdsMakeRoomFor s (len - curlen) in
        do {
          b \<leftarrow> memcpy (sds_buf s') curlen (replicate (len - curlen + 1) NUL);
          let totlen = sds_len s' + sds_free s';
          Some (s'\<lparr>sds_len := len, sds_free := totlen - len, sds_buf := b\<rparr>)
        })"

definition sdscatlen :: "sdshdr \<Rightarrow> bytes \<Rightarrow> sdshdr option" where
  "sdscatlen s t =
     (let curlen = sdslen s; len = length t; s' = sdsMakeRoomFor s len in
      do {
        b1 \<leftarrow> memcpy (sds_buf s') curlen t;
        b2 \<leftarrow> memcpy b1 (curlen + len) [NUL];
        Some (s'\<lparr>sds_len := curlen + len, sds_free := sds_free s' - len, sds_buf := b2\<rparr>)
      })"

definition sdscat :: "sdshdr \<Rightarrow> bytes \<Rightarrow> sdshdr option" where
  "sdscat s t = sdscatlen s (c_str t)"

definition sdscatsds :: "sdshdr \<Rightarrow> sdshdr \<Rightarrow> sdshdr option" where
  "sdscatsds s t = sds_content t \<bind> sdscatlen s"

definition sdscpylen :: "sdshdr \<Rightarrow> bytes \<Rightarrow> sdshdr option" where
  "sdscpylen s t =
     (let len = length t; totlen = sds_free s + sds_len s;
          s' = (if totlen < len then sdsMakeRoomFor s (len - sds_len s) else s);
          totlen' = (if totlen < len then sds_free s' + sds_len s' else totlen)
      in do {
        b1 \<leftarrow> memcpy (sds_buf s') 0 t;
        b2 \<leftarrow> memcpy b1 len [NUL];
        Some (s'\<lparr>sds_len := len, sds_free := totlen' - len, sds_buf := b2\<rparr>)
      })"

definition sdscpy :: "sdshdr \<Rightarrow> bytes \<Rightarrow> sdshdr option" where
  "sdscpy s t = sdscpylen s (c_str t)"

text \<open>\<open>sdsfromlonglong\<close> repeats the digit loop of \<open>ll2string\<close>.\<close>

definition sdsfromlonglong :: "int \<Rightarrow> sdshdr option" where
  "sdsfromlonglong value =
     (let v = (if value < 0 then - word_of_int value else word_of_int value) :: u64;
          p = ull_digits v [];
          p' = (if value < 0 then CHR ''-'' # p else p)
      in sdsnewlen (Some p') (length p'))"

subsection \<open>Trimming, ranges, case, comparison\<close>

text \<open>\<open>strchr(cset,c)\<close> also finds the terminating NUL of \<open>cset\<close>.\<close>

definition strchr :: "bytes \<Rightarrow> char \<Rightarrow> bool" where
  "strchr cset c \<longleftrightarrow> c \<in> set (c_str cset) \<or> c = NUL"

fun trim_left :: "bytes \<Rightarrow> bytes \<Rightarrow> int \<Rightarrow> int \<Rightarrow> nat \<Rightarrow> int" where
  "trim_left v cset sp stop 0 = sp"
| "trim_left v cset sp stop (Suc k) =
     (if sp \<le> stop \<and> strchr cset (v ! nat sp) then trim_left v cset (sp + 1) stop k else sp)"

fun trim_right :: "bytes \<Rightarrow> bytes \<Rightarrow> int \<Rightarrow> nat \<Rightarrow> int" where
  "trim_right v cset ep 0 = ep"
| "trim_right v cset ep (Suc k) =
     (if ep > 0 \<and> strchr cset (v ! nat ep) then trim_right v cset (ep - 1) k else ep)"

definition sdstrim :: "sdshdr \<Rightarrow> bytes \<Rightarrow> sdshdr option" where
  "sdstrim s cset =
     do {
       v \<leftarrow> sds_content s;
       let n = sdslen s;
       let sp = trim_left v cset 0 (int n - 1) n;
       let ep = trim_right v cset (int n - 1) n;
       let len = (if sp > ep then 0 else nat (ep - sp + 1));
       b1 \<leftarrow> (if sp \<noteq> 0 then memmove (sds_buf s) 0 (nat sp) len else Some (sds_buf s));
       b2 \<leftarrow> memcpy b1 len [NUL];
       Some (s\<lparr>sds_free := sds_free s + (sds_len s - len), sds_len := len, sds_buf := b2\<rparr>)
     }"

definition sdsrange :: "sdshdr \<Rightarrow> int \<Rightarrow> int \<Rightarrow> sdshdr option" where
  "sdsrange s start stop =
     (let len = int (sdslen s) in
      if len = 0 then Some s
      else
        let start = (if start < 0 then max 0 (len + start) else start);
            stop = (if stop < 0 then max 0 (len + stop) else stop);
            newlen = (if start > stop then 0 else stop - start + 1);
            (start, newlen) =
              (if newlen \<noteq> 0 then
                 if start \<ge> len then (start, 0)
                 else if stop \<ge> len then
                   (start, if start > len - 1 then 0 else len - 1 - start + 1)
                 else (start, newlen)
               else (0, newlen))
        in do {
          b1 \<leftarrow> (if start \<noteq> 0 \<and> newlen \<noteq> 0
                 then memmove (sds_buf s) 0 (nat start) (nat newlen) else Some (sds_buf s));
          b2 \<leftarrow> memcpy b1 (nat newlen) [NUL];
          Some (s\<lparr>sds_free := sds_free s + (sds_len s - nat newlen), sds_len := nat newlen,
                  sds_buf := b2\<rparr>)
        })"

definition sds_map :: "(char \<Rightarrow> char) \<Rightarrow> sdshdr \<Rightarrow> sdshdr option" where
  "sds_map f s = do { v \<leftarrow> sds_content s; b \<leftarrow> memcpy (sds_buf s) 0 (map f v); Some (s\<lparr>sds_buf := b\<rparr>) }"

definition sdstolower :: "sdshdr \<Rightarrow> sdshdr option" where
  "sdstolower s = sds_map tolower s"

definition sdstoupper :: "sdshdr \<Rightarrow> sdshdr option" where
  "sdstoupper s = sds_map toupper s"

text \<open>The inner loop of \<open>sdsmapchars\<close> stops at the first position of the character.\<close>

fun mapchar :: "bytes \<Rightarrow> bytes \<Rightarrow> char \<Rightarrow> char" where
  "mapchar (f # from) (t # to) c = (if c = f then t else mapchar from to c)"
| "mapchar _ _ c = c"

definition sdsmapchars :: "sdshdr \<Rightarrow> bytes \<Rightarrow> bytes \<Rightarrow> nat \<Rightarrow> sdshdr option" where
  "sdsmapchars s from to setlen = sds_map (mapchar (take setlen from) (take setlen to)) s"

fun memcmp :: "bytes \<Rightarrow> bytes \<Rightarrow> int" where
  "memcmp (a # as) (b # bs) =
     (if a = b then memcmp as bs else if code a < code b then -1 else 1)"
| "memcmp _ _ = 0"

definition sdscmp :: "sdshdr \<Rightarrow> sdshdr \<Rightarrow> int option" where
  "sdscmp s1 s2 =
     do {
       v1 \<leftarrow> sds_content s1;
       v2 \<leftarrow> sds_content s2;
       let l1 = sdslen s1;
       let l2 = sdslen s2;
       let minlen = (if l1 < l2 then l1 else l2);
       let cmp = memcmp (take minlen v1) (take minlen v2);
       Some (if cmp = 0 then int l1 - int l2 else cmp)
     }"

subsection \<open>Correctness\<close>

lemma mem_write_mid [simp]:
  "length x = length y \<Longrightarrow> mem_write (a @ x @ b) (length a) y = Some (a @ y @ b)"
  by (simp add: mem_write_def)

lemma sdsnewlen_repr: "length v = n \<Longrightarrow> \<exists>s. sdsnewlen (Some v) n = Some s \<and> sds_repr s v"
  by (auto simp: sdsnewlen_def memcpy_def mem_write_def sds_repr_def)

lemma sdsMakeRoomFor_repr:
  assumes "sds_repr s v"
  shows "sds_repr (sdsMakeRoomFor s n) v" "n \<le> sds_free (sdsMakeRoomFor s n)"
proof -
  from assms obtain t where t: "sds_buf s = map Some v @ Some NUL # t" "length t = sds_free s"
    "sds_len s = length v" by (rule sds_reprE)
  show "sds_repr (sdsMakeRoomFor s n) v"
  proof (cases "n \<le> sds_free s")
    case True
    with assms show ?thesis by (simp add: sdsMakeRoomFor_def sdsavail_def)
  next
    case False
    define k where "k = (if length v + n < SDS_MAX_PREALLOC then (length v + n) * 2
                         else length v + n + SDS_MAX_PREALLOC)"
    have k: "length v + sds_free s \<le> k" using False by (auto simp: k_def)
    have "zrealloc (sds_buf s) (k + 1) =
        map Some v @ Some NUL # (t @ replicate (k - length v - length t) None)"
      using k t by (simp add: zrealloc_def)
    moreover have "sdsMakeRoomFor s n =
        s\<lparr>sds_buf := zrealloc (sds_buf s) (k + 1), sds_free := k - length v\<rparr>"
      using False t(3) by (simp add: sdsMakeRoomFor_def sdsavail_def sdslen_def k_def Let_def)
    ultimately show ?thesis
      using t k by (intro sds_reprI [where t = "t @ replicate (k - length v - length t) None"]) simp_all
  qed
  show "n \<le> sds_free (sdsMakeRoomFor s n)"
    by (auto simp: sdsMakeRoomFor_def sdsavail_def Let_def sdslen_def)
qed

text \<open>Writing over the terminator and the free space behind it.\<close>

lemma sds_append:
  assumes "sds_repr s v" and "length w \<le> sds_free s"
  shows "\<exists>t. (do { b1 \<leftarrow> memcpy (sds_buf s) (length v) w; memcpy b1 (length v + length w) [NUL] }) =
      Some (map Some (v @ w) @ Some NUL # t) \<and> length t = sds_free s - length w"
proof -
  from assms(1) obtain t where t: "sds_buf s = map Some v @ Some NUL # t"
    "length t = sds_free s" by (rule sds_reprE)
  let ?x = "take (length w) (Some NUL # t)" and ?y = "drop (length w) (Some NUL # t)"
  have len: "length ?x = length (map Some w)" and y: "?y \<noteq> []"
    using assms(2) t(2) by simp_all
  have "sds_buf s = map Some v @ ?x @ ?y" using t(1) by (simp only: append_take_drop_id)
  then have 1: "memcpy (sds_buf s) (length v) w = Some (map Some v @ map Some w @ ?y)"
    using mem_write_mid [OF len, of "map Some v" ?y] by (simp add: memcpy_def)
  obtain z zs where z: "?y = z # zs" using y by (cases ?y) simp_all
  have "length zs = sds_free s - length w"
    using z t(2) assms(2) by (metis diff_Suc_1 length_Cons length_drop Suc_diff_le)
  moreover have "memcpy (map Some v @ map Some w @ z # zs) (length v + length w) [NUL] =
      Some (map Some (v @ w) @ Some NUL # zs)"
    using mem_write_mid [of "[z]" "[Some NUL]" "map Some v @ map Some w" zs]
    by (simp add: memcpy_def)
  ultimately show ?thesis using 1 z by auto
qed

lemma sdscatlen_repr:
  assumes "sds_repr s v"
  shows "\<exists>s'. sdscatlen s t = Some s' \<and> sds_repr s' (v @ t)"
proof -
  let ?s = "sdsMakeRoomFor s (length t)"
  have r: "sds_repr ?s v" and f: "length t \<le> sds_free ?s"
    using sdsMakeRoomFor_repr [OF assms] by blast+
  have l: "sdslen s = length v" using assms by (rule sds_repr_len)
  from sds_append [OF r f] obtain b1 b2 u where
    "memcpy (sds_buf ?s) (length v) t = Some b1" "memcpy b1 (length v + length t) [NUL] = Some b2"
    "b2 = map Some (v @ t) @ Some NUL # u" "length u = sds_free ?s - length t"
    by (auto split: Option.bind_splits)
  then show ?thesis using l by (auto simp: sdscatlen_def Let_def intro!: sds_reprI)
qed

text \<open>Terminating a buffer that starts with a given string.\<close>

lemma sds_terminate:
  assumes "length b = m + 1" and "take (length w) b = map Some w" and "length w \<le> m"
  shows "\<exists>t. memcpy b (length w) [NUL] = Some (map Some w @ Some NUL # t) \<and> length t = m - length w"
  using assms by (auto simp: memcpy_def mem_write_def)

lemma sds_truncate:
  assumes "sds_repr s v" and "take (length w) b = map Some w" and "length b = length (sds_buf s)"
    and "length w \<le> length v"
  shows "\<exists>b'. memcpy b (length w) [NUL] = Some b' \<and>
      sds_repr (s\<lparr>sds_free := sds_free s + (sds_len s - length w), sds_len := length w,
        sds_buf := b'\<rparr>) w"
proof -
  have "length b = (sds_len s + sds_free s) + 1" and l: "sds_len s = length v"
    using assms by (simp_all add: sds_repr_def)
  moreover have "length w \<le> sds_len s + sds_free s" using assms(4) l by simp
  ultimately obtain t where "memcpy b (length w) [NUL] = Some (map Some w @ Some NUL # t)"
    "length t = sds_len s + sds_free s - length w"
    using sds_terminate [OF _ assms(2)] by blast
  then show ?thesis using l assms(4) by (auto intro!: sds_reprI)
qed

lemma sds_memmove_prefix:
  assumes "sds_repr s v" and "i + n \<le> length v"
  shows "\<exists>b. memmove (sds_buf s) 0 i n = Some b \<and> length b = length (sds_buf s) \<and>
    take n b = map Some (take n (drop i v))"
proof -
  from assms(1) obtain t where t: "sds_buf s = map Some v @ Some NUL # t" by (rule sds_reprE)
  have "take n (drop i (sds_buf s)) = map Some (take n (drop i v))"
    using assms(2) by (simp add: t drop_map take_map)
  then show ?thesis
    using assms(2) by (simp add: memmove_def mem_write_def t take_map)
qed

lemma sds_prefix: "sds_repr s v \<Longrightarrow> n \<le> length v \<Longrightarrow> take n (sds_buf s) = map Some (take n v)"
  by (auto elim!: sds_reprE simp: take_map)

lemma sdsclear_repr: "sds_repr s v \<Longrightarrow> \<exists>s'. sdsclear s = Some s' \<and> sds_repr s' []"
  using sds_truncate [of s v "[]" "sds_buf s"] by (auto simp: sdsclear_def)

lemma sdscpylen_repr:
  assumes "sds_repr s v"
  shows "\<exists>s'. sdscpylen s t = Some s' \<and> sds_repr s' t"
proof -
  define s1 where "s1 = (if sds_free s + sds_len s < length t
      then sdsMakeRoomFor s (length t - sds_len s) else s)"
  have r: "sds_repr s1 v" using assms by (auto simp: s1_def sdsMakeRoomFor_repr)
  have len: "sds_len s1 = sds_len s" by (simp add: s1_def sdsMakeRoomFor_def Let_def)
  have room: "length t \<le> sds_free s1 + sds_len s1"
    using sdsMakeRoomFor_repr(2) [OF assms, of "length t - sds_len s"] len
    by (auto simp: s1_def split: if_splits)
  have bl: "length (sds_buf s1) = sds_free s1 + sds_len s1 + 1"
    using r by (simp add: sds_repr_def)
  then have "memcpy (sds_buf s1) 0 t = Some (map Some t @ drop (length t) (sds_buf s1))"
    using room by (simp add: memcpy_def mem_write_def)
  moreover obtain u where
    "memcpy (map Some t @ drop (length t) (sds_buf s1)) (length t) [NUL] =
      Some (map Some t @ Some NUL # u)" "length u = sds_free s1 + sds_len s1 - length t"
    using sds_terminate [of "map Some t @ drop (length t) (sds_buf s1)"
        "sds_free s1 + sds_len s1" t] bl room by auto
  moreover have "(if sds_free s + sds_len s < length t then sds_free s1 + sds_len s1
      else sds_free s + sds_len s) = sds_free s1 + sds_len s1"
    by (simp add: s1_def)
  ultimately show ?thesis
    unfolding sdscpylen_def Let_def s1_def [symmetric] by (auto intro!: sds_reprI)
qed

lemma sdsgrowzero_repr:
  assumes "sds_repr s v"
  shows "\<exists>s'. sdsgrowzero s n = Some s' \<and> sds_repr s' (v @ replicate (n - length v) NUL)"
proof (cases "n \<le> sds_len s")
  case True
  then show ?thesis using assms by (simp add: sdsgrowzero_def sds_repr_def)
next
  case False
  let ?k = "n - length v"
  let ?s = "sdsMakeRoomFor s ?k"
  have l: "sds_len s = length v" using assms by (simp add: sds_repr_def)
  have r: "sds_repr ?s v" and f: "?k \<le> sds_free ?s"
    using sdsMakeRoomFor_repr [OF assms] by blast+
  from r obtain t where t: "sds_buf ?s = map Some v @ Some NUL # t" "length t = sds_free ?s"
    "sds_len ?s = length v" by (rule sds_reprE)
  have "memcpy (sds_buf ?s) (length v) (replicate (?k + 1) NUL) =
      Some (map Some v @ map Some (replicate (?k + 1) NUL) @ drop (?k + 1) (Some NUL # t))"
    using f t(2) by (simp add: memcpy_def mem_write_def t(1))
  also have "map Some v @ map Some (replicate (?k + 1) NUL) @ drop (?k + 1) (Some NUL # t) =
      map Some (v @ replicate ?k NUL) @ Some NUL # drop ?k t"
  proof -
    have "replicate (?k + 1) NUL = replicate ?k NUL @ [NUL]"
      by (simp add: replicate_append_same)
    then show ?thesis by (simp only: map_append append_assoc) simp
  qed
  finally show ?thesis
    using False l t f by (auto simp: sdsgrowzero_def Let_def intro!: sds_reprI)
qed

lemma trim_left_run:
  "(\<And>i. sp \<le> i \<Longrightarrow> i < e \<Longrightarrow> strchr cset (v ! nat i)) \<Longrightarrow> sp \<le> e \<Longrightarrow> e \<le> stop + 1 \<Longrightarrow>
   e = stop + 1 \<or> \<not> strchr cset (v ! nat e) \<Longrightarrow> nat (e - sp) \<le> k \<Longrightarrow>
   trim_left v cset sp stop k = e"
proof (induction k arbitrary: sp)
  case 0
  then show ?case by simp
next
  case (Suc k)
  show ?case
  proof (cases "sp = e")
    case True
    with Suc.prems(4) show ?thesis by auto
  next
    case False
    then have "trim_left v cset (sp + 1) stop k = e"
      using Suc.prems by (intro Suc.IH) auto
    then show ?thesis using False Suc.prems by auto
  qed
qed

lemma trim_right_run:
  "(\<And>i. e < i \<Longrightarrow> i \<le> ep \<Longrightarrow> strchr cset (v ! nat i)) \<Longrightarrow> 0 \<le> e \<Longrightarrow> e \<le> ep \<Longrightarrow>
   e = 0 \<or> \<not> strchr cset (v ! nat e) \<Longrightarrow> nat (ep - e) \<le> k \<Longrightarrow>
   trim_right v cset ep k = e"
proof (induction k arbitrary: ep)
  case 0
  then show ?case by simp
next
  case (Suc k)
  show ?case
  proof (cases "ep = e")
    case True
    with Suc.prems(4) show ?thesis by auto
  next
    case False
    then have "trim_right v cset (ep - 1) k = e"
      using Suc.prems by (intro Suc.IH) auto
    then show ?thesis using False Suc.prems by auto
  qed
qed

text \<open>A string is a trimmed core between two runs of trimmed characters.\<close>

lemma trim_split:
  obtains a m b where "v = a @ m @ b" "list_all P a" "list_all P b"
    "m = rev (dropWhile P (rev (dropWhile P v)))"
    "m = [] \<Longrightarrow> b = []" "m \<noteq> [] \<Longrightarrow> \<not> P (hd m) \<and> \<not> P (last m)"
proof -
  let ?a = "takeWhile P v" and ?r = "dropWhile P v"
  let ?m = "rev (dropWhile P (rev ?r))" and ?b = "rev (takeWhile P (rev ?r))"
  have r: "?r = ?m @ ?b"
    by (metis rev_append rev_rev_ident takeWhile_dropWhile_id)
  have "v = ?a @ ?m @ ?b" using r by (metis takeWhile_dropWhile_id)
  moreover have "list_all P ?a" "list_all P ?b"
    by (auto simp: list_all_iff dest: set_takeWhileD)
  moreover have "?b = []" if "?m = []"
    using that r hd_dropWhile [of P v]
    by (metis append_Nil dropWhile_eq_Nil_conv hd_in_set list.set_sel(1) rev.simps(1)
        rev_is_Nil_conv set_rev takeWhile.simps(1))
  moreover have "\<not> P (hd ?m) \<and> \<not> P (last ?m)" if m: "?m \<noteq> []"
  proof -
    have "\<not> P (hd ?r)" using m r hd_dropWhile [of P v] by (metis append_is_Nil_conv)
    moreover have "hd ?r = hd ?m" using m r by (metis hd_append2)
    moreover have "\<not> P (hd (dropWhile P (rev ?r)))" using m hd_dropWhile by (metis rev_is_Nil_conv)
    ultimately show ?thesis by (simp add: last_rev)
  qed
  ultimately show ?thesis using that by metis
qed

definition trim_spec :: "bytes \<Rightarrow> bytes \<Rightarrow> bytes" where
  "trim_spec cset v = rev (dropWhile (strchr cset) (rev (dropWhile (strchr cset) v)))"

lemma trim_bounds:
  assumes v: "v = a @ m @ b" and a: "list_all (strchr cset) a" and b: "list_all (strchr cset) b"
    and mb: "m = [] \<Longrightarrow> b = []"
    and m: "m \<noteq> [] \<Longrightarrow> \<not> strchr cset (hd m) \<and> \<not> strchr cset (last m)"
  shows "trim_left v cset 0 (int (length v) - 1) (length v) = int (length a)"
    and "m \<noteq> [] \<Longrightarrow> trim_right v cset (int (length v) - 1) (length v)
           = int (length a + length m) - 1"
    and "m = [] \<Longrightarrow> v \<noteq> [] \<Longrightarrow> trim_right v cset (int (length v) - 1) (length v) = 0"
proof -
  have pa: "strchr cset (v ! i)" if "i < length a" for i
    using that a v by (simp add: nth_append list_all_length)
  have pb: "strchr cset (v ! i)" if "length a + length m \<le> i" "i < length v" for i
  proof -
    have "v ! i = b ! (i - length (a @ m))"
      using that v nth_append [of "a @ m" b i] by simp
    then show ?thesis using that b v by (simp add: list_all_length)
  qed
  show "trim_left v cset 0 (int (length v) - 1) (length v) = int (length a)"
  proof (rule trim_left_run)
    show "int (length a) = int (length v) - 1 + 1 \<or> \<not> strchr cset (v ! nat (int (length a)))"
      using mb m v by (cases m) (auto simp: nth_append)
  qed (use pa v in auto)
  show "trim_right v cset (int (length v) - 1) (length v) = int (length a + length m) - 1"
    if ne: "m \<noteq> []"
  proof (rule trim_right_run)
    have "v = (a @ butlast m) @ last m # b"
      using v append_butlast_last_id [OF ne] by (simp del: append_butlast_last_id)
    moreover have "length (a @ butlast m) = length a + length m - 1"
      using ne by (simp add: Suc_le_eq)
    ultimately have "v ! (length a + length m - 1) = last m"
      by (metis nth_append_length)
    then show "int (length a + length m) - 1 = 0 \<or>
        \<not> strchr cset (v ! nat (int (length a + length m) - 1))"
      using m ne by (simp add: nat_diff_distrib' flip: of_nat_add)
    show "strchr cset (v ! nat i)"
      if "int (length a + length m) - 1 < i" "i \<le> int (length v) - 1" for i
      using that pb [of "nat i"] by simp
    show "0 \<le> int (length a + length m) - 1"
      using length_greater_0_conv [of m] ne by linarith
  qed (use v in auto)
  show "trim_right v cset (int (length v) - 1) (length v) = 0" if "m = []" "v \<noteq> []"
    using that mb v pa by (intro trim_right_run) (auto simp: Suc_le_eq)
qed

lemma sdstrim_repr:
  assumes r: "sds_repr s v"
  shows "\<exists>s'. sdstrim s cset = Some s' \<and> sds_repr s' (trim_spec cset v)"
proof -
  obtain a m b where v: "v = a @ m @ b" and ab: "list_all (strchr cset) a"
    "list_all (strchr cset) b" and meq: "m = trim_spec cset v" and mb: "m = [] \<Longrightarrow> b = []"
    and m: "m \<noteq> [] \<Longrightarrow> \<not> strchr cset (hd m) \<and> \<not> strchr cset (last m)"
    using trim_split [of v "strchr cset"] unfolding trim_spec_def by metis
  note bounds = trim_bounds [OF v ab mb m]
  let ?sp = "trim_left v cset 0 (int (length v) - 1) (length v)"
  let ?ep = "trim_right v cset (int (length v) - 1) (length v)"
  have len: "(if ?sp > ?ep then 0 else nat (?ep - ?sp + 1)) = length m"
    and sp: "nat ?sp = length a" and z: "?sp = 0 \<longleftrightarrow> a = []"
    using bounds mb v by (cases "m = []"; cases "v = []"; auto)+
  have fit: "length a + length m \<le> length v" using v by simp
  have mid: "take (length m) (drop (length a) v) = m" using v by simp
  define b1 where "b1 = (if a \<noteq> [] then the (memmove (sds_buf s) 0 (length a) (length m))
                         else sds_buf s)"
  have b1: "(if ?sp \<noteq> 0 then memmove (sds_buf s) 0 (nat ?sp) (length m) else Some (sds_buf s))
      = Some b1" "take (length m) b1 = map Some m" "length b1 = length (sds_buf s)"
    using sds_memmove_prefix [OF r fit] sds_prefix [OF r, of "length m"] fit mid z sp v
    by (cases "a = []"; force simp: b1_def)+
  from sds_truncate [OF r b1(2,3)] fit obtain b2 where "memcpy b1 (length m) [NUL] = Some b2"
    "sds_repr (s\<lparr>sds_free := sds_free s + (sds_len s - length m), sds_len := length m,
       sds_buf := b2\<rparr>) m" by auto
  then show ?thesis
    unfolding sdstrim_def Let_def sds_repr_content [OF r] sds_repr_len [OF r] bind.bind_lunit len b1(1)
    using meq by simp
qed

definition range_spec :: "bytes \<Rightarrow> int \<Rightarrow> int \<Rightarrow> bytes" where
  "range_spec v start stop =
     (let n = int (length v);
          i = (if start < 0 then max 0 (n + start) else start);
          j = min (n - 1) (if stop < 0 then max 0 (n + stop) else stop)
      in if i > j then [] else take (nat (j - i + 1)) (drop (nat i) v))"

lemma sdsrange_repr:
  assumes r: "sds_repr s v"
  shows "\<exists>s'. sdsrange s start stop = Some s' \<and> sds_repr s' (range_spec v start stop)"
proof (cases "v = []")
  case True
  have "range_spec v start stop = []" using True by (simp add: range_spec_def Let_def)
  then show ?thesis
    using r True by (simp add: sdsrange_def sds_repr_len [OF r])
next
  case False
  define n where "n = int (length v)"
  define i where "i = (if start < 0 then max 0 (n + start) else start)"
  define e where "e = (if stop < 0 then max 0 (n + stop) else stop)"
  define j where "j = min (n - 1) e"
  define k where "k = (if i > j then 0 else nat (j - i + 1))"
  define i' where "i' = (if i > e then 0 else i)"
  let ?w = "range_spec v start stop"
  have n: "n > 0" "0 \<le> i" "0 \<le> e" using False by (auto simp: n_def i_def e_def)
  have w: "?w = take k (drop (nat i') v)" "length ?w = k" "k \<noteq> 0 \<Longrightarrow> nat i' + k \<le> length v"
  proof -
    have "?w = (if i > j then [] else take (nat (j - i + 1)) (drop (nat i) v))"
      by (simp only: range_spec_def Let_def i_def e_def j_def n_def)
    moreover have "j < int (length v)" "i \<le> j \<Longrightarrow> i' = i" by (auto simp: j_def n_def i'_def)
    ultimately show "?w = take k (drop (nat i') v)" "length ?w = k"
      "k \<noteq> 0 \<Longrightarrow> nat i' + k \<le> length v"
      using n by (auto simp: k_def)
  qed
  have step: "(if (if i > e then 0 else e - i + 1) \<noteq> 0 then
                 if i \<ge> n then (i, 0)
                 else if e \<ge> n then (i, if i > n - 1 then 0 else n - 1 - i + 1)
                 else (i, if i > e then 0 else e - i + 1)
               else (0, if i > e then 0 else e - i + 1)) = (i', int k)"
    using n by (auto simp: k_def i'_def j_def min_def)
  define b1 where "b1 = (if i' \<noteq> 0 \<and> k \<noteq> 0 then the (memmove (sds_buf s) 0 (nat i') k)
                         else sds_buf s)"
  have b1: "(if i' \<noteq> 0 \<and> int k \<noteq> 0 then memmove (sds_buf s) 0 (nat i') k else Some (sds_buf s))
      = Some b1" "take k b1 = map Some ?w" "length b1 = length (sds_buf s)"
  proof -
    have "\<exists>b. memmove (sds_buf s) 0 (nat i') k = Some b \<and> length b = length (sds_buf s) \<and>
        take k b = map Some ?w" if "k \<noteq> 0"
      using sds_memmove_prefix [OF r w(3) [OF that]] w(1) by simp
    moreover have "take k (sds_buf s) = map Some ?w" if "i' = 0 \<or> k = 0"
      using that sds_prefix [OF r, of k] w by (cases "k = 0") auto
    ultimately show "(if i' \<noteq> 0 \<and> int k \<noteq> 0 then memmove (sds_buf s) 0 (nat i') k
        else Some (sds_buf s)) = Some b1" "take k b1 = map Some ?w"
      "length b1 = length (sds_buf s)"
      by (cases "k = 0"; force simp: b1_def)+
  qed
  have "k \<le> length v" using w(3) by (cases "k = 0") simp_all
  then obtain b2 where b2: "memcpy b1 k [NUL] = Some b2"
    "sds_repr (s\<lparr>sds_free := sds_free s + (sds_len s - k), sds_len := k, sds_buf := b2\<rparr>) ?w"
    using sds_truncate [OF r, of ?w b1] b1 w(2) by auto
  have "sdsrange s start stop =
      Some (s\<lparr>sds_free := sds_free s + (sds_len s - k), sds_len := k, sds_buf := b2\<rparr>)"
    unfolding sdsrange_def Let_def sds_repr_len [OF r] n_def [symmetric] i_def [symmetric]
      e_def [symmetric] step prod.case nat_int b1(1) bind.bind_lunit b2(1)
    using n by simp
  with b2(2) show ?thesis by simp
qed

lemma sds_map_repr:
  assumes "sds_repr s v"
  shows "\<exists>s'. sds_map f s = Some s' \<and> sds_repr s' (map f v)"
proof -
  from assms obtain t where t: "sds_buf s = map Some v @ Some NUL # t" "length t = sds_free s"
    "sds_len s = length v" by (rule sds_reprE)
  have "memcpy (sds_buf s) 0 (map f v) = Some (map Some (map f v) @ Some NUL # t)"
    by (simp add: memcpy_def mem_write_def t)
  then show ?thesis
    using t by (auto simp: sds_map_def sds_repr_content [OF assms] intro!: sds_reprI)
qed

lemma sdsRemoveFreeSpace_repr:
  assumes "sds_repr s v"
  shows "sds_repr (sdsRemoveFreeSpace s) v \<and> sds_free (sdsRemoveFreeSpace s) = 0"
  using assms by (auto simp: sdsRemoveFreeSpace_def zrealloc_def sds_repr_def)

lemma mem_strlen_c_str: "mem_strlen (map Some v @ Some NUL # t) = Some (length (c_str v))"
  by (induction v) (auto simp: c_str_def)

lemma c_str_prefix: "v = c_str v \<or> (\<exists>w. v = c_str v @ NUL # w)"
proof (cases "dropWhile (\<lambda>c. c \<noteq> NUL) v")
  case Nil
  then have "NUL \<notin> set v" by (auto simp: dropWhile_eq_Nil_conv)
  then show ?thesis by simp
next
  case (Cons x w)
  then have "x = NUL" using hd_dropWhile [of "\<lambda>c. c \<noteq> NUL" v] by simp
  with Cons show ?thesis
    using takeWhile_dropWhile_id [of "\<lambda>c. c \<noteq> NUL" v] unfolding c_str_def by metis
qed

lemma sdsupdatelen_repr:
  assumes "sds_repr s v"
  shows "\<exists>s'. sdsupdatelen s = Some s' \<and> sds_repr s' (c_str v)"
proof -
  from assms obtain t where t: "sds_buf s = map Some v @ Some NUL # t" "length t = sds_free s"
    "sds_len s = length v" by (rule sds_reprE)
  obtain u where u: "v @ [NUL] = c_str v @ NUL # u"
    using c_str_prefix [of v] by (metis append.assoc append_Cons append_Nil)
  have "sds_buf s = map Some (v @ [NUL]) @ t" using t by simp
  also have "\<dots> = map Some (c_str v) @ Some NUL # (map Some u @ t)" using u by simp
  finally have b: "sds_buf s = map Some (c_str v) @ Some NUL # (map Some u @ t)" .
  have "length u = length v - length (c_str v)"
    using arg_cong [OF u, of length] by simp
  then show ?thesis
    using b t length_c_str_le [of v] mem_strlen_c_str [of v t]
    by (auto simp: sdsupdatelen_def intro!: sds_reprI [where t = "map Some u @ t"])
qed

text \<open>The pattern of \<open>readQueryFromClient\<close>: make room, write behind the string, grow it.\<close>

lemma sdsIncrLen_repr:
  assumes "sds_repr s v" and "length w \<le> sds_free s"
    and "memcpy (sds_buf s) (length v) w = Some b"
  shows "\<exists>s'. sdsIncrLen (s\<lparr>sds_buf := b\<rparr>) (int (length w)) = Some s' \<and> sds_repr s' (v @ w)"
proof -
  have l: "sds_len s = length v" using assms(1) by (simp add: sds_repr_def)
  obtain t where "memcpy b (length v + length w) [NUL] = Some (map Some (v @ w) @ Some NUL # t)"
    "length t = sds_free s - length w"
    using sds_append [OF assms(1,2)] assms(3) by auto
  then show ?thesis
    using assms(2) l
    by (auto simp: sdsIncrLen_def Let_def nat_diff_distrib' nat_add_distrib intro!: sds_reprI)
qed

subsection \<open>Comparison is the lexicographic order on bytes\<close>

lemma memcmp_eq_0: "length v = length w \<Longrightarrow> memcmp v w = 0 \<longleftrightarrow> v = w"
  by (induction v w rule: list_induct2) auto

definition sdscmp_spec :: "bytes \<Rightarrow> bytes \<Rightarrow> int" where
  "sdscmp_spec v w =
     (let n = min (length v) (length w); cmp = memcmp (take n v) (take n w)
      in if cmp = 0 then int (length v) - int (length w) else cmp)"

lemma sdscmp_repr: "sds_repr s v \<Longrightarrow> sds_repr t w \<Longrightarrow> sdscmp s t = Some (sdscmp_spec v w)"
  by (simp add: sdscmp_def sdscmp_spec_def sds_repr_content sds_repr_len Let_def min_def)

lemma sdscmp_spec_Cons:
  "sdscmp_spec (a # v) (b # w) =
     (if a = b then sdscmp_spec v w else if code a < code b then -1 else 1)"
  by (simp add: sdscmp_spec_def Let_def)

lemma sdscmp_spec_less: "sdscmp_spec v w < 0 \<longleftrightarrow> (v, w) \<in> lexord {(a, b). code a < code b}"
proof (induction v arbitrary: w)
  case Nil
  then show ?case by (cases w) (simp_all add: sdscmp_spec_def Let_def)
next
  case (Cons a v)
  then show ?case
    by (cases w) (auto simp: sdscmp_spec_Cons sdscmp_spec_def [of _ "[]"] Let_def)
qed

lemma sdscmp_spec_0: "sdscmp_spec v w = 0 \<longleftrightarrow> v = w"
proof (induction v arbitrary: w)
  case Nil
  then show ?case by (cases w) (simp_all add: sdscmp_spec_def Let_def)
next
  case (Cons a v)
  then show ?case
    by (cases w) (auto simp: sdscmp_spec_Cons sdscmp_spec_def [of _ "[]"] Let_def)
qed

subsection \<open>The contract of an appendable string\<close>

text \<open>
  What the users of sds strings rely on when they build a reply, a channel name or a log line
  piece by piece.
\<close>

fun cat_all :: "('s \<Rightarrow> bytes \<Rightarrow> 's option) \<Rightarrow> 's \<Rightarrow> bytes list \<Rightarrow> 's option" where
  "cat_all cat s [] = Some s"
| "cat_all cat s (t # ts) = cat s t \<bind> (\<lambda>s'. cat_all cat s' ts)"

locale append_buffer =
  fixes repr :: "'s \<Rightarrow> bytes \<Rightarrow> bool"
    and cat :: "'s \<Rightarrow> bytes \<Rightarrow> 's option"
  assumes cat_repr: "repr s v \<Longrightarrow> \<exists>s'. cat s t = Some s' \<and> repr s' (v @ t)"
begin

lemma cat_all_repr: "repr s v \<Longrightarrow> \<exists>s'. cat_all cat s ts = Some s' \<and> repr s' (v @ concat ts)"
proof (induction ts arbitrary: s v)
  case Nil
  then show ?case by simp
next
  case (Cons t ts)
  from cat_repr [OF Cons.prems, of t] obtain s' where s': "cat s t = Some s'" "repr s' (v @ t)"
    by blast
  from Cons.IH [OF s'(2)] s'(1) show ?case by simp
qed

end

interpretation sds: append_buffer sds_repr sdscatlen
  by unfold_locales (rule sdscatlen_repr)

text \<open>\<open>sdsjoin\<close> appends the strings and, between them, the separator.\<close>

fun sdsjoin_loop :: "sdshdr \<Rightarrow> bytes list \<Rightarrow> bytes \<Rightarrow> sdshdr option" where
  "sdsjoin_loop j [] sep = Some j"
| "sdsjoin_loop j [a] sep = sdscat j a"
| "sdsjoin_loop j (a # as) sep =
     do { j1 \<leftarrow> sdscat j a; j2 \<leftarrow> sdscat j1 sep; sdsjoin_loop j2 as sep }"

definition sdsjoin :: "bytes list \<Rightarrow> bytes \<Rightarrow> sdshdr option" where
  "sdsjoin argv sep = sdsempty \<bind> (\<lambda>j. sdsjoin_loop j argv sep)"

fun join_pieces :: "bytes list \<Rightarrow> bytes \<Rightarrow> bytes list" where
  "join_pieces [] sep = []"
| "join_pieces [a] sep = [c_str a]"
| "join_pieces (a # as) sep = c_str a # c_str sep # join_pieces as sep"

lemma sdsjoin_loop_cat_all: "sdsjoin_loop j as sep = cat_all sdscatlen j (join_pieces as sep)"
  by (induction j as sep rule: sdsjoin_loop.induct)
    (auto simp: sdscat_def split: Option.bind_splits)

lemma sdsempty_repr: "\<exists>s. sdsempty = Some s \<and> sds_repr s []"
  unfolding sdsempty_def by (rule sdsnewlen_repr) simp

lemma sdsjoin_repr: "\<exists>s. sdsjoin as sep = Some s \<and> sds_repr s (concat (join_pieces as sep))"
proof -
  obtain s where s: "sdsempty = Some s" "sds_repr s []" using sdsempty_repr by blast
  show ?thesis
    using sds.cat_all_repr [OF s(2), of "join_pieces as sep"]
    unfolding sdsjoin_def s(1) bind.bind_lunit sdsjoin_loop_cat_all by simp
qed



lemma sdsfromlonglong_repr: "in_ll n \<Longrightarrow> \<exists>s. sdsfromlonglong n = Some s \<and> sds_repr s (dec_int n)"
  using sdsnewlen_repr [of "ll2string_buf n" "length (ll2string_buf n)"] ll2string_buf_dec [of n]
  by (simp add: sdsfromlonglong_def ll2string_buf_def Let_def)

text \<open>
  C31. \<open>sdscmp\<close> is the lexicographic comparison of the two byte strings, read as unsigned
  bytes: negative exactly when the first is smaller, zero exactly when they are equal.
\<close>
theorem sdscmp_lexicographic:
  assumes "sds_repr s v" and "sds_repr t w"
  shows "\<exists>c. sdscmp s t = Some c \<and> (c < 0 \<longleftrightarrow> (v, w) \<in> lexord {(a, b). code a < code b}) \<and>
    (c = 0 \<longleftrightarrow> v = w)"
  using sdscmp_repr [OF assms] sdscmp_spec_less sdscmp_spec_0 by auto

theorem sdscmp_lexicographic_witness:
  "\<exists>s t c. sds_repr s ''ab'' \<and> sds_repr t ''abc'' \<and> sdscmp s t = Some c \<and> c < 0"
proof -
  obtain s where s: "sds_repr s ''ab''" using sdsnewlen_repr [of "''ab''" "length ''ab''"] by auto
  obtain t where t: "sds_repr t ''abc''"
    using sdsnewlen_repr [of "''abc''" "length ''abc''"] by auto
  show ?thesis using sdscmp_lexicographic [OF s t] s t by (auto simp: lexord_def)
qed



end
