(* ===== verification/SdsText.thy ===== *)
theory SdsText
  imports Sds "HOL-Library.Sublist"
begin

text \<open>
  The text functions of \<open>src/lib/src/sds.c\<close>: splitting on a separator, quoting
  (\<open>sdscatrepr\<close>) and the splitting of a line into arguments (\<open>sdssplitargs\<close>, the parser
  of inline commands, of the configuration file and of the command line client).

  The sds strings that these functions build are their contents here: theory Sds shows that
  \<open>sdscatlen\<close> appends and \<open>sdsnewlen\<close> copies. A C string is the list of its characters;
  reading at its end yields the NUL.
\<close>

subsection \<open>Splitting on a separator\<close>

definition slice :: "bytes \<Rightarrow> nat \<Rightarrow> nat \<Rightarrow> bytes" where
  "slice s i j = take (j - i) (drop i s)"

text \<open>
  The loop of \<open>sdssplitlen\<close>. Its test \<open>(seplen == 1 && *(s+j) == sep[0]) ||
  memcmp(s+j,sep,seplen) == 0\<close> compares the separator at \<open>j\<close>; after a match the loop goes on
  behind it.
\<close>

definition sep_at :: "bytes \<Rightarrow> bytes \<Rightarrow> nat \<Rightarrow> bool" where
  "sep_at s sep j \<longleftrightarrow>
     (length sep = 1 \<and> s ! j = sep ! 0) \<or> memcmp (slice s j (j + length sep)) sep = 0"

function split_loop :: "bytes \<Rightarrow> bytes \<Rightarrow> nat \<Rightarrow> nat \<Rightarrow> bytes list \<Rightarrow> bytes list" where
  "split_loop s sep j start tokens =
     (if int j < int (length s) - (int (length sep) - 1) \<and> sep \<noteq> [] then
        if sep_at s sep j
        then split_loop s sep (j + length sep) (j + length sep) (tokens @ [slice s start j])
        else split_loop s sep (j + 1) start tokens
      else tokens @ [slice s start (length s)])"
  by pat_completeness auto
termination
  by (relation "measure (\<lambda>(s, sep, j, start, tokens). length s - j)")
    (auto simp: length_greater_0_conv [symmetric] simp del: length_greater_0_conv)

declare split_loop.simps [simp del]

definition sdssplitlen :: "bytes \<Rightarrow> bytes \<Rightarrow> bytes list option" where
  "sdssplitlen s sep =
     (if length sep < 1 then None
      else if length s = 0 then Some []
      else Some (split_loop s sep 0 0 []))"

subsection \<open>Quoting\<close>

definition hex_char :: "nat \<Rightarrow> char" where
  "hex_char n = (if n < 10 then char_of (48 + n) else char_of (87 + n))"

definition repr_char :: "char \<Rightarrow> string" where
  "repr_char c =
     (if c = CHR 0x5C \<or> c = CHR 0x22 then [CHR 0x5C, c]
      else if c = CHR 0x0A then [CHR 0x5C, CHR ''n'']
      else if c = CHR 0x0D then [CHR 0x5C, CHR ''r'']
      else if c = CHR 0x09 then [CHR 0x5C, CHR ''t'']
      else if c = CHR 0x07 then [CHR 0x5C, CHR ''a'']
      else if c = CHR 0x08 then [CHR 0x5C, CHR ''b'']
      else if isprint c then [c]
      else [CHR 0x5C, CHR ''x'', hex_char (code c div 16), hex_char (code c mod 16)])"

definition sdscatrepr :: "bytes \<Rightarrow> bytes \<Rightarrow> bytes" where
  "sdscatrepr s p = s @ [CHR 0x22] @ concat (map repr_char p) @ [CHR 0x22]"

subsection \<open>Splitting a line into arguments\<close>

definition is_hex_digit :: "char \<Rightarrow> bool" where
  "is_hex_digit c \<longleftrightarrow> (48 \<le> code c \<and> code c \<le> 57) \<or> (97 \<le> code c \<and> code c \<le> 102) \<or>
     (65 \<le> code c \<and> code c \<le> 70)"

definition hex_digit_to_int :: "char \<Rightarrow> nat" where
  "hex_digit_to_int c =
     (if 48 \<le> code c \<and> code c \<le> 57 then code c - 48
      else if 97 \<le> code c \<and> code c \<le> 102 then code c - 87
      else if 65 \<le> code c \<and> code c \<le> 70 then code c - 55
      else 0)"

definition unescape :: "char \<Rightarrow> char" where
  "unescape c =
     (if c = CHR ''n'' then CHR 0x0A
      else if c = CHR ''r'' then CHR 0x0D
      else if c = CHR ''t'' then CHR 0x09
      else if c = CHR ''b'' then CHR 0x08
      else if c = CHR ''a'' then CHR 0x07
      else c)"

datatype quotes = NoQuotes | InQ | InSQ

text \<open>A closing quote must be followed by a space or nothing at all.\<close>

definition closes :: "bytes \<Rightarrow> bool" where
  "closes p \<longleftrightarrow> p = [] \<or> isspace (hd p)"

text \<open>
  The \<open>while(!done)\<close> loop: from the current position it returns the token and the position
  after it, or \<open>None\<close> for the jump to \<open>err\<close>.
\<close>

fun arg_loop :: "quotes \<Rightarrow> bytes \<Rightarrow> bytes \<Rightarrow> (bytes \<times> bytes) option" where
  "arg_loop InQ p current =
     (case p of
        [] \<Rightarrow> None
      | a # p1 \<Rightarrow>
          if a = CHR 0x5C \<and> 3 \<le> length p1 \<and> p1 ! 0 = CHR ''x'' \<and>
             is_hex_digit (p1 ! 1) \<and> is_hex_digit (p1 ! 2)
          then arg_loop InQ (drop 3 p1)
                 (current @ [char_of (hex_digit_to_int (p1 ! 1) * 16 + hex_digit_to_int (p1 ! 2))])
          else if a = CHR 0x5C \<and> p1 \<noteq> [] then
            arg_loop InQ (tl p1) (current @ [unescape (hd p1)])
          else if a = CHR 0x22 then if closes p1 then Some (current, p1) else None
          else arg_loop InQ p1 (current @ [a]))"
| "arg_loop InSQ p current =
     (case p of
        [] \<Rightarrow> None
      | a # p1 \<Rightarrow>
          if a = CHR 0x5C \<and> p1 \<noteq> [] \<and> hd p1 = CHR 0x27 then
            arg_loop InSQ (tl p1) (current @ [CHR 0x27])
          else if a = CHR 0x27 then if closes p1 then Some (current, p1) else None
          else arg_loop InSQ p1 (current @ [a]))"
| "arg_loop NoQuotes p current =
     (case p of
        [] \<Rightarrow> Some (current, [])
      | a # p1 \<Rightarrow>
          if a \<in> {CHR '' '', CHR 0x0A, CHR 0x0D, CHR 0x09} then Some (current, p1)
          else if a = CHR 0x22 then arg_loop InQ p1 current
          else if a = CHR 0x27 then arg_loop InSQ p1 current
          else arg_loop NoQuotes p1 (current @ [a]))"

declare arg_loop.simps [simp del]

lemma arg_loop_le: "arg_loop q p current = Some (t, r) \<Longrightarrow> length r \<le> length p"
proof (induction p arbitrary: q current rule: measure_induct_rule [of length])
  case (less p)
  show ?case
  proof (cases p)
    case Nil
    with less.prems show ?thesis by (cases q) (simp_all add: arg_loop.simps)
  next
    case (Cons a p1)
    have IH: "length r \<le> length p1" if "arg_loop q' p' c = Some (t, r)" "length p' \<le> length p1"
      for q' p' c
      using less.IH [OF _ that(1)] that(2) Cons by simp
    show ?thesis
    proof (cases q)
      case NoQuotes
      with less.prems Cons arg_loop.simps(3) [of p current] IH show ?thesis
        by (auto split: if_splits simp: le_SucI)
    next
      case InQ
      with less.prems Cons arg_loop.simps(1) [of p current] IH show ?thesis
        by (auto split: if_splits simp: le_SucI)
    next
      case InSQ
      with less.prems Cons arg_loop.simps(2) [of p current] IH show ?thesis
        by (auto split: if_splits simp: le_SucI)
    qed
  qed
qed

lemma arg_loop_less:
  assumes "arg_loop NoQuotes p current = Some (t, r)" and "p \<noteq> []"
  shows "length r < length p"
proof -
  obtain a p1 where "p = a # p1" using assms(2) by (cases p) auto
  with assms(1) arg_loop.simps(3) [of p current] show ?thesis
    by (auto split: if_splits simp: less_Suc_eq_le dest!: arg_loop_le [OF sym])
qed

function splitargs_loop :: "bytes \<Rightarrow> bytes list \<Rightarrow> bytes list option" where
  "splitargs_loop p vector =
     (let p' = dropWhile isspace p in
      if p' = [] then Some vector
      else
        case arg_loop NoQuotes p' [] of
          None \<Rightarrow> None
        | Some (current, r) \<Rightarrow> splitargs_loop r (vector @ [current]))"
  by pat_completeness auto
termination
proof (relation "measure (\<lambda>(p, vector). length p)", simp)
  fix p p' :: bytes and x :: "bytes \<times> bytes" and current r :: bytes and vector :: "bytes list"
  assume p': "p' = dropWhile isspace p" "p' \<noteq> []"
    and x: "arg_loop NoQuotes p' [] = Some x" "(current, r) = x"
  have "length r < length p'"
    using arg_loop_less [of p' "[]" current r] p' x by auto
  moreover have "length p' \<le> length p" using p'(1) by (simp add: length_dropWhile_le)
  ultimately show "((r, vector @ [current]), (p, vector)) \<in> measure (\<lambda>(p, vector). length p)"
    by simp
qed

declare splitargs_loop.simps [simp del]

definition sdssplitargs :: "bytes \<Rightarrow> bytes list option" where
  "sdssplitargs line = splitargs_loop (c_str line) []"

subsection \<open>Splitting is the inverse of joining\<close>

fun joinsep :: "bytes \<Rightarrow> bytes list \<Rightarrow> bytes" where
  "joinsep sep [] = []"
| "joinsep sep [t] = t"
| "joinsep sep (t # ts) = t @ sep @ joinsep sep ts"

lemma joinsep_Cons: "ts \<noteq> [] \<Longrightarrow> joinsep sep (t # ts) = t @ sep @ joinsep sep ts"
  by (cases ts) simp_all

lemma sep_at_iff:
  assumes "j + length sep \<le> length s"
  shows "sep_at s sep j \<longleftrightarrow> take (length sep) (drop j s) = sep"
proof -
  have "memcmp (slice s j (j + length sep)) sep = 0 \<longleftrightarrow> take (length sep) (drop j s) = sep"
    using assms by (simp add: slice_def memcmp_eq_0)
  moreover have "take (length sep) (drop j s) = sep" if l: "length sep = 1" and e: "s ! j = sep ! 0"
  proof -
    obtain x where x: "sep = [x]" using l by (auto simp: length_Suc_conv)
    with assms e show ?thesis by (simp add: take_Suc_conv_app_nth)
  qed
  ultimately show ?thesis by (auto simp: sep_at_def)
qed

lemma sublist_slice:
  assumes "sublist sep (slice s i j)" "j \<le> length s" "i \<le> j"
  obtains k where "i \<le> k" "k + length sep \<le> j" "take (length sep) (drop k s) = sep"
proof -
  from assms(1) obtain a b where ab: "slice s i j = a @ sep @ b" by (auto simp: sublist_def)
  have "length (slice s i j) = j - i" using assms by (simp add: slice_def)
  then have len: "length a + length sep + length b = j - i" using ab by simp
  have "take (length sep) (drop (length a) (slice s i j)) = sep" using ab by simp
  moreover have "take (length sep) (drop (length a) (slice s i j))
      = take (length sep) (drop (i + length a) s)"
    using len by (simp add: slice_def drop_take add.commute)
  ultimately show ?thesis using that [of "i + length a"] len assms(3) by simp
qed

lemma no_sep_slice:
  assumes "\<And>i. start \<le> i \<Longrightarrow> i + length sep \<le> j \<Longrightarrow> take (length sep) (drop i s) \<noteq> sep"
    and "start \<le> j" "j \<le> length s"
  shows "\<not> sublist sep (slice s start j)"
proof
  assume "sublist sep (slice s start j)"
  then obtain k where "start \<le> k" "k + length sep \<le> j" "take (length sep) (drop k s) = sep"
    using sublist_slice assms(2,3) by metis
  with assms(1) show False by blast
qed

lemma split_loop_correct:
  assumes "sep \<noteq> []" "start \<le> j" "j \<le> length s"
    and "\<And>i. start \<le> i \<Longrightarrow> i < j \<Longrightarrow> i + length sep \<le> length s \<Longrightarrow>
           take (length sep) (drop i s) \<noteq> sep"
  shows "\<exists>us. split_loop s sep j start tokens = tokens @ us \<and> us \<noteq> [] \<and>
    joinsep sep us = drop start s \<and> (\<forall>u \<in> set us. \<not> sublist sep u)"
  using assms
proof (induction s sep j start tokens rule: split_loop.induct)
  case (1 s sep j start tokens)
  show ?case
  proof (cases "int j < int (length s) - (int (length sep) - 1)")
    case in_range: True
    then have fits: "j + length sep \<le> length s" by linarith
    have pos: "0 < length sep" using "1.prems"(1) by simp
    have token: "\<not> sublist sep (slice s start j)"
    proof (rule no_sep_slice)
      fix i assume "start \<le> i" "i + length sep \<le> j"
      with pos "1.prems"(3) show "take (length sep) (drop i s) \<noteq> sep"
        by (intro "1.prems"(4)) linarith+
    qed (use "1.prems" in simp_all)
    show ?thesis
    proof (cases "sep_at s sep j")
      case match: True
      have "\<exists>us. split_loop s sep (j + length sep) (j + length sep) (tokens @ [slice s start j])
            = (tokens @ [slice s start j]) @ us \<and> us \<noteq> [] \<and>
          joinsep sep us = drop (j + length sep) s \<and> (\<forall>u \<in> set us. \<not> sublist sep u)"
        using "1.IH"(1) in_range match "1.prems"(1) fits by simp
      then obtain us where us: "split_loop s sep (j + length sep) (j + length sep)
          (tokens @ [slice s start j]) = tokens @ slice s start j # us" "us \<noteq> []"
        "joinsep sep us = drop (j + length sep) s" "\<forall>u \<in> set us. \<not> sublist sep u" by auto
      have "slice s start j @ sep @ drop (j + length sep) s = drop start s"
      proof -
        have "sep @ drop (j + length sep) s = drop j s"
          using match sep_at_iff [OF fits] append_take_drop_id [of "length sep" "drop j s"]
          by (simp add: add.commute)
        moreover have "slice s start j @ drop j s = drop start s"
          using append_take_drop_id [of "j - start" "drop start s"] "1.prems"(2)
          by (simp add: slice_def)
        ultimately show ?thesis by simp
      qed
      then show ?thesis
        using us token in_range match "1.prems"(1)
        by (intro exI [of _ "slice s start j # us"])
          (simp add: split_loop.simps [of s sep j] joinsep_Cons)
    next
      case no_match: False
      have "\<And>i. start \<le> i \<Longrightarrow> i < j + 1 \<Longrightarrow> i + length sep \<le> length s \<Longrightarrow>
           take (length sep) (drop i s) \<noteq> sep"
        using "1.prems"(4) no_match sep_at_iff [OF fits] by (metis less_Suc_eq Suc_eq_plus1)
      moreover have "j + 1 \<le> length s" using fits "1.prems"(1) by (cases sep) simp_all
      ultimately show ?thesis
        using "1.IH"(2) in_range no_match "1.prems" by (simp add: split_loop.simps [of s sep j])
    qed
  next
    case False
    have "\<not> sublist sep (slice s start (length s))"
    proof (rule no_sep_slice)
      fix i assume "start \<le> i" "i + length sep \<le> length s"
      with False show "take (length sep) (drop i s) \<noteq> sep"
        by (intro "1.prems"(4)) linarith+
    qed (use "1.prems" in simp_all)
    then show ?thesis
      using False by (simp add: split_loop.simps [of s sep j]) (simp add: slice_def)
  qed
qed

text \<open>
  C32. \<open>sdssplitlen\<close> with a nonempty separator cuts a nonempty string into the pieces between
  the occurrences of the separator: joining them with the separator gives the string back, and no
  piece contains the separator.
\<close>
theorem sdssplitlen_correct:
  assumes "sep \<noteq> []" and "s \<noteq> []"
  shows "\<exists>tokens. sdssplitlen s sep = Some tokens \<and> joinsep sep tokens = s \<and>
    (\<forall>t \<in> set tokens. \<not> sublist sep t)"
  using split_loop_correct [of sep 0 0 s "[]"] assms
  by (auto simp: sdssplitlen_def Suc_le_eq)

theorem sdssplitlen_correct_witness:
  "sdssplitlen ''foo_-_bar_-_'' ''_-_'' = Some [''foo'', ''bar'', []] \<and>
   (\<exists>tokens. sdssplitlen ''foo_-_bar_-_'' ''_-_'' = Some tokens \<and>
      joinsep ''_-_'' tokens = ''foo_-_bar_-_'')"
proof -
  have "sdssplitlen ''foo_-_bar_-_'' ''_-_'' = Some [''foo'', ''bar'', []]" by code_simp
  then show ?thesis using sdssplitlen_correct [of "''_-_''" "''foo_-_bar_-_''"] by simp
qed

subsection \<open>Quoting and splitting of arguments\<close>

lemma hex_char_digit: "n < 16 \<Longrightarrow> is_hex_digit (hex_char n) \<and> hex_digit_to_int (hex_char n) = n"
  by (auto simp: hex_char_def is_hex_digit_def hex_digit_to_int_def)

lemma repr_char_hex:
  "char_of (hex_digit_to_int (hex_char (code c div 16)) * 16 +
     hex_digit_to_int (hex_char (code c mod 16))) = c"
proof -
  have "code c div 16 < 16" by (simp add: div_less_iff_less_mult)
  then show ?thesis by (simp add: hex_char_digit)
qed

text \<open>Inside double quotes the loop reads the quoted form of a character as that character.\<close>

lemma arg_loop_repr_char: "arg_loop InQ (repr_char c @ p) current = arg_loop InQ p (current @ [c])"
proof -
  have "is_hex_digit (hex_char (code c div 16))" "is_hex_digit (hex_char (code c mod 16))"
    using hex_char_digit [of "code c div 16"] hex_char_digit [of "code c mod 16"]
    by (simp_all add: div_less_iff_less_mult)
  then show ?thesis
    by (subst arg_loop.simps) (simp add: repr_char_def unescape_def repr_char_hex)
qed

lemma arg_loop_repr:
  "closes p \<Longrightarrow> arg_loop InQ (concat (map repr_char v) @ CHR 0x22 # p) current = Some (current @ v, p)"
proof (induction v arbitrary: current)
  case Nil
  then show ?case by (simp add: arg_loop.simps(1) [of "CHR 0x22 # p"])
next
  case (Cons c v)
  then show ?case by (simp add: arg_loop_repr_char)
qed

definition quote :: "bytes \<Rightarrow> bytes" where
  "quote v = sdscatrepr [] v"

lemma quote_splits:
  "closes p \<Longrightarrow> splitargs_loop (quote v @ p) vector = splitargs_loop p (vector @ [v])"
proof -
  assume "closes p"
  moreover have "\<not> isspace (CHR 0x22)" by (simp add: isspace_def)
  ultimately show ?thesis
    by (subst splitargs_loop.simps)
      (simp add: quote_def sdscatrepr_def arg_loop.simps(3) arg_loop_repr)
qed

lemma splitargs_blank: "splitargs_loop (CHR '' '' # p) vector = splitargs_loop p vector"
  by (subst (1 2) splitargs_loop.simps) (simp add: isspace_def)

fun quote_line :: "bytes list \<Rightarrow> bytes" where
  "quote_line [] = []"
| "quote_line [v] = quote v"
| "quote_line (v # vs) = quote v @ CHR '' '' # quote_line vs"

lemma splitargs_quote_line: "splitargs_loop (quote_line vs) vector = Some (vector @ vs)"
proof (induction vs arbitrary: vector rule: quote_line.induct)
  case 1
  then show ?case by (simp add: splitargs_loop.simps)
next
  case (2 v)
  then show ?case using quote_splits [of "[]" v vector] by (simp add: closes_def splitargs_loop.simps)
next
  case (3 v w vs)
  have "closes (CHR '' '' # quote_line (w # vs))" by (simp add: closes_def isspace_def)
  with 3 show ?case by (simp add: quote_splits splitargs_blank)
qed

lemma repr_char_no_nul: "NUL \<notin> set (repr_char c)"
proof -
  have "hex_char n \<noteq> NUL" if "n < 16" for n
    using hex_char_digit [OF that] by (auto simp: is_hex_digit_def)
  then have "hex_char (code c div 16) \<noteq> NUL" "hex_char (code c mod 16) \<noteq> NUL"
    by (simp_all add: div_less_iff_less_mult)
  then show ?thesis by (auto simp: repr_char_def isprint_def)
qed

lemma quote_line_no_nul: "NUL \<notin> set (quote_line vs)"
  by (induction vs rule: quote_line.induct)
    (auto simp: quote_def sdscatrepr_def repr_char_no_nul)

text \<open>
  C22. \<open>sdssplitargs\<close> undoes \<open>sdscatrepr\<close>: a line of arguments that were quoted with
  \<open>sdscatrepr\<close> and separated by blanks splits into exactly those arguments, whatever bytes
  (quotes, blanks, control characters, NUL) they hold.
\<close>
theorem sdssplitargs_sdscatrepr: "sdssplitargs (quote_line vs) = Some vs"
  using splitargs_quote_line [of vs "[]"]
  by (simp add: sdssplitargs_def quote_line_no_nul)

end
