(* ===== verification/Adlist.thy ===== *)
theory Adlist
  imports Prelude "HOL-Library.Monad_Syntax"
begin

text \<open>
  The doubly linked lists of \<open>src/lib/src/adlist.c\<close>, with their nodes in an explicit store.

  A node is an address; \<open>mem\<close> maps the allocated addresses to nodes and \<open>brk\<close> is the next
  address \<open>zmalloc\<close> hands out. Following a pointer that is not allocated (NULL, or freed) is
  \<open>None\<close>. Each operation performs the pointer assignments of the C function in their order. The
  \<open>dup\<close> and \<open>match\<close> methods are part of the list; the \<open>free\<close> method only releases the
  memory behind a value and has no effect on the list.
\<close>

record 'v listNode =
  prev :: "nat option"
  "next" :: "nat option"
  "value" :: 'v

record 'v lheap =
  mem :: "nat \<rightharpoonup> 'v listNode"
  brk :: nat

record 'v alist =
  head :: "nat option"
  tail :: "nat option"
  dup :: "('v \<Rightarrow> 'v option) option"
  match :: "('v \<Rightarrow> 'v \<Rightarrow> bool) option"
  len :: nat

record listIter =
  inext :: "nat option"
  direction :: nat

definition AL_START_HEAD :: nat where "AL_START_HEAD = 0"
definition AL_START_TAIL :: nat where "AL_START_TAIL = 1"

subsection \<open>Memory\<close>

definition deref :: "'v lheap \<Rightarrow> nat option \<Rightarrow> 'v listNode option" where
  "deref h p = (case p of None \<Rightarrow> None | Some a \<Rightarrow> mem h a)"

definition store :: "'v lheap \<Rightarrow> nat \<Rightarrow> 'v listNode \<Rightarrow> 'v lheap" where
  "store h a n = h\<lparr>mem := (mem h)(a \<mapsto> n)\<rparr>"

definition set_prev :: "'v lheap \<Rightarrow> nat option \<Rightarrow> nat option \<Rightarrow> 'v lheap option" where
  "set_prev h p q = do { a \<leftarrow> p; n \<leftarrow> mem h a; Some (store h a (n\<lparr>prev := q\<rparr>)) }"

definition set_next :: "'v lheap \<Rightarrow> nat option \<Rightarrow> nat option \<Rightarrow> 'v lheap option" where
  "set_next h p q = do { a \<leftarrow> p; n \<leftarrow> mem h a; Some (store h a (n\<lparr>next := q\<rparr>)) }"

definition zmalloc :: "'v lheap \<Rightarrow> 'v listNode \<Rightarrow> nat \<times> 'v lheap" where
  "zmalloc h n = (brk h, h\<lparr>mem := (mem h)(brk h \<mapsto> n), brk := brk h + 1\<rparr>)"

definition zfree :: "'v lheap \<Rightarrow> nat \<Rightarrow> 'v lheap option" where
  "zfree h a = (if mem h a = None then None else Some (h\<lparr>mem := (mem h)(a := None)\<rparr>))"

subsection \<open>Operations\<close>

definition listCreate :: "'v alist" where
  "listCreate = \<lparr>head = None, tail = None, dup = None, match = None, len = 0\<rparr>"

definition listAddNodeHead :: "'v lheap \<Rightarrow> 'v alist \<Rightarrow> 'v \<Rightarrow> ('v lheap \<times> 'v alist) option" where
  "listAddNodeHead h l v =
     (if len l = 0 then
        let (a, h1) = zmalloc h \<lparr>prev = None, next = None, value = v\<rparr>
        in Some (h1, l\<lparr>head := Some a, tail := Some a, len := len l + 1\<rparr>)
      else
        let (a, h1) = zmalloc h \<lparr>prev = None, next = head l, value = v\<rparr>
        in do {
          h2 \<leftarrow> set_prev h1 (head l) (Some a);
          Some (h2, l\<lparr>head := Some a, len := len l + 1\<rparr>)
        })"

definition listAddNodeTail :: "'v lheap \<Rightarrow> 'v alist \<Rightarrow> 'v \<Rightarrow> ('v lheap \<times> 'v alist) option" where
  "listAddNodeTail h l v =
     (if len l = 0 then
        let (a, h1) = zmalloc h \<lparr>prev = None, next = None, value = v\<rparr>
        in Some (h1, l\<lparr>head := Some a, tail := Some a, len := len l + 1\<rparr>)
      else
        let (a, h1) = zmalloc h \<lparr>prev = tail l, next = None, value = v\<rparr>
        in do {
          h2 \<leftarrow> set_next h1 (tail l) (Some a);
          Some (h2, l\<lparr>tail := Some a, len := len l + 1\<rparr>)
        })"

definition listInsertNode ::
  "'v lheap \<Rightarrow> 'v alist \<Rightarrow> nat \<Rightarrow> 'v \<Rightarrow> bool \<Rightarrow> ('v lheap \<times> 'v alist) option" where
  "listInsertNode h l old_node v after =
     do {
       old \<leftarrow> mem h old_node;
       let n = (if after then \<lparr>prev = Some old_node, next = next old, value = v\<rparr>
                else \<lparr>prev = prev old, next = Some old_node, value = v\<rparr>);
       let (a, h1) = zmalloc h n;
       let l1 = (if after
                 then if tail l = Some old_node then l\<lparr>tail := Some a\<rparr> else l
                 else if head l = Some old_node then l\<lparr>head := Some a\<rparr> else l);
       h2 \<leftarrow> (if prev n \<noteq> None then set_next h1 (prev n) (Some a) else Some h1);
       h3 \<leftarrow> (if next n \<noteq> None then set_prev h2 (next n) (Some a) else Some h2);
       Some (h3, l1\<lparr>len := len l1 + 1\<rparr>)
     }"

definition listDelNode :: "'v lheap \<Rightarrow> 'v alist \<Rightarrow> nat option \<Rightarrow> ('v lheap \<times> 'v alist) option" where
  "listDelNode h l node =
     do {
       a \<leftarrow> node;
       n \<leftarrow> mem h a;
       (h1, l1) \<leftarrow> (if prev n \<noteq> None
                     then do { h' \<leftarrow> set_next h (prev n) (next n); Some (h', l) }
                     else Some (h, l\<lparr>head := next n\<rparr>));
       (h2, l2) \<leftarrow> (if next n \<noteq> None
                     then do { h' \<leftarrow> set_prev h1 (next n) (prev n); Some (h', l1) }
                     else Some (h1, l1\<lparr>tail := prev n\<rparr>));
       h3 \<leftarrow> zfree h2 a;
       Some (h3, l2\<lparr>len := len l2 - 1\<rparr>)
     }"

fun release_loop :: "'v lheap \<Rightarrow> nat option \<Rightarrow> nat \<Rightarrow> 'v lheap option" where
  "release_loop h current 0 = Some h"
| "release_loop h current (Suc k) =
     do { a \<leftarrow> current; n \<leftarrow> mem h a; h1 \<leftarrow> zfree h a; release_loop h1 (next n) k }"

definition listRelease :: "'v lheap \<Rightarrow> 'v alist \<Rightarrow> 'v lheap option" where
  "listRelease h l = release_loop h (head l) (len l)"

definition listGetIterator :: "'v alist \<Rightarrow> nat \<Rightarrow> listIter" where
  "listGetIterator l dir =
     \<lparr>inext = (if dir = AL_START_HEAD then head l else tail l), direction = dir\<rparr>"

definition listRewind :: "'v alist \<Rightarrow> listIter" where
  "listRewind l = \<lparr>inext = head l, direction = AL_START_HEAD\<rparr>"

definition listRewindTail :: "'v alist \<Rightarrow> listIter" where
  "listRewindTail l = \<lparr>inext = tail l, direction = AL_START_TAIL\<rparr>"

definition listNext :: "'v lheap \<Rightarrow> listIter \<Rightarrow> (nat option \<times> listIter) option" where
  "listNext h it =
     (case inext it of
        None \<Rightarrow> Some (None, it)
      | Some a \<Rightarrow> do {
          n \<leftarrow> mem h a;
          Some (Some a, it\<lparr>inext := (if direction it = AL_START_HEAD then next n else prev n)\<rparr>)
        })"

text \<open>
  The \<open>while((node = listNext(iter)) != NULL)\<close> loops. On a cyclic list they would not end, so
  they are partial functions; the properties below show that they return.
\<close>

partial_function (option) dup_loop ::
  "'v lheap \<Rightarrow> 'v alist \<Rightarrow> listIter \<Rightarrow> ('v lheap \<times> 'v alist option) option" where
  "dup_loop h copy it =
     do {
       (node, it1) \<leftarrow> listNext h it;
       (case node of
          None \<Rightarrow> Some (h, Some copy)
        | Some a \<Rightarrow> do {
            n \<leftarrow> mem h a;
            (case (case dup copy of None \<Rightarrow> Some (value n) | Some f \<Rightarrow> f (value n)) of
               None \<Rightarrow> do { h1 \<leftarrow> listRelease h copy; Some (h1, None) }
             | Some v \<Rightarrow> do {
                 (h1, copy1) \<leftarrow> listAddNodeTail h copy v;
                 dup_loop h1 copy1 it1
               })
          })
     }"

definition listDup :: "'v lheap \<Rightarrow> 'v alist \<Rightarrow> ('v lheap \<times> 'v alist option) option" where
  "listDup h orig =
     dup_loop h (listCreate\<lparr>dup := dup orig, match := match orig\<rparr>)
       (listGetIterator orig AL_START_HEAD)"

partial_function (option) search_loop ::
  "'v lheap \<Rightarrow> 'v alist \<Rightarrow> 'v \<Rightarrow> listIter \<Rightarrow> nat option option" where
  "search_loop h l key it =
     do {
       (node, it1) \<leftarrow> listNext h it;
       (case node of
          None \<Rightarrow> Some None
        | Some a \<Rightarrow> do {
            n \<leftarrow> mem h a;
            (if (case match l of Some m \<Rightarrow> m (value n) key | None \<Rightarrow> key = value n)
             then Some (Some a) else search_loop h l key it1)
          })
     }"

definition listSearchKey :: "'v lheap \<Rightarrow> 'v alist \<Rightarrow> 'v \<Rightarrow> nat option option" where
  "listSearchKey h l key = search_loop h l key (listGetIterator l AL_START_HEAD)"

fun index_prev :: "'v lheap \<Rightarrow> nat \<Rightarrow> nat option \<Rightarrow> nat option option" where
  "index_prev h 0 n = Some n"
| "index_prev h (Suc k) None = Some None"
| "index_prev h (Suc k) (Some a) = do { x \<leftarrow> mem h a; index_prev h k (prev x) }"

fun index_next :: "'v lheap \<Rightarrow> nat \<Rightarrow> nat option \<Rightarrow> nat option option" where
  "index_next h 0 n = Some n"
| "index_next h (Suc k) None = Some None"
| "index_next h (Suc k) (Some a) = do { x \<leftarrow> mem h a; index_next h k (next x) }"

definition listIndex :: "'v lheap \<Rightarrow> 'v alist \<Rightarrow> int \<Rightarrow> nat option option" where
  "listIndex h l index =
     (if index < 0 then index_prev h (nat (- index - 1)) (tail l)
      else index_next h (nat index) (head l))"

definition listRotate :: "'v lheap \<Rightarrow> 'v alist \<Rightarrow> ('v lheap \<times> 'v alist) option" where
  "listRotate h l =
     (if len l \<le> 1 then Some (h, l)
      else do {
        t \<leftarrow> tail l;
        n \<leftarrow> mem h t;
        let l1 = l\<lparr>tail := prev n\<rparr>;
        h1 \<leftarrow> set_next h (tail l1) None;
        h2 \<leftarrow> set_prev h1 (head l1) (Some t);
        h3 \<leftarrow> set_prev h2 (Some t) None;
        h4 \<leftarrow> set_next h3 (Some t) (head l1);
        Some (h4, l1\<lparr>head := Some t\<rparr>)
      })"

subsection \<open>The sequence a list holds\<close>

text \<open>
  \<open>dlseg m p ps n\<close>: the nodes \<open>ps\<close> (addresses with their values) are linked in this order in
  \<open>m\<close>, the first one's \<open>prev\<close> is \<open>p\<close> and the last one's \<open>next\<close> is \<open>n\<close>.
\<close>

fun first :: "(nat \<times> 'v) list \<Rightarrow> nat option \<Rightarrow> nat option" where
  "first [] n = n"
| "first ((a, x) # ps) n = Some a"

fun final :: "(nat \<times> 'v) list \<Rightarrow> nat option \<Rightarrow> nat option" where
  "final [] p = p"
| "final ((a, x) # ps) p = final ps (Some a)"

fun dlseg :: "(nat \<rightharpoonup> 'v listNode) \<Rightarrow> nat option \<Rightarrow> (nat \<times> 'v) list \<Rightarrow> nat option \<Rightarrow> bool" where
  "dlseg m p [] n = True"
| "dlseg m p ((a, x) # ps) n =
     (m a = Some \<lparr>prev = p, next = first ps n, value = x\<rparr> \<and> dlseg m (Some a) ps n)"

definition list_repr :: "'v lheap \<Rightarrow> 'v alist \<Rightarrow> (nat \<times> 'v) list \<Rightarrow> bool" where
  "list_repr h l ps \<longleftrightarrow>
     head l = first ps None \<and> tail l = final ps None \<and> len l = length ps \<and>
     dlseg (mem h) None ps None \<and> distinct (map fst ps) \<and> (\<forall>a\<in>fst ` set ps. a < brk h)"

lemma first_append [simp]: "first (ps @ qs) n = first ps (first qs n)"
  by (induction ps) auto

lemma final_append [simp]: "final (ps @ qs) p = final qs (final ps p)"
  by (induction ps arbitrary: p) auto

lemma first_None: "first ps None = None \<longleftrightarrow> ps = []"
  by (cases ps) auto

lemma final_Some: "\<exists>y. final ps (Some b) = Some y"
  by (induction ps arbitrary: b) auto

lemma final_Some_neq [simp]: "final ps (Some b) \<noteq> None"
  using final_Some [of ps b] by auto

lemma final_None: "final ps None = None \<longleftrightarrow> ps = []"
  by (cases ps) (auto simp: final_Some)

lemma dlseg_append [simp]:
  "dlseg m p (ps @ qs) n \<longleftrightarrow> dlseg m p ps (first qs n) \<and> dlseg m (final ps p) qs n"
  by (induction ps arbitrary: p) auto

lemma dlseg_frame [simp]:
  "a \<notin> fst ` set ps \<Longrightarrow> dlseg (m(a := v)) p ps n = dlseg m p ps n"
  by (induction ps arbitrary: p) auto

lemma dlseg_mem:
  "dlseg m p (us @ (a, x) # vs) n \<Longrightarrow>
   m a = Some \<lparr>prev = final us p, next = first vs n, value = x\<rparr>"
  by simp

lemma dlseg_cong: "(\<And>a. a \<in> fst ` set ps \<Longrightarrow> m a = m' a) \<Longrightarrow> dlseg m p ps n = dlseg m' p ps n"
  by (induction ps arbitrary: p) (auto simp: image_iff)

text \<open>Every node of a list stands at one place of its sequence.\<close>

lemma node_split:
  assumes "a \<in> fst ` set ps"
  shows "\<exists>us x vs. ps = us @ (a, x) # vs"
  using assms by (metis imageE prod.collapse split_list)

subsection \<open>Adding, inserting and deleting\<close>

named_theorems adl
lemmas [adl] = list_repr_def store_def set_prev_def set_next_def zmalloc_def zfree_def Let_def

lemma listCreate_repr: "list_repr h listCreate []"
  by (simp add: list_repr_def listCreate_def)

lemma listAddNodeHead_repr:
  assumes "list_repr h l ps"
  shows "\<exists>h' l'. listAddNodeHead h l v = Some (h', l') \<and> list_repr h' l' ((brk h, v) # ps) \<and>
    dup l' = dup l \<and> match l' = match l \<and> brk h' = brk h + 1 \<and>
    (\<forall>b. b \<notin> fst ` set ps \<and> b \<noteq> brk h \<longrightarrow> mem h' b = mem h b)"
proof (cases ps)
  case Nil
  then show ?thesis using assms by (simp add: listAddNodeHead_def adl)
next
  case (Cons q qs)
  obtain a x where q: "q = (a, x)" by force
  have "brk h \<notin> fst ` set ps" using assms by (auto simp: list_repr_def)
  then show ?thesis using assms unfolding Cons q by (auto simp: listAddNodeHead_def adl)
qed

lemma listAddNodeTail_repr:
  assumes "list_repr h l ps"
  shows "\<exists>h' l'. listAddNodeTail h l v = Some (h', l') \<and> list_repr h' l' (ps @ [(brk h, v)]) \<and>
    dup l' = dup l \<and> match l' = match l \<and> brk h' = brk h + 1 \<and>
    (\<forall>b. b \<notin> fst ` set ps \<and> b \<noteq> brk h \<longrightarrow> mem h' b = mem h b)"
proof (cases ps rule: rev_cases)
  case Nil
  then show ?thesis using assms by (simp add: listAddNodeTail_def adl)
next
  case (snoc qs q)
  obtain a x where q: "q = (a, x)" by force
  have "brk h \<notin> fst ` set ps" using assms by (auto simp: list_repr_def)
  then show ?thesis using assms unfolding snoc q by (auto simp: listAddNodeTail_def adl)
qed

text \<open>Redirecting the links at the two sides of a place in the list.\<close>

lemma dlseg_set_last:
  assumes "dlseg m p us n" "distinct (map fst us)" "us \<noteq> []"
  shows "\<exists>a nd. final us p = Some a \<and> a \<in> fst ` set us \<and> m a = Some nd \<and>
    dlseg (m(a \<mapsto> nd\<lparr>next := n'\<rparr>)) p us n'"
proof (cases us rule: rev_cases)
  case (snoc vs v)
  obtain a x where v: "v = (a, x)" by force
  show ?thesis using assms unfolding snoc v by auto
qed (use assms in simp)

lemma dlseg_set_first:
  assumes "dlseg m p us n" "distinct (map fst us)" "us \<noteq> []"
  shows "\<exists>a nd. first us n = Some a \<and> a \<in> fst ` set us \<and> m a = Some nd \<and>
    dlseg (m(a \<mapsto> nd\<lparr>prev := p'\<rparr>)) p' us n"
proof (cases us)
  case (Cons v vs)
  obtain a x where v: "v = (a, x)" by force
  show ?thesis using assms unfolding Cons v by auto
qed (use assms in simp)

definition only_in :: "nat set \<Rightarrow> 'v lheap \<Rightarrow> 'v lheap \<Rightarrow> bool" where
  "only_in A h h' \<longleftrightarrow> brk h' = brk h \<and> (\<forall>b. b \<notin> A \<longrightarrow> mem h' b = mem h b)"

lemma only_in_dlseg:
  "only_in A h h' \<Longrightarrow> A \<inter> fst ` set ps = {} \<Longrightarrow> dlseg (mem h') p ps n = dlseg (mem h) p ps n"
  by (rule dlseg_cong) (auto simp: only_in_def)

lemma only_in_store: "a \<in> A \<Longrightarrow> only_in A h (store h a nd)"
  by (auto simp: only_in_def store_def)

lemma set_next_final:
  assumes "dlseg (mem h) p us n" "distinct (map fst us)" "us \<noteq> []"
  shows "\<exists>h'. set_next h (final us p) n' = Some h' \<and> only_in (fst ` set us) h h' \<and>
    dlseg (mem h') p us n'"
proof -
  obtain a nd where "final us p = Some a" "a \<in> fst ` set us" "mem h a = Some nd"
      "dlseg ((mem h)(a \<mapsto> nd\<lparr>next := n'\<rparr>)) p us n'"
    using dlseg_set_last [OF assms, of n'] by blast
  then show ?thesis
    by (intro exI [of _ "store h a (nd\<lparr>next := n'\<rparr>)"])
      (simp add: set_next_def only_in_store, simp add: store_def)
qed

lemma set_prev_first:
  assumes "dlseg (mem h) p us n" "distinct (map fst us)" "us \<noteq> []"
  shows "\<exists>h'. set_prev h (first us n) p' = Some h' \<and> only_in (fst ` set us) h h' \<and>
    dlseg (mem h') p' us n"
proof -
  obtain a nd where "first us n = Some a" "a \<in> fst ` set us" "mem h a = Some nd"
      "dlseg ((mem h)(a \<mapsto> nd\<lparr>prev := p'\<rparr>)) p' us n"
    using dlseg_set_first [OF assms, of p'] by blast
  then show ?thesis
    by (intro exI [of _ "store h a (nd\<lparr>prev := p'\<rparr>)"])
      (simp add: set_prev_def only_in_store, simp add: store_def)
qed

text \<open>
  The two guarded assignments \<open>if (p) p->next = x\<close> and \<open>if (n) n->prev = y\<close> at a place between
  the segments \<open>us\<close> and \<open>vs\<close>.
\<close>

lemma relink_prev:
  assumes "dlseg (mem h) None us n" "distinct (map fst us)"
  shows "\<exists>h'. (if final us None \<noteq> None then set_next h (final us None) n' else Some h) = Some h' \<and>
    only_in (fst ` set us) h h' \<and> dlseg (mem h') None us n'"
  using set_next_final [OF assms, of n'] by (cases "us = []") (auto simp: final_None only_in_def)

lemma relink_next:
  assumes "dlseg (mem h) p vs None" "distinct (map fst vs)"
  shows "\<exists>h'. (if first vs None \<noteq> None then set_prev h (first vs None) p' else Some h) = Some h' \<and>
    only_in (fst ` set vs) h h' \<and> dlseg (mem h') p' vs None"
  using set_prev_first [OF assms, of p'] by (cases "vs = []") (auto simp: first_None only_in_def)

lemma first_eq_Some: "a \<notin> fst ` set us \<Longrightarrow> first us (Some a) = Some a \<longleftrightarrow> us = []"
  by (cases us) auto

lemma final_eq_Some: "a \<notin> fst ` set vs \<Longrightarrow> final vs (Some a) = Some a \<longleftrightarrow> vs = []"
  by (cases vs rule: rev_cases) auto

lemma first_ne: "us \<noteq> [] \<Longrightarrow> first us n = first us m"
  by (cases us) auto

lemma final_ne: "vs \<noteq> [] \<Longrightarrow> final vs p = final vs q"
  by (cases vs) auto

lemma list_repr_fresh: "list_repr h l ps \<Longrightarrow> brk h \<notin> fst ` set ps"
  unfolding list_repr_def by blast

lemma list_repr_split:
  assumes "list_repr h l (us @ (a, x) # vs)"
  shows "mem h a = Some \<lparr>prev = final us None, next = first vs None, value = x\<rparr>"
    and "dlseg (mem h) None us (Some a)" and "dlseg (mem h) (Some a) vs None"
    and "distinct (map fst us)" and "distinct (map fst vs)"
    and "fst ` set us \<inter> fst ` set vs = {}" and "a \<notin> fst ` set us" and "a \<notin> fst ` set vs"
  using assms by (auto simp: list_repr_def)

lemma listDelNode_repr:
  assumes "list_repr h l (us @ (a, x) # vs)"
  shows "\<exists>h' l'. listDelNode h l (Some a) = Some (h', l') \<and> list_repr h' l' (us @ vs) \<and>
    dup l' = dup l \<and> match l' = match l \<and> brk h' = brk h \<and> mem h' a = None \<and>
    (\<forall>b. b \<notin> fst ` set (us @ (a, x) # vs) \<longrightarrow> mem h' b = mem h b)"
proof -
  note S = list_repr_split [OF assms]
  obtain h1 where h1:
      "(if final us None \<noteq> None then set_next h (final us None) (first vs None) else Some h) = Some h1"
      "only_in (fst ` set us) h h1" "dlseg (mem h1) None us (first vs None)"
    using relink_prev [OF S(2,4)] by blast
  have vs1: "dlseg (mem h1) (Some a) vs None"
    using S(3,6) only_in_dlseg [OF h1(2)] by blast
  obtain h2 where h2:
      "(if first vs None \<noteq> None then set_prev h1 (first vs None) (final us None) else Some h1) = Some h2"
      "only_in (fst ` set vs) h1 h2" "dlseg (mem h2) (final us None) vs None"
    using relink_next [OF vs1 S(5)] by blast
  have us2: "dlseg (mem h2) None us (first vs None)"
    using h1(3) S(6) only_in_dlseg [OF h2(2)] by blast
  have a2: "mem h2 a = mem h a"
    using S(7,8) h1(2) h2(2) by (simp add: only_in_def)
  define l' where "l' = l\<lparr>head := first (us @ vs) None, tail := final (us @ vs) None, len := len l - 1\<rparr>"
  define h' where "h' = h2\<lparr>mem := (mem h2)(a := None)\<rparr>"
  have A: "(if final us None \<noteq> None
      then do { g \<leftarrow> set_next h (final us None) (first vs None); Some (g, l) }
      else Some (h, l\<lparr>head := first vs None\<rparr>)) = Some (h1, l\<lparr>head := first (us @ vs) None\<rparr>)"
    using h1(1) assms by (cases us) (auto simp: list_repr_def split: if_splits)
  have B: "(if first vs None \<noteq> None
      then do { g \<leftarrow> set_prev h1 (first vs None) (final us None); Some (g, l1) }
      else Some (h1, l1\<lparr>tail := final us None\<rparr>)) = Some (h2, l1\<lparr>tail := final (us @ vs) None\<rparr>)"
    if "tail l1 = final vs (Some a)" for l1 :: "'a alist"
    using h2(1) that by (cases vs) (auto simp: first_None split: if_splits)
  have t: "tail (l\<lparr>head := first (us @ vs) None\<rparr>) = final vs (Some a)"
    using assms by (simp add: list_repr_def)
  have "listDelNode h l (Some a) = Some (h', l')"
    unfolding listDelNode_def bind.bind_lunit S(1) listNode.simps A prod.case B [OF t]
    using a2 S(1) by (simp add: zfree_def l'_def h'_def)
  moreover have "list_repr h' l' (us @ vs)"
    using assms us2 h2(3) S(7,8) h1(2) h2(2) by (auto simp: list_repr_def l'_def h'_def only_in_def)
  ultimately show ?thesis
    using h1(2) h2(2) by (auto simp: l'_def h'_def only_in_def image_Un)
qed

text \<open>
  Insertion before or after a node: with \<open>after\<close> the new node goes between \<open>us @ [(a, x)]\<close> and
  \<open>vs\<close>, otherwise between \<open>us\<close> and \<open>(a, x) # vs\<close>.
\<close>

lemma insert_between:
  assumes r: "list_repr h l (us @ vs)" and n: "n = \<lparr>prev = final us None, next = first vs None, value = v\<rparr>"
  shows "\<exists>h2 h3. (if prev n \<noteq> None then set_next (snd (zmalloc h n)) (prev n) (Some (brk h))
      else Some (snd (zmalloc h n))) = Some h2 \<and>
    (if next n \<noteq> None then set_prev h2 (next n) (Some (brk h)) else Some h2) = Some h3 \<and>
    brk h3 = brk h + 1 \<and> dlseg (mem h3) None (us @ (brk h, v) # vs) None \<and>
    (\<forall>b. b \<notin> fst ` set (us @ vs) \<and> b \<noteq> brk h \<longrightarrow> mem h3 b = mem h b)"
proof -
  define h1 where "h1 = snd (zmalloc h n)"
  have fresh: "brk h \<notin> fst ` set us" "brk h \<notin> fst ` set vs"
    using list_repr_fresh [OF r] by (auto simp: image_Un)
  have d: "fst ` set us \<inter> fst ` set vs = {}" "distinct (map fst us)" "distinct (map fst vs)"
    using r by (auto simp: list_repr_def)
  have us1: "dlseg (mem h1) None us (first vs None)"
    and vs1: "dlseg (mem h1) (final us None) vs None"
    using r fresh by (auto simp: h1_def zmalloc_def list_repr_def)
  obtain h2 where h2: "(if final us None \<noteq> None then set_next h1 (final us None) (Some (brk h)) else Some h1) = Some h2"
      "only_in (fst ` set us) h1 h2" "dlseg (mem h2) None us (Some (brk h))"
    using relink_prev [OF us1 d(2)] by blast
  have vs2: "dlseg (mem h2) (final us None) vs None"
    using vs1 d(1) only_in_dlseg [OF h2(2)] by blast
  obtain h3 where h3: "(if first vs None \<noteq> None then set_prev h2 (first vs None) (Some (brk h)) else Some h2) = Some h3"
      "only_in (fst ` set vs) h2 h3" "dlseg (mem h3) (Some (brk h)) vs None"
    using relink_next [OF vs2 d(3)] by blast
  have us3: "dlseg (mem h3) None us (Some (brk h))"
    using h2(3) d(1) only_in_dlseg [OF h3(2)] by blast
  have m: "mem h3 (brk h) = Some n" "brk h3 = brk h + 1"
    and o: "\<forall>b. b \<notin> fst ` set (us @ vs) \<and> b \<noteq> brk h \<longrightarrow> mem h3 b = mem h b"
    using fresh h2(2) h3(2) by (auto simp: only_in_def h1_def zmalloc_def image_Un)
  have "dlseg (mem h3) None (us @ (brk h, v) # vs) None"
    using us3 m(1) h3(3) by (simp add: n)
  moreover have "prev n = final us None" "next n = first vs None" by (simp_all add: n)
  ultimately show ?thesis
    unfolding h1_def [symmetric] using h2(1) h3(1) m(2) o by metis
qed

lemma listInsertNode_repr:
  assumes r: "list_repr h l (us @ (a, x) # vs)"
  shows "\<exists>h' l'. listInsertNode h l a v after = Some (h', l') \<and>
    list_repr h' l' (if after then us @ (a, x) # (brk h, v) # vs else us @ (brk h, v) # (a, x) # vs) \<and>
    dup l' = dup l \<and> match l' = match l \<and> brk h' = brk h + 1 \<and>
    (\<forall>b. b \<notin> fst ` set (us @ (a, x) # vs) \<and> b \<noteq> brk h \<longrightarrow> mem h' b = mem h b)"
proof -
  note S = list_repr_split [OF r]
  define us' vs' where "us' = (if after then us @ [(a, x)] else us)"
    and "vs' = (if after then vs else (a, x) # vs)"
  have ps: "us @ (a, x) # vs = us' @ vs'" by (simp add: us'_def vs'_def)
  define n where "n = (if after then \<lparr>prev = Some a, next = first vs None, value = v\<rparr>
    else \<lparr>prev = final us None, next = Some a, value = v\<rparr>)"
  have n: "n = \<lparr>prev = final us' None, next = first vs' None, value = v\<rparr>"
    by (simp add: n_def us'_def vs'_def)
  obtain h2 h3 where H: "(if prev n \<noteq> None then set_next (snd (zmalloc h n)) (prev n) (Some (brk h))
      else Some (snd (zmalloc h n))) = Some h2"
    "(if next n \<noteq> None then set_prev h2 (next n) (Some (brk h)) else Some h2) = Some h3"
    "brk h3 = brk h + 1" "dlseg (mem h3) None (us' @ (brk h, v) # vs') None"
    "\<forall>b. b \<notin> fst ` set (us' @ vs') \<and> b \<noteq> brk h \<longrightarrow> mem h3 b = mem h b"
    using insert_between [OF r [unfolded ps] n] by blast
  define l1 where "l1 = (if after then if tail l = Some a then l\<lparr>tail := Some (brk h)\<rparr> else l
    else if head l = Some a then l\<lparr>head := Some (brk h)\<rparr> else l)"
  have z: "zmalloc h m = (brk h, snd (zmalloc h m))" for m by (simp add: zmalloc_def)
  have 1: "listInsertNode h l a v after = Some (h3, l1\<lparr>len := len l1 + 1\<rparr>)"
    unfolding listInsertNode_def S(1) bind.bind_lunit listNode.simps Let_def n_def [symmetric]
    by (subst z) (simp only: prod.case H(1,2) bind.bind_lunit l1_def)
  have 2: "list_repr h3 (l1\<lparr>len := len l1 + 1\<rparr>) (us' @ (brk h, v) # vs')"
  proof -
    have "head l1 = first (us' @ (brk h, v) # vs') None"
      using r first_eq_Some [OF S(7)] first_ne [of us "Some a" "Some (brk h)"]
      by (cases "us = []") (auto simp: l1_def us'_def vs'_def list_repr_def)
    moreover have "tail l1 = final (us' @ (brk h, v) # vs') None"
      using r final_eq_Some [OF S(8)] final_ne [of vs "Some a" "Some (brk h)"]
      by (cases "vs = []") (auto simp: l1_def us'_def vs'_def list_repr_def)
    moreover have "len l1 + 1 = length (us' @ (brk h, v) # vs')" "distinct (map fst (us' @ (brk h, v) # vs'))"
      and "\<forall>a\<in>fst ` set (us' @ (brk h, v) # vs'). a < brk h3"
      using r list_repr_fresh [OF r] H(3)
      by (auto simp: l1_def us'_def vs'_def list_repr_def less_Suc_eq image_Un)
    ultimately show ?thesis using H(4) by (simp add: list_repr_def)
  qed
  show ?thesis
    using 1 2 H(3,5) unfolding ps by (auto simp: us'_def vs'_def l1_def)
qed

lemma list_repr_frame:
  assumes "list_repr h l ps" "\<And>b. b \<in> fst ` set ps \<Longrightarrow> mem h' b = mem h b" "brk h \<le> brk h'"
  shows "list_repr h' l ps"
  using assms dlseg_cong [of ps "mem h'" "mem h"] by (fastforce simp: list_repr_def)

lemma listRotate_repr:
  assumes r: "list_repr h l (us @ [(a, x)])"
  shows "\<exists>h' l'. listRotate h l = Some (h', l') \<and> list_repr h' l' ((a, x) # us) \<and>
    dup l' = dup l \<and> match l' = match l \<and> brk h' = brk h \<and>
    (\<forall>b. b \<notin> fst ` set (us @ [(a, x)]) \<longrightarrow> mem h' b = mem h b)"
proof (cases "us = []")
  case True
  then show ?thesis using r by (simp add: listRotate_def list_repr_def)
next
  case False
  note S = list_repr_split [OF r]
  obtain h1 where h1: "set_next h (final us None) None = Some h1"
      "only_in (fst ` set us) h h1" "dlseg (mem h1) None us None"
    using set_next_final [OF S(2,4) False] by blast
  obtain h2 where h2: "set_prev h1 (first us None) (Some a) = Some h2"
      "only_in (fst ` set us) h1 h2" "dlseg (mem h2) (Some a) us None"
    using set_prev_first [OF h1(3) S(4) False] by blast
  have a: "mem h2 a = Some \<lparr>prev = final us None, next = None, value = x\<rparr>"
    using S(1,7) h1(2) h2(2) by (simp add: only_in_def)
  define h4 where "h4 = h2\<lparr>mem := (mem h2)(a \<mapsto> \<lparr>prev = None, next = first us None, value = x\<rparr>)\<rparr>"
  have hd: "head l = first us None" "tail l = Some a" "\<not> len l \<le> 1"
    using r False by (auto simp: list_repr_def first_ne [OF False] Suc_le_eq)
  have "listRotate h l = Some (h4, l\<lparr>tail := final us None, head := Some a\<rparr>)"
    using hd S(1) h1(1) h2(1) a
    by (simp add: listRotate_def Let_def) (simp add: set_prev_def set_next_def store_def h4_def)
  moreover have "list_repr h4 (l\<lparr>tail := final us None, head := Some a\<rparr>) ((a, x) # us)"
    using r S(7) h2(2,3) h1(2) final_ne [OF False, of None "Some a"]
    by (auto simp: list_repr_def h4_def only_in_def)
  ultimately show ?thesis
    using h1(2) h2(2) by (auto simp: h4_def only_in_def image_Un)
qed

lemma release_loop_repr:
  "dlseg (mem h) p ps None \<Longrightarrow> distinct (map fst ps) \<Longrightarrow>
   release_loop h (first ps None) (length ps) = Some (h\<lparr>mem := mem h |` (- fst ` set ps)\<rparr>)"
proof (induction ps arbitrary: h p)
  case Nil
  then show ?case by (simp add: restrict_map_def)
next
  case (Cons q qs)
  obtain a x where q: "q = (a, x)" by force
  define g where "g = h\<lparr>mem := (mem h)(a := None)\<rparr>"
  have "g\<lparr>mem := mem g |` (- fst ` set qs)\<rparr> = h\<lparr>mem := mem h |` (- fst ` set (q # qs))\<rparr>"
    by (auto simp: restrict_map_def g_def q intro!: ext lheap.equality)
  moreover have "dlseg (mem g) (Some a) qs None" using Cons.prems by (simp add: g_def q)
  ultimately show ?case using Cons.prems Cons.IH [of g "Some a"]
    by (simp add: q zfree_def g_def [symmetric])
qed

lemma listRelease_repr:
  "list_repr h l ps \<Longrightarrow> listRelease h l = Some (h\<lparr>mem := mem h |` (- fst ` set ps)\<rparr>)"
  by (auto simp: listRelease_def list_repr_def intro!: release_loop_repr)

subsection \<open>Iteration\<close>

text \<open>
  One step of an iterator in each direction. The iterator already points past the returned node,
  which may therefore be deleted before the next step.
\<close>

lemma listNext_head:
  assumes "dlseg (mem h) p (us @ (a, x) # vs) n" "direction it = AL_START_HEAD" "inext it = Some a"
  shows "listNext h it = Some (Some a, it\<lparr>inext := first vs n\<rparr>)"
  using assms by (simp add: listNext_def)

lemma listNext_tail:
  assumes "dlseg (mem h) p (us @ (a, x) # vs) n" "direction it \<noteq> AL_START_HEAD" "inext it = Some a"
  shows "listNext h it = Some (Some a, it\<lparr>inext := final us p\<rparr>)"
  using assms by (simp add: listNext_def)

lemma listNext_end: "inext it = None \<Longrightarrow> listNext h it = Some (None, it)"
  by (simp add: listNext_def)

definition key_matches :: "'v alist \<Rightarrow> 'v \<Rightarrow> 'v \<Rightarrow> bool" where
  "key_matches l key v = (case match l of Some m \<Rightarrow> m v key | None \<Rightarrow> key = v)"

lemma search_loop_correct:
  assumes "dlseg (mem h) p vs None"
  shows "search_loop h l key \<lparr>inext = first vs None, direction = AL_START_HEAD\<rparr> =
    Some (map_option fst (find (\<lambda>q. key_matches l key (snd q)) vs))"
  using assms
proof (induction vs arbitrary: p)
  case Nil
  then show ?case by (subst search_loop.simps) (simp add: listNext_def)
next
  case (Cons q qs)
  obtain a x where q: "q = (a, x)" by force
  show ?case using Cons.prems Cons.IH [of "Some a"]
    by (subst search_loop.simps) (cases "match l"; simp add: q listNext_def key_matches_def)
qed

lemma index_next_correct:
  "dlseg (mem h) p ps None \<Longrightarrow>
   index_next h k (first ps None) = Some (if k < length ps then Some (fst (ps ! k)) else None)"
proof (induction ps arbitrary: k p)
  case Nil
  then show ?case by (cases k) auto
next
  case (Cons q qs)
  then show ?case by (cases q; cases k) auto
qed

lemma index_prev_correct:
  "dlseg (mem h) None ps n \<Longrightarrow>
   index_prev h k (final ps None) = Some (if k < length ps then Some (fst (rev ps ! k)) else None)"
proof (induction ps arbitrary: k n rule: rev_induct)
  case Nil
  then show ?case by (cases k) auto
next
  case (snoc q qs)
  then show ?case by (cases q; cases k) auto
qed

definition dup_value :: "'v alist \<Rightarrow> 'v \<Rightarrow> 'v option" where
  "dup_value l v = (case dup l of None \<Rightarrow> Some v | Some f \<Rightarrow> f v)"

definition old_kept :: "'v lheap \<Rightarrow> (nat \<times> 'v) list \<Rightarrow> 'v lheap \<Rightarrow> bool" where
  "old_kept h qs h' \<longleftrightarrow> brk h \<le> brk h' \<and> (\<forall>b<brk h. b \<notin> fst ` set qs \<longrightarrow> mem h' b = mem h b)"

lemma dup_loop_step:
  assumes "dlseg (mem h) p ((a, x) # vs) None"
  shows "dup_loop h copy \<lparr>inext = Some a, direction = AL_START_HEAD\<rparr> =
    (case dup_value copy x of
       None \<Rightarrow> do { h1 \<leftarrow> listRelease h copy; Some (h1, None) }
     | Some v \<Rightarrow> do {
         (h1, copy1) \<leftarrow> listAddNodeTail h copy v;
         dup_loop h1 copy1 \<lparr>inext = first vs None, direction = AL_START_HEAD\<rparr>
       })"
  using assms by (subst dup_loop.simps) (cases "dup copy"; simp add: listNext_def dup_value_def)

lemma dup_loop_correct:
  assumes "dlseg (mem h) p vs None" "\<forall>a\<in>fst ` set vs. a < brk h"
    "list_repr h copy qs" "fst ` set qs \<inter> fst ` set vs = {}"
  shows "\<exists>h' r. dup_loop h copy \<lparr>inext = first vs None, direction = AL_START_HEAD\<rparr> = Some (h', r) \<and>
    old_kept h qs h' \<and>
    (case those (map (\<lambda>q. dup_value copy (snd q)) vs) of
       None \<Rightarrow> r = None
     | Some ws \<Rightarrow> \<exists>copy' rs. r = Some copy' \<and> list_repr h' copy' (qs @ rs) \<and> map snd rs = ws \<and>
         (\<forall>b\<in>fst ` set rs. brk h \<le> b) \<and> dup copy' = dup copy \<and> match copy' = match copy)"
  using assms
proof (induction vs arbitrary: h p copy qs)
  case Nil
  then show ?case by (subst dup_loop.simps) (auto simp: listNext_def old_kept_def)
next
  case (Cons q vs)
  obtain a x where q: "q = (a, x)" by force
  show ?case
  proof (cases "dup_value copy x")
    case None
    then show ?thesis
      using dup_loop_step [OF Cons.prems(1) [unfolded q]] Cons.prems(3)
      by (auto simp: q listRelease_repr old_kept_def)
  next
    case (Some v)
    obtain h1 copy1 where add: "listAddNodeTail h copy v = Some (h1, copy1)"
        "list_repr h1 copy1 (qs @ [(brk h, v)])" "dup copy1 = dup copy" "match copy1 = match copy"
        "brk h1 = brk h + 1" "\<And>b. b \<notin> fst ` set qs \<Longrightarrow> b \<noteq> brk h \<Longrightarrow> mem h1 b = mem h b"
      using listAddNodeTail_repr [OF Cons.prems(3), of v] by blast
    have vs: "b < brk h \<and> b \<notin> fst ` set qs" if "b \<in> fst ` set vs" for b
      using that Cons.prems(2,4) by auto
    have dl: "dlseg (mem h1) (Some a) vs None"
      using Cons.prems(1) dlseg_cong [of vs "mem h1" "mem h"] vs add(6) by (fastforce simp: q)
    have dv: "dup_value copy1 = dup_value copy" by (rule ext) (simp add: dup_value_def add(3))
    have lt: "\<forall>b\<in>fst ` set vs. b < brk h1" using vs add(5) by fastforce
    have dj: "fst ` set (qs @ [(brk h, v)]) \<inter> fst ` set vs = {}" using vs by fastforce
    obtain h' r where IH: "dup_loop h1 copy1 \<lparr>inext = first vs None, direction = AL_START_HEAD\<rparr> = Some (h', r)"
        "old_kept h1 (qs @ [(brk h, v)]) h'"
        "case those (map (\<lambda>q. dup_value copy1 (snd q)) vs) of
           None \<Rightarrow> r = None
         | Some ws \<Rightarrow> \<exists>copy' rs. r = Some copy' \<and> list_repr h' copy' ((qs @ [(brk h, v)]) @ rs) \<and>
             map snd rs = ws \<and> (\<forall>b\<in>fst ` set rs. brk h1 \<le> b) \<and>
             dup copy' = dup copy1 \<and> match copy' = match copy1"
      using Cons.IH [OF dl lt add(2) dj] by blast
    have "old_kept h qs h'"
      using IH(2) add(5,6) by (auto simp: old_kept_def)
    moreover have "\<exists>copy' rs. r = Some copy' \<and> list_repr h' copy' (qs @ rs) \<and> map snd rs = v # ws \<and>
         (\<forall>b\<in>fst ` set rs. brk h \<le> b) \<and> dup copy' = dup copy \<and> match copy' = match copy"
      if ws: "those (map (\<lambda>q. dup_value copy (snd q)) vs) = Some ws" for ws
    proof -
      obtain copy' rs where "r = Some copy'" "list_repr h' copy' (qs @ (brk h, v) # rs)"
          "map snd rs = ws" "\<forall>b\<in>fst ` set rs. brk h + 1 \<le> b" "dup copy' = dup copy" "match copy' = match copy"
        using IH(3) ws by (auto simp: dv add)
      then show ?thesis by (intro exI [of _ copy'] exI [of _ "(brk h, v) # rs"]) auto
    qed
    ultimately show ?thesis
      using dup_loop_step [OF Cons.prems(1) [unfolded q]] Some add(1) IH(1,3)
      by (simp add: q dv split: option.splits)
  qed
qed

subsection \<open>The list as a sequence\<close>

text \<open>
  What the clients of \<open>adlist\<close> rely on: a list they push to at the head and cut at the tail.
  \<open>size\<close> is \<open>listLength\<close> and \<open>del_last\<close> deletes the node \<open>listLast\<close> points to.
\<close>

locale log_list =
  fixes holds :: "'s \<Rightarrow> 'v list \<Rightarrow> bool"
    and size :: "'s \<Rightarrow> nat"
    and add_head :: "'s \<Rightarrow> 'v \<Rightarrow> 's option"
    and del_last :: "'s \<Rightarrow> 's option"
  assumes size: "holds s xs \<Longrightarrow> size s = length xs"
    and add_head: "holds s xs \<Longrightarrow> \<exists>s'. add_head s v = Some s' \<and> holds s' (v # xs)"
    and del_last: "holds s (xs @ [x]) \<Longrightarrow> \<exists>s'. del_last s = Some s' \<and> holds s' xs"

definition holds :: "'v lheap \<times> 'v alist \<Rightarrow> 'v list \<Rightarrow> bool" where
  "holds s xs \<longleftrightarrow> (\<exists>ps. list_repr (fst s) (snd s) ps \<and> map snd ps = xs)"

definition listLength :: "'v lheap \<times> 'v alist \<Rightarrow> nat" where
  "listLength s = len (snd s)"

definition delLast :: "'v lheap \<times> 'v alist \<Rightarrow> ('v lheap \<times> 'v alist) option" where
  "delLast s = listDelNode (fst s) (snd s) (tail (snd s))"

interpretation adl: log_list holds listLength "\<lambda>s. listAddNodeHead (fst s) (snd s)" delLast
proof
  fix s :: "'v lheap \<times> 'v alist" and xs
  assume "holds s xs"
  then show "listLength s = length xs" by (auto simp: holds_def list_repr_def listLength_def)
next
  fix s :: "'v lheap \<times> 'v alist" and xs v
  assume "holds s xs"
  then obtain ps where "list_repr (fst s) (snd s) ps" "map snd ps = xs" by (auto simp: holds_def)
  then show "\<exists>s'. listAddNodeHead (fst s) (snd s) v = Some s' \<and> holds s' (v # xs)"
    using listAddNodeHead_repr [of "fst s" "snd s" ps v] by (fastforce simp: holds_def)
next
  fix s :: "'v lheap \<times> 'v alist" and xs x
  assume "holds s (xs @ [x])"
  then obtain us a where r: "list_repr (fst s) (snd s) (us @ [(a, x)])" and us: "map snd us = xs"
    by (auto simp: holds_def map_eq_append_conv)
  have "tail (snd s) = Some a" using r by (simp add: list_repr_def)
  then show "\<exists>s'. delLast s = Some s' \<and> holds s' xs"
    using listDelNode_repr [OF r] us by (fastforce simp: holds_def delLast_def)
qed


definition list3 :: "nat lheap \<times> nat alist" where
  "list3 = (\<lparr>mem = [0 \<mapsto> \<lparr>prev = None, next = Some 1, value = 10\<rparr>,
                    1 \<mapsto> \<lparr>prev = Some 0, next = Some 2, value = 11\<rparr>,
                    2 \<mapsto> \<lparr>prev = Some 1, next = None, value = 12\<rparr>], brk = 3\<rparr>,
    \<lparr>head = Some 0, tail = Some 2, dup = Some (\<lambda>v. if v = 13 then None else Some (v + 100)),
     match = None, len = 3\<rparr>)"

lemma list3_repr: "list_repr (fst list3) (snd list3) ([(0, 10)] @ (1, 11) # [(2, 12)])"
  by (simp add: list3_def list_repr_def)


text \<open>
  C33. The read operations: \<open>listSearchKey\<close> always returns, with the first node whose value matches
  (or NULL if there is none), and \<open>listIndex\<close> returns the node at the index counted from the head
  (from the tail if it is negative), or NULL when the index is out of range.
\<close>

theorem adlist_lookup_correct:
  assumes "list_repr h l ps"
  shows "listSearchKey h l key = Some (map_option fst (find (\<lambda>q. key_matches l key (snd q)) ps)) \<and>
    listIndex h l i =
      Some (if 0 \<le> i \<and> i < int (length ps) then Some (fst (ps ! nat i))
            else if i < 0 \<and> - i \<le> int (length ps) then Some (fst (ps ! nat (int (length ps) + i)))
            else None)"
proof (rule conjI)
  have dl: "dlseg (mem h) None ps None" and hd: "head l = first ps None" "tail l = final ps None"
    using assms by (auto simp: list_repr_def)
  show "listSearchKey h l key = Some (map_option fst (find (\<lambda>q. key_matches l key (snd q)) ps))"
    using search_loop_correct [OF dl] by (simp add: listSearchKey_def listGetIterator_def hd)
  show "listIndex h l i =
      Some (if 0 \<le> i \<and> i < int (length ps) then Some (fst (ps ! nat i))
            else if i < 0 \<and> - i \<le> int (length ps) then Some (fst (ps ! nat (int (length ps) + i)))
            else None)"
  proof (cases "i < 0")
    case True
    have "rev ps ! nat (- i - 1) = ps ! nat (int (length ps) + i)" if "- i \<le> int (length ps)"
      using that True by (simp add: rev_nth, intro arg_cong [of _ _ "(!) ps"]) linarith
    then show ?thesis using True index_prev_correct [OF dl, of "nat (- i - 1)"]
      by (auto simp: listIndex_def hd)
  next
    case False
    then show ?thesis using index_next_correct [OF dl, of "nat i"] by (auto simp: listIndex_def hd)
  qed
qed

theorem adlist_lookup_correct_witness:
  "listSearchKey (fst list3) (snd list3) 12 = Some (Some 2) \<and>
   listIndex (fst list3) (snd list3) (-3) = Some (Some 0)"
  using adlist_lookup_correct [OF list3_repr, of 12 "-3"] by (simp add: key_matches_def list3_def)

text \<open>
  C34. \<open>listDup\<close> returns on every well-formed list. If the \<open>dup\<close> method succeeds on every value the
  copy is a well-formed list, made of new nodes only, with the same methods and the duplicated
  values in order; if it fails on one, NULL is returned and the nodes added so far are freed. No
  node that existed before is modified, so the original list holds what it held in both cases.
\<close>

theorem listDup_correct:
  assumes "list_repr h l ps"
  shows "\<exists>h' r. listDup h l = Some (h', r) \<and> list_repr h' l ps \<and>
    (\<forall>b<brk h. mem h' b = mem h b) \<and>
    (case those (map (\<lambda>q. dup_value l (snd q)) ps) of
       None \<Rightarrow> r = None
     | Some ws \<Rightarrow> \<exists>copy rs. r = Some copy \<and> list_repr h' copy rs \<and> map snd rs = ws \<and>
         (\<forall>b\<in>fst ` set rs. brk h \<le> b) \<and> dup copy = dup l \<and> match copy = match l)"
proof -
  define c where "c = listCreate\<lparr>dup := dup l, match := match l\<rparr>"
  have r: "list_repr h c []" and d: "dup c = dup l" "match c = match l"
    by (simp_all add: c_def list_repr_def listCreate_def)
  have dv: "dup_value c = dup_value l" by (rule ext) (simp add: dup_value_def d)
  have dl: "dlseg (mem h) None ps None" "\<forall>a\<in>fst ` set ps. a < brk h" "head l = first ps None"
    using assms by (auto simp: list_repr_def)
  obtain h' r where H: "listDup h l = Some (h', r)" "old_kept h [] h'"
      "case those (map (\<lambda>q. dup_value l (snd q)) ps) of
         None \<Rightarrow> r = None
       | Some ws \<Rightarrow> \<exists>copy rs. r = Some copy \<and> list_repr h' copy rs \<and> map snd rs = ws \<and>
         (\<forall>b\<in>fst ` set rs. brk h \<le> b) \<and> dup copy = dup l \<and> match copy = match l"
    using dup_loop_correct [OF dl(1,2) r, unfolded dv d append_Nil]
    by (auto simp: listDup_def listGetIterator_def dl(3) c_def [symmetric])
  moreover have "list_repr h' l ps"
    using list_repr_frame [OF assms, of h'] H(2) dl(2) by (auto simp: old_kept_def)
  ultimately show ?thesis by (auto simp: old_kept_def)
qed

theorem listDup_correct_witness:
  "\<exists>h' copy rs. listDup (fst list3) (snd list3) = Some (h', Some copy) \<and> list_repr h' copy rs \<and>
     map snd rs = [110, 111, 112]"
  using listDup_correct [OF list3_repr] by (fastforce simp: dup_value_def list3_def)

end
