(* ===== verification/Dict.thy ===== *)
theory Dict
  imports Prelude "HOL-Library.Multiset" "HOL-Library.Monad_Syntax"
begin

text \<open>
  The hash tables of \<open>src/lib/src/dict.c\<close>: two tables with chaining and incremental rehashing.

  A bucket is the list of the entries chained from it (NULL is the empty list), a table that is
  not allocated is the empty list of buckets. A pointer to an entry is its place: table, bucket
  and position in the chain. An access outside a table, and a failing \<open>assert\<close>, is \<open>None\<close>. Sizes and
  counters are \<open>nat\<close>, masks are 64-bit words, hashes 32-bit words; a bucket index handed around as
  a C \<open>int\<close> is read back as a signed 32-bit number. The value of an entry is \<open>None\<close> until
  \<open>dictSetVal\<close> stored one. Key and value destructors only release memory and are left out.
\<close>

record ('k, 'v) dictEntry =
  key :: 'k
  val :: "'v option"

record ('k, 'v) dictType =
  hashFunction :: "'k \<Rightarrow> u32"
  keyDup :: "('k \<Rightarrow> 'k) option"
  valDup :: "('v \<Rightarrow> 'v) option"
  keyCompare :: "('k \<Rightarrow> 'k \<Rightarrow> bool) option"

record ('k, 'v) dictht =
  table :: "('k, 'v) dictEntry list list"
  htsize :: nat
  sizemask :: u64
  used :: nat

record ('k, 'v) dict =
  ht0 :: "('k, 'v) dictht"
  ht1 :: "('k, 'v) dictht"
  rehashidx :: int
  iterators :: nat

type_synonym entry_ref = "bool \<times> nat \<times> nat"

subsection \<open>Hash functions\<close>

definition dictIntHashFunction :: "u32 \<Rightarrow> u32" where
  "dictIntHashFunction k0 =
     (let k1 = k0 + NOT (push_bit 15 k0);
          k2 = k1 XOR drop_bit 10 k1;
          k3 = k2 + push_bit 3 k2;
          k4 = k3 XOR drop_bit 6 k3;
          k5 = k4 + NOT (push_bit 11 k4)
      in k5 XOR drop_bit 16 k5)"

definition dictIdentityHashFunction :: "u32 \<Rightarrow> u32" where
  "dictIdentityHashFunction k = k"

definition murmur_m :: u32 where "murmur_m = 0x5bd1e995"

definition byte32 :: "char \<Rightarrow> u32" where "byte32 c = of_nat (code c)"

text \<open>A 4-byte read at \<open>data\<close> on a little-endian machine.\<close>

definition read32 :: "char \<Rightarrow> char \<Rightarrow> char \<Rightarrow> char \<Rightarrow> u32" where
  "read32 a b c d =
     byte32 a OR push_bit 8 (byte32 b) OR push_bit 16 (byte32 c) OR push_bit 24 (byte32 d)"

fun murmur_loop :: "bytes \<Rightarrow> u32 \<Rightarrow> u32" where
  "murmur_loop (a # b # c # d # data) h =
     (let k1 = read32 a b c d * murmur_m;
          k2 = k1 XOR drop_bit 24 k1;
          k3 = k2 * murmur_m
      in murmur_loop data ((h * murmur_m) XOR k3))"
| "murmur_loop [a, b, c] h =
     (h XOR push_bit 16 (byte32 c) XOR push_bit 8 (byte32 b) XOR byte32 a) * murmur_m"
| "murmur_loop [a, b] h = (h XOR push_bit 8 (byte32 b) XOR byte32 a) * murmur_m"
| "murmur_loop [a] h = (h XOR byte32 a) * murmur_m"
| "murmur_loop [] h = h"

definition dictGenHashFunction :: "u32 \<Rightarrow> bytes \<Rightarrow> u32" where
  "dictGenHashFunction seed data =
     (let h0 = murmur_loop data (seed XOR of_nat (length data));
          h1 = h0 XOR drop_bit 13 h0;
          h2 = h1 * murmur_m
      in h2 XOR drop_bit 15 h2)"

fun casehash_loop :: "bytes \<Rightarrow> u32 \<Rightarrow> u32" where
  "casehash_loop [] hash = hash"
| "casehash_loop (c # buf) hash =
     casehash_loop buf ((push_bit 5 hash + hash) + byte32 (tolower c))"

definition dictGenCaseHashFunction :: "u32 \<Rightarrow> bytes \<Rightarrow> u32" where
  "dictGenCaseHashFunction seed buf = casehash_loop buf seed"

subsection \<open>Tables and rehashing\<close>

definition dictCompareKeys :: "('k, 'v) dictType \<Rightarrow> 'k \<Rightarrow> 'k \<Rightarrow> bool" where
  "dictCompareKeys ty k1 k2 = (case keyCompare ty of Some f \<Rightarrow> f k1 k2 | None \<Rightarrow> k1 = k2)"

definition dictIsRehashing :: "('k, 'v) dict \<Rightarrow> bool" where
  "dictIsRehashing d \<longleftrightarrow> rehashidx d \<noteq> -1"

definition dictSize :: "('k, 'v) dict \<Rightarrow> nat" where
  "dictSize d = used (ht0 d) + used (ht1 d)"

definition dictSlots :: "('k, 'v) dict \<Rightarrow> nat" where
  "dictSlots d = htsize (ht0 d) + htsize (ht1 d)"

definition bucket :: "u32 \<Rightarrow> ('k, 'v) dictht \<Rightarrow> nat" where
  "bucket h t = unat ((ucast h :: u64) AND sizemask t)"

definition chain_at :: "('k, 'v) dictht \<Rightarrow> nat \<Rightarrow> ('k, 'v) dictEntry list option" where
  "chain_at t i = (if i < length (table t) then Some (table t ! i) else None)"

definition DICT_HT_INITIAL_SIZE :: nat where "DICT_HT_INITIAL_SIZE = 4"
definition dict_force_resize_ratio :: nat where "dict_force_resize_ratio = 5"

definition dictReset :: "('k, 'v) dictht" where
  "dictReset = \<lparr>table = [], htsize = 0, sizemask = 0, used = 0\<rparr>"

definition dictCreate :: "('k, 'v) dict" where
  "dictCreate = \<lparr>ht0 = dictReset, ht1 = dictReset, rehashidx = -1, iterators = 0\<rparr>"

function next_power_loop :: "nat \<Rightarrow> nat \<Rightarrow> nat" where
  "next_power_loop i sz = (if sz \<le> i \<or> i = 0 then i else next_power_loop (i * 2) sz)"
  by pat_completeness auto

termination next_power_loop
  by (relation "measure (\<lambda>(i, sz). sz - i)") auto

declare next_power_loop.simps [simp del]

definition dictNextPower :: "nat \<Rightarrow> nat" where
  "dictNextPower sz =
     (if 9223372036854775807 \<le> sz then 9223372036854775807
      else next_power_loop DICT_HT_INITIAL_SIZE sz)"

definition new_table :: "nat \<Rightarrow> ('k, 'v) dictht" where
  "new_table realsize =
     \<lparr>table = replicate realsize [], htsize = realsize, sizemask = of_nat (realsize - 1), used = 0\<rparr>"

text \<open>The second component is the return code, true for \<open>DICT_OK\<close>.\<close>

definition dictExpand :: "('k, 'v) dict \<Rightarrow> nat \<Rightarrow> ('k, 'v) dict \<times> bool" where
  "dictExpand d sz =
     (let realsize = dictNextPower sz
      in if dictIsRehashing d \<or> sz < used (ht0 d) then (d, False)
         else if table (ht0 d) = [] then (d\<lparr>ht0 := new_table realsize\<rparr>, True)
         else (d\<lparr>ht1 := new_table realsize, rehashidx := 0\<rparr>, True))"

definition dictResize :: "bool \<Rightarrow> ('k, 'v) dict \<Rightarrow> ('k, 'v) dict \<times> bool" where
  "dictResize can_resize d =
     (if \<not> can_resize \<or> dictIsRehashing d then (d, False)
      else dictExpand d (max (used (ht0 d)) DICT_HT_INITIAL_SIZE))"

function skip_empty :: "'e list list \<Rightarrow> nat \<Rightarrow> nat option" where
  "skip_empty t i =
     (if length t \<le> i then None else if t ! i = [] then skip_empty t (i + 1) else Some i)"
  by pat_completeness auto

termination skip_empty
  by (relation "measure (\<lambda>(t, i). length t - i)") auto

declare skip_empty.simps [simp del]

text \<open>Moving the entries of one chain from \<open>ht[0]\<close> into \<open>ht[1]\<close>.\<close>

fun move_chain ::
  "('k, 'v) dictType \<Rightarrow> ('k, 'v) dictEntry list \<Rightarrow> ('k, 'v) dict \<Rightarrow> ('k, 'v) dict option" where
  "move_chain ty [] d = Some d"
| "move_chain ty (de # nextde) d =
     (let h = bucket (hashFunction ty (key de)) (ht1 d)
      in do {
        c \<leftarrow> chain_at (ht1 d) h;
        move_chain ty nextde
          (d\<lparr>ht0 := (ht0 d)\<lparr>used := used (ht0 d) - 1\<rparr>,
             ht1 := (ht1 d)\<lparr>table := (table (ht1 d))[h := de # c], used := used (ht1 d) + 1\<rparr>\<rparr>)
      })"

fun rehash_loop :: "('k, 'v) dictType \<Rightarrow> nat \<Rightarrow> ('k, 'v) dict \<Rightarrow> (('k, 'v) dict \<times> bool) option" where
  "rehash_loop ty 0 d = Some (d, True)"
| "rehash_loop ty (Suc n) d =
     (if used (ht0 d) = 0
      then Some (d\<lparr>ht0 := ht1 d, ht1 := dictReset, rehashidx := -1\<rparr>, False)
      else if \<not> nat (rehashidx d) < htsize (ht0 d) then None
      else do {
        i \<leftarrow> skip_empty (table (ht0 d)) (nat (rehashidx d));
        let de = table (ht0 d) ! i;
        d1 \<leftarrow> move_chain ty de d;
        rehash_loop ty n
          (d1\<lparr>ht0 := (ht0 d1)\<lparr>table := (table (ht0 d1))[i := []]\<rparr>, rehashidx := int i + 1\<rparr>)
      })"

definition dictRehash :: "('k, 'v) dictType \<Rightarrow> nat \<Rightarrow> ('k, 'v) dict \<Rightarrow> (('k, 'v) dict \<times> bool) option" where
  "dictRehash ty n d = (if \<not> dictIsRehashing d then Some (d, False) else rehash_loop ty n d)"

definition dictRehashStep :: "('k, 'v) dictType \<Rightarrow> ('k, 'v) dict \<Rightarrow> ('k, 'v) dict option" where
  "dictRehashStep ty d =
     (if iterators d = 0 then map_option fst (dictRehash ty 1 d) else Some d)"

definition rehash_if_rehashing :: "('k, 'v) dictType \<Rightarrow> ('k, 'v) dict \<Rightarrow> ('k, 'v) dict option" where
  "rehash_if_rehashing ty d = (if dictIsRehashing d then dictRehashStep ty d else Some d)"

text \<open>
  \<open>dictRehashMilliseconds\<close> reads the clock after every round of 100 steps; \<open>clock j\<close> is the time
  since the start that the round \<open>j\<close> reads.
\<close>

partial_function (option) rehash_ms_loop ::
  "('k, 'v) dictType \<Rightarrow> (nat \<Rightarrow> int) \<Rightarrow> int \<Rightarrow> nat \<Rightarrow> ('k, 'v) dict \<Rightarrow> (('k, 'v) dict \<times> nat) option" where
  "rehash_ms_loop ty clock ms rounds d =
     do {
       (d1, more) \<leftarrow> dictRehash ty 100 d;
       if \<not> more then Some (d1, 100 * rounds)
       else if clock rounds > ms then Some (d1, 100 * (rounds + 1))
       else rehash_ms_loop ty clock ms (rounds + 1) d1
     }"

definition dictRehashMilliseconds ::
  "('k, 'v) dictType \<Rightarrow> (nat \<Rightarrow> int) \<Rightarrow> int \<Rightarrow> ('k, 'v) dict \<Rightarrow> (('k, 'v) dict \<times> nat) option" where
  "dictRehashMilliseconds ty clock ms d = rehash_ms_loop ty clock ms 0 d"

subsection \<open>Lookup and update\<close>

text \<open>Walking a chain until an entry with an equal key.\<close>

fun walk :: "('k, 'v) dictType \<Rightarrow> 'k \<Rightarrow> ('k, 'v) dictEntry list \<Rightarrow> nat \<Rightarrow> nat option" where
  "walk ty k [] n = None"
| "walk ty k (he # next) n = (if dictCompareKeys ty k (key he) then Some n else walk ty k next (n + 1))"

definition ht :: "('k, 'v) dict \<Rightarrow> bool \<Rightarrow> ('k, 'v) dictht" where
  "ht d second = (if second then ht1 d else ht0 d)"

text \<open>The loop over the tables shared by the lookup, insertion and deletion functions.\<close>

definition search :: "('k, 'v) dictType \<Rightarrow> ('k, 'v) dict \<Rightarrow> 'k \<Rightarrow> entry_ref option option" where
  "search ty d k =
     (let h = hashFunction ty k; i0 = bucket h (ht0 d); i1 = bucket h (ht1 d)
      in do {
        c0 \<leftarrow> chain_at (ht0 d) i0;
        case walk ty k c0 0 of
          Some n \<Rightarrow> Some (Some (False, i0, n))
        | None \<Rightarrow>
            if \<not> dictIsRehashing d then Some None
            else do {
              c1 \<leftarrow> chain_at (ht1 d) i1;
              Some (map_option (\<lambda>n. (True, i1, n)) (walk ty k c1 0))
            }
      })"

definition dictFind ::
  "('k, 'v) dictType \<Rightarrow> ('k, 'v) dict \<Rightarrow> 'k \<Rightarrow> (('k, 'v) dict \<times> entry_ref option) option" where
  "dictFind ty d k =
     (if htsize (ht0 d) = 0 then Some (d, None)
      else do {
        d1 \<leftarrow> rehash_if_rehashing ty d;
        r \<leftarrow> search ty d1 k;
        Some (d1, r)
      })"

definition entry_at :: "('k, 'v) dict \<Rightarrow> entry_ref \<Rightarrow> ('k, 'v) dictEntry option" where
  "entry_at d r =
     (case r of (second, i, n) \<Rightarrow> do {
        c \<leftarrow> chain_at (ht d second) i;
        if n < length c then Some (c ! n) else None
      })"

definition set_ht :: "('k, 'v) dict \<Rightarrow> bool \<Rightarrow> ('k, 'v) dictht \<Rightarrow> ('k, 'v) dict" where
  "set_ht d second t = (if second then d\<lparr>ht1 := t\<rparr> else d\<lparr>ht0 := t\<rparr>)"

definition put_chain :: "('k, 'v) dictht \<Rightarrow> nat \<Rightarrow> ('k, 'v) dictEntry list \<Rightarrow> ('k, 'v) dictht" where
  "put_chain t i c = t\<lparr>table := (table t)[i := c]\<rparr>"

definition dictSetVal ::
  "('k, 'v) dictType \<Rightarrow> ('k, 'v) dict \<Rightarrow> entry_ref \<Rightarrow> 'v \<Rightarrow> ('k, 'v) dict option" where
  "dictSetVal ty d r v =
     (case r of (second, i, n) \<Rightarrow> do {
        e \<leftarrow> entry_at d r;
        c \<leftarrow> chain_at (ht d second) i;
        let w = (case valDup ty of None \<Rightarrow> v | Some f \<Rightarrow> f v);
        Some (set_ht d second (put_chain (ht d second) i (c[n := e\<lparr>val := Some w\<rparr>])))
      })"

definition dictFetchValue ::
  "('k, 'v) dictType \<Rightarrow> ('k, 'v) dict \<Rightarrow> 'k \<Rightarrow> (('k, 'v) dict \<times> 'v option) option" where
  "dictFetchValue ty d k =
     do {
       (d1, r) \<leftarrow> dictFind ty d k;
       case r of
         None \<Rightarrow> Some (d1, None)
       | Some he \<Rightarrow> do { e \<leftarrow> entry_at d1 he; Some (d1, val e) }
     }"

definition dictExpandIfNeeded :: "bool \<Rightarrow> ('k, 'v) dict \<Rightarrow> ('k, 'v) dict \<times> bool" where
  "dictExpandIfNeeded can_resize d =
     (if dictIsRehashing d then (d, True)
      else if htsize (ht0 d) = 0 then dictExpand d DICT_HT_INITIAL_SIZE
      else if htsize (ht0 d) \<le> used (ht0 d) \<and>
              (can_resize \<or> used (ht0 d) div htsize (ht0 d) > dict_force_resize_ratio)
      then dictExpand d (used (ht0 d) * 2)
      else (d, True))"

text \<open>The \<open>int\<close> that an \<open>unsigned int\<close> index converts to.\<close>

definition as_int :: "nat \<Rightarrow> int" where
  "as_int i = sint (of_nat i :: u32)"

definition dictKeyIndex ::
  "('k, 'v) dictType \<Rightarrow> bool \<Rightarrow> ('k, 'v) dict \<Rightarrow> 'k \<Rightarrow> (('k, 'v) dict \<times> int) option" where
  "dictKeyIndex ty can_resize d k =
     (case dictExpandIfNeeded can_resize d of (d1, ok) \<Rightarrow>
        if \<not> ok then Some (d1, -1)
        else do {
          r \<leftarrow> search ty d1 k;
          case r of
            Some _ \<Rightarrow> Some (d1, -1)
          | None \<Rightarrow> Some (d1, as_int (bucket (hashFunction ty k)
                                        (if dictIsRehashing d1 then ht1 d1 else ht0 d1)))
        })"

definition dictAddRaw ::
  "('k, 'v) dictType \<Rightarrow> bool \<Rightarrow> ('k, 'v) dict \<Rightarrow> 'k \<Rightarrow> (('k, 'v) dict \<times> entry_ref option) option" where
  "dictAddRaw ty can_resize d k =
     do {
       d1 \<leftarrow> rehash_if_rehashing ty d;
       (d2, index) \<leftarrow> dictKeyIndex ty can_resize d1 k;
       if index = -1 then Some (d2, None)
       else if index < 0 then None
       else do {
         let second = dictIsRehashing d2;
         let i = nat index;
         let t = ht d2 second;
         c \<leftarrow> chain_at t i;
         let entry = \<lparr>key = (case keyDup ty of None \<Rightarrow> k | Some f \<Rightarrow> f k), val = None\<rparr>;
         Some (set_ht d2 second ((put_chain t i (entry # c))\<lparr>used := used t + 1\<rparr>),
               Some (second, i, 0))
       }
     }"

definition dictAdd ::
  "('k, 'v) dictType \<Rightarrow> bool \<Rightarrow> ('k, 'v) dict \<Rightarrow> 'k \<Rightarrow> 'v \<Rightarrow> (('k, 'v) dict \<times> bool) option" where
  "dictAdd ty can_resize d k v =
     do {
       (d1, entry) \<leftarrow> dictAddRaw ty can_resize d k;
       case entry of
         None \<Rightarrow> Some (d1, False)
       | Some r \<Rightarrow> do { d2 \<leftarrow> dictSetVal ty d1 r v; Some (d2, True) }
     }"

definition dictReplace ::
  "('k, 'v) dictType \<Rightarrow> bool \<Rightarrow> ('k, 'v) dict \<Rightarrow> 'k \<Rightarrow> 'v \<Rightarrow> (('k, 'v) dict \<times> bool) option" where
  "dictReplace ty can_resize d k v =
     do {
       (d1, added) \<leftarrow> dictAdd ty can_resize d k v;
       if added then Some (d1, True)
       else do {
         (d2, entry) \<leftarrow> dictFind ty d1 k;
         r \<leftarrow> entry;
         d3 \<leftarrow> dictSetVal ty d2 r v;
         Some (d3, False)
       }
     }"

definition dictReplaceRaw ::
  "('k, 'v) dictType \<Rightarrow> bool \<Rightarrow> ('k, 'v) dict \<Rightarrow> 'k \<Rightarrow> (('k, 'v) dict \<times> entry_ref option) option" where
  "dictReplaceRaw ty can_resize d k =
     do {
       (d1, entry) \<leftarrow> dictFind ty d k;
       case entry of Some r \<Rightarrow> Some (d1, Some r) | None \<Rightarrow> dictAddRaw ty can_resize d1 k
     }"

definition dictGenericDelete ::
  "('k, 'v) dictType \<Rightarrow> ('k, 'v) dict \<Rightarrow> 'k \<Rightarrow> (('k, 'v) dict \<times> bool) option" where
  "dictGenericDelete ty d k =
     (if htsize (ht0 d) = 0 then Some (d, False)
      else do {
        d1 \<leftarrow> rehash_if_rehashing ty d;
        r \<leftarrow> search ty d1 k;
        case r of
          None \<Rightarrow> Some (d1, False)
        | Some (second, i, n) \<Rightarrow> do {
            let t = ht d1 second;
            c \<leftarrow> chain_at t i;
            Some (set_ht d1 second ((put_chain t i (take n c @ drop (n + 1) c))\<lparr>used := used t - 1\<rparr>), True)
          }
      })"

definition dictDelete where
  "dictDelete ty d k = dictGenericDelete ty d k"

definition dictDeleteNoFree where
  "dictDeleteNoFree ty d k = dictGenericDelete ty d k"

text \<open>
  \<open>_dictClear\<close> frees entries until the end of the table or until no entry is left, then resets the
  table; the second component is what it freed.
\<close>

fun clear_loop :: "('k, 'v) dictEntry list list \<Rightarrow> nat \<Rightarrow> ('k, 'v) dictEntry list" where
  "clear_loop [] n = []"
| "clear_loop (c # cs) n = (if n = 0 then [] else c @ clear_loop cs (n - length c))"

definition dictClear :: "('k, 'v) dictht \<Rightarrow> ('k, 'v) dictht \<times> ('k, 'v) dictEntry list" where
  "dictClear t = (dictReset, clear_loop (table t) (used t))"

definition dictEmpty :: "('k, 'v) dict \<Rightarrow> ('k, 'v) dict" where
  "dictEmpty d =
     d\<lparr>ht0 := fst (dictClear (ht0 d)), ht1 := fst (dictClear (ht1 d)), rehashidx := -1, iterators := 0\<rparr>"

definition dictRelease :: "('k, 'v) dict \<Rightarrow> ('k, 'v) dictEntry list" where
  "dictRelease d = snd (dictClear (ht0 d)) @ snd (dictClear (ht1 d))"

lemma clear_loop_all: "length (concat cs) = n \<Longrightarrow> clear_loop cs n = concat cs"
  by (induction cs arbitrary: n) auto

subsection \<open>The invariant\<close>

definition ht_ents :: "('k, 'v) dictht \<Rightarrow> ('k, 'v) dictEntry multiset" where
  "ht_ents t = mset (concat (table t))"

definition ents :: "('k, 'v) dict \<Rightarrow> ('k, 'v) dictEntry multiset" where
  "ents d = ht_ents (ht0 d) + ht_ents (ht1 d)"

text \<open>
  A table: a power of two of buckets, the mask that goes with it, the exact count of its entries,
  and every entry in the bucket of its hash. Sizes up to \<open>2^31\<close> are those an \<open>int\<close> can index.
\<close>

definition ht_ok :: "('k, 'v) dictType \<Rightarrow> ('k, 'v) dictht \<Rightarrow> bool" where
  "ht_ok ty t \<longleftrightarrow>
     length (table t) = htsize t \<and> used t = length (concat (table t)) \<and>
     (\<exists>b. 2 \<le> b \<and> b \<le> 31 \<and> htsize t = 2 ^ b \<and> sizemask t = mask b) \<and>
     (\<forall>i<htsize t. \<forall>e\<in>set (table t ! i). bucket (hashFunction ty (key e)) t = i)"

text \<open>While rehashing, the buckets of \<open>ht[0]\<close> below \<open>rehashidx\<close> are empty.\<close>

definition rehash_ok :: "('k, 'v) dictType \<Rightarrow> ('k, 'v) dict \<Rightarrow> bool" where
  "rehash_ok ty d \<longleftrightarrow>
     ht_ok ty (ht0 d) \<and> ht_ok ty (ht1 d) \<and> 0 \<le> rehashidx d \<and>
     (\<forall>i<htsize (ht0 d). int i < rehashidx d \<longrightarrow> table (ht0 d) ! i = [])"

definition shape_ok :: "('k, 'v) dictType \<Rightarrow> ('k, 'v) dict \<Rightarrow> bool" where
  "shape_ok ty d \<longleftrightarrow>
     (if dictIsRehashing d then rehash_ok ty d
      else ht1 d = dictReset \<and> (ht0 d = dictReset \<or> ht_ok ty (ht0 d)))"

lemma mset_concat_update:
  "i < length xs \<Longrightarrow> mset (concat (xs[i := c])) + mset (xs ! i) = mset (concat xs) + mset c"
  by (induction xs arbitrary: i) (auto split: nat.split simp: ac_simps)

lemma mset_concat_update_cons:
  "i < length xs \<Longrightarrow> mset (concat (xs[i := e # xs ! i])) = add_mset e (mset (concat xs))"
  using mset_concat_update [of i xs "e # xs ! i"] by simp

lemma mset_concat_nth_le: "i < length xs \<Longrightarrow> mset (xs ! i) \<subseteq># mset (concat xs)"
  using mset_concat_update [of i xs "[]"] by (metis mset.simps(1) add.right_neutral mset_subset_eq_add_right)

lemma mset_concat_update_Nil:
  "i < length xs \<Longrightarrow> mset (concat (xs[i := []])) = mset (concat xs) - mset (xs ! i)"
  using mset_concat_update [of i xs "[]"] by (metis add.right_neutral add_diff_cancel_right' mset.simps(1))

lemma unat_and_mask_less: "unat ((w :: u64) AND mask b) < 2 ^ b"
  by (simp add: take_bit_eq_mask [symmetric] unsigned_take_bit_eq)

lemma bucket_less: "ht_ok ty t \<Longrightarrow> bucket h t < htsize t"
  by (auto simp: ht_ok_def bucket_def unat_and_mask_less)

lemma bucket_cong: "sizemask t = sizemask t' \<Longrightarrow> bucket h t = bucket h t'"
  by (simp add: bucket_def)

lemma chain_at_ok [simp]: "ht_ok ty t \<Longrightarrow> i < htsize t \<Longrightarrow> chain_at t i = Some (table t ! i)"
  by (auto simp: ht_ok_def chain_at_def)

lemma ht_ok_used: "ht_ok ty t \<Longrightarrow> used t = size (ht_ents t)"
  by (simp add: ht_ok_def ht_ents_def)

lemma ht_ok_size: "ht_ok ty t \<Longrightarrow> 0 < htsize t \<and> htsize t \<le> 2 ^ 31"
  using power_increasing [of _ 31 "2 :: nat"] by (fastforce simp: ht_ok_def)

lemma ht_ok_length: "ht_ok ty t \<Longrightarrow> length (table t) = htsize t"
  by (simp add: ht_ok_def)

lemma ht_ok_bucket:
  "ht_ok ty t \<Longrightarrow> i < htsize t \<Longrightarrow> e \<in> set (table t ! i) \<Longrightarrow> bucket (hashFunction ty (key e)) t = i"
  by (simp add: ht_ok_def)

lemma bex_set_nth: "(\<exists>x\<in>set xs. P x) \<longleftrightarrow> (\<exists>i<length xs. P (xs ! i))"
  by (metis in_set_conv_nth)

lemma in_ht_ents:
  assumes "ht_ok ty t"
  shows "e \<in># ht_ents t \<longleftrightarrow> (\<exists>i<htsize t. e \<in> set (table t ! i))"
  unfolding ht_ents_def ht_ok_length [OF assms, symmetric]
  by (simp only: set_mset_mset set_concat UN_iff bex_set_nth)

lemma in_bucket:
  "ht_ok ty t \<Longrightarrow> e \<in># ht_ents t \<Longrightarrow> e \<in> set (table t ! bucket (hashFunction ty (key e)) t)"
  using in_ht_ents ht_ok_bucket by metis

text \<open>Replacing a chain by entries of the same bucket.\<close>

lemma ht_ok_put:
  assumes ok: "ht_ok ty t" and i: "i < htsize t"
    and c: "\<And>e. e \<in> set c \<Longrightarrow> bucket (hashFunction ty (key e)) t = i"
    and n: "n + length (table t ! i) = used t + length c"
  shows "ht_ok ty ((put_chain t i c)\<lparr>used := n\<rparr>)"
    and "ht_ents ((put_chain t i c)\<lparr>used := n\<rparr>) + mset (table t ! i) = ht_ents t + mset c"
proof -
  have l: "i < length (table t)" using ok i by (simp add: ht_ok_def)
  then show e: "ht_ents ((put_chain t i c)\<lparr>used := n\<rparr>) + mset (table t ! i) = ht_ents t + mset c"
    by (simp add: ht_ents_def put_chain_def mset_concat_update)
  have "size (ht_ents ((put_chain t i c)\<lparr>used := n\<rparr>)) + length (table t ! i) = used t + length c"
    using arg_cong [OF e, of size] ht_ok_used [OF ok] by simp
  then have "n = length (concat ((table t)[i := c]))"
    using n by (simp add: ht_ents_def put_chain_def)
  then show "ht_ok ty ((put_chain t i c)\<lparr>used := n\<rparr>)"
    using ok c l by (auto simp: ht_ok_def put_chain_def bucket_def nth_list_update)
qed

subsection \<open>Rehashing\<close>

lemma move_chain_ok:
  assumes "ht_ok ty (ht1 d)" "length ch \<le> used (ht0 d)"
  shows "\<exists>t1. move_chain ty ch d =
      Some (d\<lparr>ht0 := (ht0 d)\<lparr>used := used (ht0 d) - length ch\<rparr>, ht1 := t1\<rparr>) \<and>
    ht_ok ty t1 \<and> ht_ents t1 = ht_ents (ht1 d) + mset ch \<and> htsize t1 = htsize (ht1 d)"
  using assms
proof (induction ch arbitrary: d)
  case Nil
  then show ?case by (intro exI [of _ "ht1 d"]) simp
next
  case (Cons e ch)
  define h where "h = bucket (hashFunction ty (key e)) (ht1 d)"
  define t where "t = (put_chain (ht1 d) h (e # table (ht1 d) ! h))\<lparr>used := used (ht1 d) + 1\<rparr>"
  define d' where "d' = d\<lparr>ht0 := (ht0 d)\<lparr>used := used (ht0 d) - 1\<rparr>, ht1 := t\<rparr>"
  have h: "h < htsize (ht1 d)" using bucket_less [OF Cons.prems(1)] by (simp add: h_def)
  have c: "\<And>x. x \<in> set (e # table (ht1 d) ! h) \<Longrightarrow> bucket (hashFunction ty (key x)) (ht1 d) = h"
    using ht_ok_bucket [OF Cons.prems(1) h] by (auto simp: h_def)
  have P: "ht_ok ty t" "ht_ents t + mset (table (ht1 d) ! h) = ht_ents (ht1 d) + mset (e # table (ht1 d) ! h)"
    unfolding t_def by (rule ht_ok_put [OF Cons.prems(1) h c]; simp)+
  have "ht_ok ty (ht1 d')" "ht_ents (ht1 d') = add_mset e (ht_ents (ht1 d))" "length ch \<le> used (ht0 d')"
    using P Cons.prems(2) by (simp_all add: d'_def)
  moreover have "move_chain ty (e # ch) d = move_chain ty ch d'"
    using Cons.prems(1) h
    by (simp add: Let_def h_def [symmetric]) (simp add: d'_def t_def put_chain_def)
  ultimately show ?case
    using Cons.IH [of d'] by (auto simp: d'_def t_def put_chain_def)
qed

lemma skip_empty_ok:
  assumes "\<exists>j<length t. i \<le> j \<and> t ! j \<noteq> []"
  shows "\<exists>j. skip_empty t i = Some j \<and> i \<le> j \<and> j < length t \<and> t ! j \<noteq> [] \<and>
    (\<forall>k. i \<le> k \<and> k < j \<longrightarrow> t ! k = [])"
  using assms
proof (induction t i rule: skip_empty.induct)
  case (1 t i)
  show ?case
  proof (cases "t ! i = []")
    case True
    have "\<exists>j<length t. i + 1 \<le> j \<and> t ! j \<noteq> []"
      using "1.prems" True by (metis Suc_eq_plus1 Suc_leI le_neq_implies_less)
    moreover have "i < length t" using "1.prems" by auto
    ultimately obtain j where "skip_empty t (i + 1) = Some j" "i + 1 \<le> j" "j < length t" "t ! j \<noteq> []"
        "\<forall>k. i + 1 \<le> k \<and> k < j \<longrightarrow> t ! k = []"
      using "1.IH" True by (metis linorder_not_less)
    then show ?thesis using True \<open>i < length t\<close>
      by (subst skip_empty.simps) (metis Suc_eq_plus1 Suc_leI Suc_leD le_neq_implies_less linorder_not_less)
  next
    case False
    then show ?thesis using "1.prems" by (subst skip_empty.simps) auto
  qed
qed

text \<open>The number of buckets left to move bounds the number of rehashing steps.\<close>

definition to_move :: "('k, 'v) dict \<Rightarrow> nat" where
  "to_move d = length (filter (\<lambda>c. c \<noteq> []) (table (ht0 d)))"

lemma length_filter_update:
  "i < length xs \<Longrightarrow> xs ! i \<noteq> [] \<Longrightarrow>
   Suc (length (filter (\<lambda>c. c \<noteq> []) (xs[i := []]))) = length (filter (\<lambda>c. c \<noteq> []) xs)"
  by (induction xs arbitrary: i) (auto split: nat.split)

lemma rehash_ok_entry:
  assumes ok: "rehash_ok ty d" and u: "used (ht0 d) \<noteq> 0"
  shows "\<exists>i. skip_empty (table (ht0 d)) (nat (rehashidx d)) = Some i \<and> nat (rehashidx d) \<le> i \<and>
    i < htsize (ht0 d) \<and> table (ht0 d) ! i \<noteq> [] \<and> (\<forall>k<i. table (ht0 d) ! k = [])"
proof -
  have h0: "ht_ok ty (ht0 d)" and e: "\<And>i. i < htsize (ht0 d) \<Longrightarrow> int i < rehashidx d \<Longrightarrow> table (ht0 d) ! i = []"
    using ok by (auto simp: rehash_ok_def)
  have "concat (table (ht0 d)) \<noteq> []" using u h0 by (auto simp: ht_ok_def)
  then obtain j where j: "j < htsize (ht0 d)" "table (ht0 d) ! j \<noteq> []"
    using ht_ok_length [OF h0] by (metis concat_eq_Nil_conv in_set_conv_nth)
  then have "nat (rehashidx d) \<le> j" using e [of j] by linarith
  then obtain i where i: "skip_empty (table (ht0 d)) (nat (rehashidx d)) = Some i"
      "nat (rehashidx d) \<le> i" "i < length (table (ht0 d))" "table (ht0 d) ! i \<noteq> []"
      "\<And>k. nat (rehashidx d) \<le> k \<Longrightarrow> k < i \<Longrightarrow> table (ht0 d) ! k = []"
    using skip_empty_ok [of "table (ht0 d)" "nat (rehashidx d)"] j ht_ok_length [OF h0] by metis
  have "table (ht0 d) ! k = []" if "k < i" for k
    using e [of k] i that ht_ok_length [OF h0] by (cases "nat (rehashidx d) \<le> k") auto
  then show ?thesis using i ht_ok_length [OF h0] by auto
qed

lemma upd_swap:
  "t\<lparr>used := n, table := c\<rparr> = t\<lparr>table := c, used := n\<rparr>"
  "d\<lparr>ht1 := t1, ht0 := t0\<rparr> = d\<lparr>ht0 := t0, ht1 := t1\<rparr>"
  by (cases t; simp) (cases d; simp)

text \<open>One bucket moved.\<close>

lemma rehash_step_ok:
  assumes ok: "rehash_ok ty d" and u: "used (ht0 d) \<noteq> 0"
  shows "\<exists>d'. (\<forall>n. rehash_loop ty (Suc n) d = rehash_loop ty n d') \<and> rehash_ok ty d' \<and>
    ents d' = ents d \<and> iterators d' = iterators d \<and> Suc (to_move d') = to_move d \<and>
    htsize (ht0 d') = htsize (ht0 d) \<and> htsize (ht1 d') = htsize (ht1 d)"
proof -
  have h0: "ht_ok ty (ht0 d)" and h1: "ht_ok ty (ht1 d)" using ok by (auto simp: rehash_ok_def)
  obtain i where i: "skip_empty (table (ht0 d)) (nat (rehashidx d)) = Some i" "nat (rehashidx d) \<le> i"
      "i < htsize (ht0 d)" "table (ht0 d) ! i \<noteq> []" "\<forall>k<i. table (ht0 d) ! k = []"
    using rehash_ok_entry [OF assms] by blast
  define ch where "ch = table (ht0 d) ! i"
  have "mset ch \<subseteq># ht_ents (ht0 d)"
    using mset_concat_nth_le [of i "table (ht0 d)"] i(3) ht_ok_length [OF h0]
    by (simp add: ch_def ht_ents_def)
  then have le: "length ch \<le> used (ht0 d)"
    using ht_ok_used [OF h0] size_mset_mono by fastforce
  obtain t1 where t1: "move_chain ty ch d =
        Some (d\<lparr>ht0 := (ht0 d)\<lparr>used := used (ht0 d) - length ch\<rparr>, ht1 := t1\<rparr>)"
      "ht_ok ty t1" "ht_ents t1 = ht_ents (ht1 d) + mset ch" "htsize t1 = htsize (ht1 d)"
    using move_chain_ok [OF h1 le] by blast
  define t0 where "t0 = (put_chain (ht0 d) i [])\<lparr>used := used (ht0 d) - length ch\<rparr>"
  have t0: "ht_ok ty t0" "ht_ents t0 + mset (table (ht0 d) ! i) = ht_ents (ht0 d) + mset []"
    unfolding t0_def by (rule ht_ok_put [OF h0 i(3)]; use le in \<open>simp add: ch_def\<close>)+
  define d' where "d' = d\<lparr>ht0 := t0, ht1 := t1, rehashidx := int i + 1\<rparr>"
  have "rehash_loop ty (Suc n) d = rehash_loop ty n d'" for n
    using u i(1,2,3) t1(1) by (simp add: ch_def [symmetric]) (simp add: d'_def t0_def put_chain_def upd_swap)
  moreover have "rehash_ok ty d'"
    using t0(1) t1(2) i(3,5) ht_ok_length [OF h0]
    by (auto simp: rehash_ok_def d'_def) (auto simp: t0_def put_chain_def nth_list_update less_Suc_eq)
  moreover have "ents d' = ents d"
    using t0(2) t1(3) by (simp add: ents_def d'_def ch_def ac_simps)
  moreover have "Suc (to_move d') = to_move d"
    using length_filter_update [of i "table (ht0 d)"] i(3,4) ht_ok_length [OF h0]
    by (simp add: to_move_def d'_def t0_def put_chain_def)
  ultimately show ?thesis
    using t1(4) by (intro exI [of _ d']) (simp add: d'_def t0_def put_chain_def)
qed

lemma ht_ents_reset [simp]: "ht_ents dictReset = {#}"
  by (simp add: ht_ents_def dictReset_def)

lemma rehash_loop_ok:
  assumes "rehash_ok ty d"
  shows "\<exists>d' more. rehash_loop ty n d = Some (d', more) \<and> shape_ok ty d' \<and> ents d' = ents d \<and>
    iterators d' = iterators d \<and> dictIsRehashing d' = more \<and> (more \<longrightarrow> to_move d' + n = to_move d) \<and>
    dictSlots d' \<le> dictSlots d \<and> htsize (ht0 d') \<noteq> 0"
  using assms
proof (induction n arbitrary: d)
  case 0
  then show ?case by (simp add: shape_ok_def dictIsRehashing_def) (auto simp: rehash_ok_def dest: ht_ok_size)
next
  case (Suc n)
  show ?case
  proof (cases "used (ht0 d) = 0")
    case True
    then have "ht_ents (ht0 d) = {#}" using Suc.prems by (auto simp: rehash_ok_def dest: ht_ok_used)
    then show ?thesis using True Suc.prems
      by (simp add: shape_ok_def dictIsRehashing_def ents_def dictSlots_def)
        (auto simp: rehash_ok_def dictReset_def dest: ht_ok_size)
  next
    case False
    obtain d1 where d1: "\<forall>n. rehash_loop ty (Suc n) d = rehash_loop ty n d1" "rehash_ok ty d1"
        "ents d1 = ents d" "iterators d1 = iterators d" "Suc (to_move d1) = to_move d"
        "htsize (ht0 d1) = htsize (ht0 d)" "htsize (ht1 d1) = htsize (ht1 d)"
      using rehash_step_ok [OF Suc.prems False] by blast
    have "dictSlots d1 = dictSlots d" using d1(6,7) by (simp add: dictSlots_def)
    then show ?thesis using Suc.IH [OF d1(2)] d1 by (fastforce simp del: rehash_loop.simps)
  qed
qed

lemma dictRehash_ok:
  assumes "shape_ok ty d"
  shows "\<exists>d' more. dictRehash ty n d = Some (d', more) \<and> shape_ok ty d' \<and> ents d' = ents d \<and>
    iterators d' = iterators d \<and> dictIsRehashing d' = more \<and> (more \<longrightarrow> to_move d' + n = to_move d) \<and>
    dictSlots d' \<le> dictSlots d \<and> (htsize (ht0 d) \<noteq> 0 \<longrightarrow> htsize (ht0 d') \<noteq> 0)"
proof (cases "dictIsRehashing d")
  case True
  then have "rehash_ok ty d" using assms by (simp add: shape_ok_def)
  from rehash_loop_ok [OF this, of n] True show ?thesis unfolding dictRehash_def by auto
qed (use assms in \<open>auto simp: dictRehash_def\<close>)

lemma rehash_if_rehashing_ok:
  assumes "shape_ok ty d"
  shows "\<exists>d'. rehash_if_rehashing ty d = Some d' \<and> shape_ok ty d' \<and> ents d' = ents d \<and>
    iterators d' = iterators d \<and> dictSlots d' \<le> dictSlots d \<and> (htsize (ht0 d) \<noteq> 0 \<longrightarrow> htsize (ht0 d') \<noteq> 0)"
  using assms dictRehash_ok [OF assms, of 1] by (auto simp: rehash_if_rehashing_def dictRehashStep_def)

lemma rehash_ms_loop_ok:
  assumes "shape_ok ty d"
  shows "\<exists>d' n. rehash_ms_loop ty clock ms rounds d = Some (d', n) \<and> shape_ok ty d' \<and>
    ents d' = ents d \<and> iterators d' = iterators d"
  using assms
proof (induction "to_move d" arbitrary: d rounds rule: less_induct)
  case less
  obtain d1 more where d1: "dictRehash ty 100 d = Some (d1, more)" "shape_ok ty d1" "ents d1 = ents d"
      "iterators d1 = iterators d" "more \<longrightarrow> to_move d1 + 100 = to_move d"
    using dictRehash_ok [OF less.prems, of 100] by blast
  have "\<exists>d' n. rehash_ms_loop ty clock ms (rounds + 1) d1 = Some (d', n) \<and> shape_ok ty d' \<and>
      ents d' = ents d1 \<and> iterators d' = iterators d1" if more
    using less.hyps [of d1 "rounds + 1"] d1(2,5) that by simp
  then show ?case
    using d1 by (subst rehash_ms_loop.simps) auto
qed

subsection \<open>Growing\<close>

lemma next_power_loop_pow:
  assumes "sz \<le> 2 ^ m" "b \<le> m"
  shows "\<exists>c. b \<le> c \<and> c \<le> m \<and> next_power_loop (2 ^ b) sz = 2 ^ c \<and> sz \<le> 2 ^ c \<and>
    (b < c \<longrightarrow> 2 ^ (c - 1) < sz)"
  using assms(2)
proof (induction "m - b" arbitrary: b)
  case 0
  then show ?case using assms(1) by (subst next_power_loop.simps) (auto intro: exI [of _ b])
next
  case (Suc n)
  show ?case
  proof (cases "sz \<le> 2 ^ b")
    case True
    then show ?thesis using Suc.prems by (subst next_power_loop.simps) (auto intro: exI [of _ b])
  next
    case False
    obtain c where c: "b + 1 \<le> c" "c \<le> m" "next_power_loop (2 ^ (b + 1)) sz = 2 ^ c" "sz \<le> 2 ^ c"
        "b + 1 < c \<longrightarrow> 2 ^ (c - 1) < sz"
    proof -
      have "n = m - (b + 1)" "b + 1 \<le> m" using Suc.hyps(2) by auto
      then show ?thesis using Suc.hyps(1) [of "b + 1"] that by blast
    qed
    have "2 ^ (c - 1) < sz" using c(1,5) False by (cases "c = b + 1") auto
    then show ?thesis using c False by (subst next_power_loop.simps) (auto simp: mult.commute intro!: exI [of _ c])
  qed
qed

lemma dictNextPower_pow:
  assumes "sz \<le> 2 ^ 31"
  shows "\<exists>c. 2 \<le> c \<and> c \<le> 31 \<and> dictNextPower sz = 2 ^ c \<and> sz \<le> 2 ^ c"
  using assms next_power_loop_pow [OF assms, of 2] by (auto simp: dictNextPower_def DICT_HT_INITIAL_SIZE_def)

lemma new_table_ok:
  assumes "sz \<le> 2 ^ 31"
  shows "ht_ok ty (new_table (dictNextPower sz))" "ht_ents (new_table (dictNextPower sz)) = {#}"
proof -
  obtain c where c: "2 \<le> c" "c \<le> 31" "dictNextPower sz = 2 ^ c"
    using dictNextPower_pow [OF assms] by blast
  have "(of_nat (2 ^ c - 1) :: u64) = mask c"
    by (simp add: of_nat_diff mask_eq_exp_minus_1)
  then show "ht_ok ty (new_table (dictNextPower sz))"
    using c by (auto simp: ht_ok_def new_table_def simp del: replicate.simps)
  show "ht_ents (new_table (dictNextPower sz)) = {#}"
    by (simp add: ht_ents_def new_table_def)
qed

lemma dictExpand_ok:
  assumes "shape_ok ty d" "sz \<le> 2 ^ 31"
  shows "shape_ok ty (fst (dictExpand d sz)) \<and> ents (fst (dictExpand d sz)) = ents d \<and>
    iterators (fst (dictExpand d sz)) = iterators d \<and>
    snd (dictExpand d sz) = (\<not> dictIsRehashing d \<and> used (ht0 d) \<le> sz) \<and>
    (snd (dictExpand d sz) \<longrightarrow> htsize (ht0 (fst (dictExpand d sz))) \<noteq> 0)"
proof -
  note N = new_table_ok(1) [OF assms(2), of ty] new_table_ok(2) [OF assms(2)]
  have "ht0 d = dictReset \<longleftrightarrow> table (ht0 d) = []" if "\<not> dictIsRehashing d"
    using assms(1) that ht_ok_size [of ty "ht0 d"] ht_ok_length [of ty "ht0 d"]
    by (auto simp: shape_ok_def dictReset_def)
  then show ?thesis
    using assms(1) N ht_ok_size [OF N(1)] ht_ok_size [of ty "ht0 d"]
    by (auto simp: dictExpand_def Let_def shape_ok_def dictIsRehashing_def rehash_ok_def ents_def)
qed

lemma dictResize_ok:
  assumes "shape_ok ty d" "dictSize d \<le> 2 ^ 31"
  shows "shape_ok ty (fst (dictResize can d)) \<and> ents (fst (dictResize can d)) = ents d \<and>
    iterators (fst (dictResize can d)) = iterators d"
  using assms(1) dictExpand_ok [OF assms(1), of "max (used (ht0 d)) DICT_HT_INITIAL_SIZE"] assms(2)
  by (auto simp: dictResize_def dictSize_def DICT_HT_INITIAL_SIZE_def)

lemma dictExpandIfNeeded_ok:
  assumes "shape_ok ty d" "dictSize d \<le> 2 ^ 30"
  shows "\<exists>d'. dictExpandIfNeeded can d = (d', True) \<and> shape_ok ty d' \<and> ents d' = ents d \<and>
    iterators d' = iterators d \<and> htsize (ht0 d') \<noteq> 0"
proof (cases "dictIsRehashing d")
  case True
  then show ?thesis using assms(1) ht_ok_size [of ty "ht0 d"]
    by (auto simp: dictExpandIfNeeded_def shape_ok_def rehash_ok_def)
next
  case False
  have "used (ht0 d) = 0" if "htsize (ht0 d) = 0"
    using that assms(1) False ht_ok_size [of ty "ht0 d"] by (auto simp: shape_ok_def dictReset_def)
  moreover have "used (ht0 d) * 2 \<le> 2 ^ 31" using assms(2) by (simp add: dictSize_def)
  moreover have "(4 :: nat) \<le> 2 ^ 31" by simp
  ultimately show ?thesis
    using False assms(1) dictExpand_ok [OF assms(1), of "used (ht0 d) * 2"]
      dictExpand_ok [OF assms(1), of DICT_HT_INITIAL_SIZE]
    by (cases "dictExpand d (used (ht0 d) * 2)"; cases "dictExpand d DICT_HT_INITIAL_SIZE")
      (auto simp: dictExpandIfNeeded_def DICT_HT_INITIAL_SIZE_def)
qed

end
