(* ===== verification/DictMap.thy ===== *)
theory DictMap
  imports Dict Sds
begin

text \<open>
  A dictionary as a finite map: the contract its key type has to keep, the entries as a multiset
  with at most one entry per key, and the map laws of the operations of \<^verbatim>\<open>dict.c\<close>. The key types of
  \<open>src/lib/src/redis.c\<close> (binary-safe and case-insensitive \<open>sds\<close> keys) are shown to keep the contract.
\<close>

lemma as_int_small: "n < 2 ^ 31 \<Longrightarrow> as_int n = int n"
  by (simp add: as_int_def signed_of_nat signed_take_bit_int_eq_self)

subsection \<open>What dict.c relies on\<close>

text \<open>
  The comparison of a key type is an equivalence on the keys in use, equal keys have equal hashes,
  and a duplicated key is equal to the original.
\<close>

definition new_key :: "('k, 'v) dictType \<Rightarrow> 'k \<Rightarrow> 'k" where
  "new_key ty k = (case keyDup ty of None \<Rightarrow> k | Some f \<Rightarrow> f k)"

definition new_val :: "('k, 'v) dictType \<Rightarrow> 'v \<Rightarrow> 'v" where
  "new_val ty v = (case valDup ty of None \<Rightarrow> v | Some f \<Rightarrow> f v)"

definition matching :: "('k, 'v) dictType \<Rightarrow> 'k \<Rightarrow> ('k, 'v) dict \<Rightarrow> ('k, 'v) dictEntry multiset" where
  "matching ty k d = {#e \<in># ents d. dictCompareKeys ty k (key e)#}"

definition dict_inv :: "('k, 'v) dictType \<Rightarrow> 'k set \<Rightarrow> ('k, 'v) dict \<Rightarrow> bool" where
  "dict_inv ty K d \<longleftrightarrow> shape_ok ty d \<and> (\<forall>e\<in>#ents d. key e \<in> K) \<and> (\<forall>k\<in>K. size (matching ty k d) \<le> 1)"

definition lookup :: "('k, 'v) dictType \<Rightarrow> ('k, 'v) dict \<Rightarrow> 'k \<Rightarrow> 'v option option" where
  "lookup ty d k =
     map_option val (find (\<lambda>e. dictCompareKeys ty k (key e)) (concat (table (ht0 d)) @ concat (table (ht1 d))))"

text \<open>\<open>effect ty K d d' f\<close>: \<open>d'\<close> is well formed and holds the map \<open>f\<close>; no safe iterator was registered or released.\<close>

definition effect ::
  "('k, 'v) dictType \<Rightarrow> 'k set \<Rightarrow> ('k, 'v) dict \<Rightarrow> ('k, 'v) dict \<Rightarrow> ('k \<Rightarrow> 'v option option) \<Rightarrow> bool" where
  "effect ty K d d' f \<longleftrightarrow> dict_inv ty K d' \<and> iterators d' = iterators d \<and> (\<forall>k\<in>K. lookup ty d' k = f k)"

definition put ::
  "('k, 'v) dictType \<Rightarrow> ('k \<Rightarrow> 'v option option) \<Rightarrow> 'k \<Rightarrow> 'v option option \<Rightarrow> 'k \<Rightarrow> 'v option option" where
  "put ty f k r = (\<lambda>k'. if dictCompareKeys ty k' k then r else f k')"

text \<open>
  Sequences of operations, run on a dictionary together with the global \<open>dict_can_resize\<close>, and the
  same operations on a map.
\<close>

datatype ('k, 'v) dict_op =
  Add 'k 'v | Replace 'k 'v | Delete 'k | FetchValue 'k | Rehash nat | Resize | EnableResize | DisableResize

datatype 'v dict_reply = Code bool | Value "'v option" | NoReply

definition dictEnableResize :: bool where "dictEnableResize = True"
definition dictDisableResize :: bool where "dictDisableResize = False"

fun run_op ::
  "('k, 'v) dictType \<Rightarrow> ('k, 'v) dict \<times> bool \<Rightarrow> ('k, 'v) dict_op \<Rightarrow>
   ((('k, 'v) dict \<times> bool) \<times> 'v dict_reply) option" where
  "run_op ty (d, can) (Add k v) = map_option (\<lambda>(d', r). ((d', can), Code r)) (dictAdd ty can d k v)"
| "run_op ty (d, can) (Replace k v) = map_option (\<lambda>(d', r). ((d', can), Code r)) (dictReplace ty can d k v)"
| "run_op ty (d, can) (Delete k) = map_option (\<lambda>(d', r). ((d', can), Code r)) (dictDelete ty d k)"
| "run_op ty (d, can) (FetchValue k) = map_option (\<lambda>(d', r). ((d', can), Value r)) (dictFetchValue ty d k)"
| "run_op ty (d, can) (Rehash n) = map_option (\<lambda>(d', r). ((d', can), NoReply)) (dictRehash ty n d)"
| "run_op ty (d, can) Resize = Some ((fst (dictResize can d), can), NoReply)"
| "run_op ty (d, can) EnableResize = Some ((d, dictEnableResize), NoReply)"
| "run_op ty (d, can) DisableResize = Some ((d, dictDisableResize), NoReply)"

fun run_ops ::
  "('k, 'v) dictType \<Rightarrow> ('k, 'v) dict \<times> bool \<Rightarrow> ('k, 'v) dict_op list \<Rightarrow>
   ((('k, 'v) dict \<times> bool) \<times> 'v dict_reply list) option" where
  "run_ops ty s [] = Some (s, [])"
| "run_ops ty s (x # xs) =
     do { (s1, r) \<leftarrow> run_op ty s x; (s2, rs) \<leftarrow> run_ops ty s1 xs; Some (s2, r # rs) }"

fun map_op ::
  "('k, 'v) dictType \<Rightarrow> ('k \<Rightarrow> 'v option option) \<Rightarrow> ('k, 'v) dict_op \<Rightarrow> ('k \<Rightarrow> 'v option option) \<times> 'v dict_reply" where
  "map_op ty f (Add k v) =
     (if f k = None then (put ty f k (Some (Some (new_val ty v))), Code True) else (f, Code False))"
| "map_op ty f (Replace k v) = (put ty f k (Some (Some (new_val ty v))), Code (f k = None))"
| "map_op ty f (Delete k) = (if f k = None then (f, Code False) else (put ty f k None, Code True))"
| "map_op ty f (FetchValue k) = (f, Value (case f k of None \<Rightarrow> None | Some v \<Rightarrow> v))"
| "map_op ty f _ = (f, NoReply)"

fun map_ops ::
  "('k, 'v) dictType \<Rightarrow> ('k \<Rightarrow> 'v option option) \<Rightarrow> ('k, 'v) dict_op list \<Rightarrow>
   ('k \<Rightarrow> 'v option option) \<times> 'v dict_reply list" where
  "map_ops ty f [] = (f, [])"
| "map_ops ty f (x # xs) =
     (case map_op ty f x of (f1, r) \<Rightarrow> case map_ops ty f1 xs of (f2, rs) \<Rightarrow> (f2, r # rs))"

fun op_keys :: "('k, 'v) dict_op \<Rightarrow> 'k set" where
  "op_keys (Add k v) = {k}"
| "op_keys (Replace k v) = {k}"
| "op_keys (Delete k) = {k}"
| "op_keys (FetchValue k) = {k}"
| "op_keys _ = {}"

locale dict_type =
  fixes ty :: "('k, 'v) dictType" and K :: "'k set"
  assumes cmp_refl: "k \<in> K \<Longrightarrow> dictCompareKeys ty k k"
    and cmp_sym: "k \<in> K \<Longrightarrow> k' \<in> K \<Longrightarrow> dictCompareKeys ty k k' \<Longrightarrow> dictCompareKeys ty k' k"
    and cmp_trans: "k \<in> K \<Longrightarrow> k' \<in> K \<Longrightarrow> k'' \<in> K \<Longrightarrow>
      dictCompareKeys ty k k' \<Longrightarrow> dictCompareKeys ty k' k'' \<Longrightarrow> dictCompareKeys ty k k''"
    and cmp_hash: "k \<in> K \<Longrightarrow> k' \<in> K \<Longrightarrow> dictCompareKeys ty k k' \<Longrightarrow> hashFunction ty k = hashFunction ty k'"
    and dup_K: "k \<in> K \<Longrightarrow> new_key ty k \<in> K"
    and dup_cmp: "k \<in> K \<Longrightarrow> dictCompareKeys ty k (new_key ty k)"
begin

lemma cmp_eq:
  assumes "k \<in> K" "k' \<in> K" "x \<in> K" "dictCompareKeys ty k k'"
  shows "dictCompareKeys ty k x = dictCompareKeys ty k' x"
  using assms cmp_sym cmp_trans by blast

lemma walk_None: "walk ty k c n = None \<longleftrightarrow> (\<forall>e\<in>set c. \<not> dictCompareKeys ty k (key e))"
  by (induction c arbitrary: n) auto

lemma walk_Some:
  "walk ty k c n = Some m \<Longrightarrow> n \<le> m \<and> m - n < length c \<and> dictCompareKeys ty k (key (c ! (m - n)))"
proof (induction c arbitrary: n)
  case (Cons e c)
  show ?case
  proof (cases "dictCompareKeys ty k (key e)")
    case False
    then have IH: "n + 1 \<le> m \<and> m - (n + 1) < length c \<and> dictCompareKeys ty k (key (c ! (m - (n + 1))))"
      using Cons.IH [of "n + 1"] Cons.prems by simp
    then have "m - n = Suc (m - (n + 1))" by linarith
    then show ?thesis using IH by simp
  qed (use Cons.prems in simp)
qed simp

lemma in_ents: "e \<in># ents d \<longleftrightarrow> e \<in># ht_ents (ht0 d) \<or> e \<in># ht_ents (ht1 d)"
  by (simp add: ents_def)

text \<open>The search loop finds the entry of a key exactly if there is one.\<close>

lemma search_ok:
  assumes inv: "dict_inv ty K d" and k: "k \<in> K" and sz: "htsize (ht0 d) \<noteq> 0"
  shows "\<exists>r. search ty d k = Some r \<and>
    (case r of
       None \<Rightarrow> \<forall>e\<in>#ents d. \<not> dictCompareKeys ty k (key e)
     | Some (s, i, n) \<Rightarrow> ht_ok ty (ht d s) \<and> i < htsize (ht d s) \<and> n < length (table (ht d s) ! i) \<and>
         dictCompareKeys ty k (key (table (ht d s) ! i ! n)))"
proof -
  have sh: "shape_ok ty d" and K: "\<And>e. e \<in># ents d \<Longrightarrow> key e \<in> K"
    using inv by (auto simp: dict_inv_def)
  have ok0: "ht_ok ty (ht0 d)" and ok1: "dictIsRehashing d \<Longrightarrow> ht_ok ty (ht1 d)"
    and nr: "\<not> dictIsRehashing d \<Longrightarrow> ht_ents (ht1 d) = {#}"
    using sh sz by (auto simp: shape_ok_def rehash_ok_def dictReset_def ht_ents_def split: if_splits)
  define h where "h = hashFunction ty k"
  have miss: "\<not> dictCompareKeys ty k (key e)"
    if "ht_ok ty t" "e \<in># ht_ents t" "e \<in># ents d" "\<forall>e\<in>set (table t ! bucket h t). \<not> dictCompareKeys ty k (key e)"
    for t e
    using in_bucket [OF that(1,2)] cmp_hash [OF k K [OF that(3)]] that(4) by (auto simp: h_def)
  have b0: "bucket h (ht0 d) < htsize (ht0 d)" by (rule bucket_less [OF ok0])
  have b1: "dictIsRehashing d \<Longrightarrow> bucket h (ht1 d) < htsize (ht1 d)" using bucket_less ok1 by blast
  show ?thesis
  proof (cases "walk ty k (table (ht0 d) ! bucket h (ht0 d)) 0")
    case (Some n)
    then show ?thesis using walk_Some [OF Some] ok0 b0
      by (simp add: search_def Let_def h_def [symmetric] ht_def)
  next
    case None
    note m0 = miss [OF ok0 _ _ None [unfolded walk_None]]
    show ?thesis
    proof (cases "dictIsRehashing d")
      case False
      then show ?thesis using None m0 nr ok0 b0
        by (simp add: search_def Let_def h_def [symmetric] in_ents)
    next
      case True
      note R = ok0 b0 ok1 [OF True] b1 [OF True]
      show ?thesis
      proof (cases "walk ty k (table (ht1 d) ! bucket h (ht1 d)) 0")
        case (Some n)
        then show ?thesis using walk_Some [OF Some] None True R
          by (simp add: search_def Let_def h_def [symmetric] ht_def)
      next
        case N1: None
        note m1 = miss [OF ok1 [OF True] _ _ N1 [unfolded walk_None]]
        show ?thesis using m0 m1 None N1 True R
          by (auto simp: search_def Let_def h_def [symmetric] in_ents)
      qed
    qed
  qed
qed

text \<open>Changing the chain that holds an entry.\<close>

lemma set_ht_simps [simp]:
  "ht (set_ht d s t) s = t" "rehashidx (set_ht d s t) = rehashidx d" "iterators (set_ht d s t) = iterators d"
  "dictIsRehashing (set_ht d s t) = dictIsRehashing d"
  by (simp_all add: ht_def set_ht_def dictIsRehashing_def)

lemma shape_ok_set_ht:
  assumes sh: "shape_ok ty d" and i: "i < htsize (ht d s)" and ok: "ht_ok ty (ht d s)" "ht_ok ty t"
    and t: "t = (put_chain (ht d s) i c)\<lparr>used := n\<rparr>" and ne: "\<not> s \<Longrightarrow> c \<noteq> [] \<Longrightarrow> table (ht d s) ! i \<noteq> [] \<or> \<not> dictIsRehashing d"
  shows "shape_ok ty (set_ht d s t)"
proof (cases s)
  case True
  then have "dictIsRehashing d" using sh i by (auto simp: shape_ok_def ht_def dictReset_def split: if_splits)
  then show ?thesis using sh ok True by (auto simp: shape_ok_def rehash_ok_def set_ht_def dictIsRehashing_def ht_def)
next
  case False
  show ?thesis
  proof (cases "dictIsRehashing d")
    case True
    have "table t ! j = []" if "j < htsize t" "int j < rehashidx d" for j
      using that sh True ne [OF False] i False ht_ok_length [OF ok(1)]
      by (cases "j = i") (auto simp: shape_ok_def rehash_ok_def t put_chain_def ht_def nth_list_update)
    then show ?thesis using sh ok True False
      by (auto simp: shape_ok_def rehash_ok_def set_ht_def dictIsRehashing_def ht_def)
  next
    case nr: False
    then show ?thesis using sh ok False by (auto simp: shape_ok_def set_ht_def dictIsRehashing_def)
  qed
qed

lemma ents_set_ht: "ents (set_ht d s t) + ht_ents (ht d s) = ents d + ht_ents t"
  by (simp add: ents_def set_ht_def ht_def ac_simps)

lemma put_ents:
  assumes "ht_ok ty (ht d s)" "i < htsize (ht d s)"
    "\<And>e. e \<in> set c \<Longrightarrow> bucket (hashFunction ty (key e)) (ht d s) = i"
    "n + length (table (ht d s) ! i) = used (ht d s) + length c"
  shows "ents (set_ht d s ((put_chain (ht d s) i c)\<lparr>used := n\<rparr>)) + mset (table (ht d s) ! i) = ents d + mset c"
proof -
  let ?t = "(put_chain (ht d s) i c)\<lparr>used := n\<rparr>"
  have "ents (set_ht d s ?t) + mset (table (ht d s) ! i) + ht_ents (ht d s) =
      ents d + (ht_ents ?t + mset (table (ht d s) ! i))"
    using ents_set_ht [of d s ?t] by (simp add: ac_simps)
  also have "\<dots> = ents d + mset c + ht_ents (ht d s)"
    using ht_ok_put(2) [OF assms] by (simp add: ac_simps)
  finally show ?thesis by simp
qed

text \<open>Uniqueness of keys, and the lookup it makes well defined.\<close>

lemma unique:
  assumes "dict_inv ty K d" "k \<in> K" "e \<in># ents d" "e' \<in># ents d"
    "dictCompareKeys ty k (key e)" "dictCompareKeys ty k (key e')"
  shows "e = e'"
proof -
  have m: "e \<in># matching ty k d" "e' \<in># matching ty k d" using assms(3-6) by (auto simp: matching_def)
  then have "matching ty k d \<noteq> {#}" by auto
  moreover have "size (matching ty k d) \<le> 1" using assms(1,2) by (simp add: dict_inv_def)
  ultimately have "size (matching ty k d) = 1"
    by (cases "size (matching ty k d)") auto
  then obtain x where "matching ty k d = {#x#}" using size_1_singleton_mset by blast
  then show ?thesis using m by simp
qed

lemma lookup_None_iff: "lookup ty d k = None \<longleftrightarrow> (\<forall>e\<in>#ents d. \<not> dictCompareKeys ty k (key e))"
  by (auto simp: lookup_def find_None_iff ents_def ht_ents_def)

lemma lookup_SomeD:
  "lookup ty d k = Some v \<Longrightarrow> \<exists>e\<in>#ents d. dictCompareKeys ty k (key e) \<and> val e = v"
  unfolding lookup_def map_option_eq_Some by (auto dest!: find_SomeD simp: ents_def ht_ents_def)

lemma lookup_Some_iff:
  assumes "dict_inv ty K d" "k \<in> K"
  shows "lookup ty d k = Some v \<longleftrightarrow> (\<exists>e\<in>#ents d. dictCompareKeys ty k (key e) \<and> val e = v)"
proof
  assume "lookup ty d k = Some v"
  then show "\<exists>e\<in>#ents d. dictCompareKeys ty k (key e) \<and> val e = v" by (rule lookup_SomeD)
next
  assume "\<exists>e\<in>#ents d. dictCompareKeys ty k (key e) \<and> val e = v"
  then obtain e where e: "e \<in># ents d" "dictCompareKeys ty k (key e)" "val e = v" by blast
  then obtain w where w: "lookup ty d k = Some w" using lookup_None_iff [of d k] by (cases "lookup ty d k") auto
  then obtain e' where "e' \<in># ents d" "dictCompareKeys ty k (key e')" "val e' = w"
    using lookup_SomeD by blast
  then show "lookup ty d k = Some v" using unique [OF assms e(1) _ e(2)] w e(3) by auto
qed

lemma filter_mset_Nil: "filter_mset P M = {#} \<longleftrightarrow> (\<forall>x\<in>#M. \<not> P x)"
  by (induction M) auto

lemma lookup_cong:
  assumes "dict_inv ty K d" "dict_inv ty K d'" "k \<in> K"
    "\<And>e. dictCompareKeys ty k (key e) \<Longrightarrow> e \<in># ents d' \<longleftrightarrow> e \<in># ents d"
  shows "lookup ty d' k = lookup ty d k"
proof (cases "lookup ty d k")
  case None
  then show ?thesis using assms(4) lookup_None_iff by metis
next
  case (Some v)
  then show ?thesis
    using assms(4) lookup_Some_iff [OF assms(1,3)] lookup_Some_iff [OF assms(2,3)] by metis
qed

lemma dict_inv_same:
  assumes "dict_inv ty K d" "shape_ok ty d'" "ents d' = ents d"
  shows "dict_inv ty K d'" and "k \<in> K \<Longrightarrow> lookup ty d' k = lookup ty d k"
proof -
  show i: "dict_inv ty K d'" using assms by (simp add: dict_inv_def matching_def)
  show "lookup ty d' k = lookup ty d k" if "k \<in> K"
    using lookup_cong [OF assms(1) i that] assms(3) by simp
qed

lemma dict_inv_add:
  assumes inv: "dict_inv ty K d" and sh: "shape_ok ty d'" and e: "ents d' = add_mset e (ents d)" "key e \<in> K"
    and new: "\<And>x. x \<in># ents d \<Longrightarrow> \<not> dictCompareKeys ty (key e) (key x)"
  shows "dict_inv ty K d'"
    and "k \<in> K \<Longrightarrow> lookup ty d' k = (if dictCompareKeys ty k (key e) then Some (val e) else lookup ty d k)"
proof -
  have K: "\<And>x. x \<in># ents d \<Longrightarrow> key x \<in> K" using inv by (auto simp: dict_inv_def)
  have no: "\<not> dictCompareKeys ty k (key x)"
    if "k \<in> K" "dictCompareKeys ty k (key e)" "x \<in># ents d" for k x
    using cmp_eq [OF that(1) e(2) K [OF that(3)] that(2)] new [OF that(3)] by blast
  have "size (matching ty k d') \<le> 1" if k: "k \<in> K" for k
  proof (cases "dictCompareKeys ty k (key e)")
    case True
    then have "matching ty k d = {#}" using no [OF k True] by (simp add: matching_def filter_mset_Nil)
    then show ?thesis using e True by (simp add: matching_def)
  next
    case False
    then show ?thesis using e inv k by (simp add: matching_def dict_inv_def)
  qed
  then show i: "dict_inv ty K d'" using sh e K by (auto simp: dict_inv_def)
  show "lookup ty d' k = (if dictCompareKeys ty k (key e) then Some (val e) else lookup ty d k)" if k: "k \<in> K"
  proof (cases "dictCompareKeys ty k (key e)")
    case True
    then show ?thesis using lookup_Some_iff [OF i k] e by auto
  next
    case False
    then show ?thesis using lookup_cong [OF inv i k] e by auto
  qed
qed

lemma dict_inv_del:
  assumes inv: "dict_inv ty K d" and sh: "shape_ok ty d'" and e: "ents d = add_mset e (ents d')"
  shows "dict_inv ty K d'"
    and "k \<in> K \<Longrightarrow> lookup ty d' k = (if dictCompareKeys ty k (key e) then None else lookup ty d k)"
proof -
  have sub: "ents d' \<subseteq># ents d" by (simp add: e)
  have "size (matching ty k d') \<le> 1" if k: "k \<in> K" for k
    using size_mset_mono [OF multiset_filter_mono [OF sub, of "\<lambda>e. dictCompareKeys ty k (key e)"]] inv k
    unfolding dict_inv_def matching_def by fastforce
  then show i: "dict_inv ty K d'"
    using sh inv mset_subset_eqD [OF sub] by (auto simp: dict_inv_def)
  show "lookup ty d' k = (if dictCompareKeys ty k (key e) then None else lookup ty d k)" if k: "k \<in> K"
  proof (cases "dictCompareKeys ty k (key e)")
    case True
    have "size (matching ty k d) \<le> 1" using inv k by (simp add: dict_inv_def)
    then have "matching ty k d' = {#}" using True by (simp add: matching_def e)
    then show ?thesis using True lookup_None_iff by (auto simp: matching_def filter_mset_Nil)
  next
    case False
    then show ?thesis using lookup_cong [OF inv i k] e by auto
  qed
qed

text \<open>An entry given another value: one deletion and one addition.\<close>

lemma dict_inv_swap:
  assumes inv: "dict_inv ty K d" and sh: "shape_ok ty d'" and e: "ents d = add_mset e M" "ents d' = add_mset e' M"
    and key: "key e' = key e"
  shows "dict_inv ty K d'"
    and "k \<in> K \<Longrightarrow> lookup ty d' k = (if dictCompareKeys ty k (key e) then Some (val e') else lookup ty d k)"
proof -
  have m: "size (matching ty k d') = size (matching ty k d)" for k
    by (simp add: matching_def e key)
  show i: "dict_inv ty K d'"
    using inv sh unfolding dict_inv_def m by (auto simp: e key)
  show "lookup ty d' k = (if dictCompareKeys ty k (key e) then Some (val e') else lookup ty d k)" if k: "k \<in> K"
  proof (cases "dictCompareKeys ty k (key e)")
    case True
    then show ?thesis using lookup_Some_iff [OF i k] e key by auto
  next
    case False
    have "x \<in># ents d' \<longleftrightarrow> x \<in># ents d" if "dictCompareKeys ty k (key x)" for x
      using that False key by (auto simp: e)
    then show ?thesis using lookup_cong [OF inv i k] False by auto
  qed
qed

lemma dictSize_ents:
  assumes "shape_ok ty d"
  shows "dictSize d = size (ents d)"
proof -
  have "used t = size (ht_ents t)" if "ht_ok ty t \<or> t = dictReset" for t
    using that ht_ok_used by (auto simp: dictReset_def ht_ents_def)
  moreover have "ht_ok ty (ht0 d) \<or> ht0 d = dictReset" "ht_ok ty (ht1 d) \<or> ht1 d = dictReset"
    using assms by (auto simp: shape_ok_def rehash_ok_def split: if_splits)
  ultimately show ?thesis by (simp add: dictSize_def ents_def)
qed

subsection \<open>The operations\<close>

lemma effect_same:
  "dict_inv ty K d \<Longrightarrow> shape_ok ty d' \<Longrightarrow> ents d' = ents d \<Longrightarrow> iterators d' = iterators d \<Longrightarrow>
   effect ty K d d' (lookup ty d)"
  using dict_inv_same by (auto simp: effect_def)

lemma effect_trans: "effect ty K d d1 f \<Longrightarrow> effect ty K d1 d2 g \<Longrightarrow> effect ty K d d2 g"
  by (simp add: effect_def)

lemma dict_inv_shape: "dict_inv ty K d \<Longrightarrow> shape_ok ty d"
  by (simp add: dict_inv_def)

lemma located_in_ents:
  assumes "ht_ok ty (ht d s)" "i < htsize (ht d s)" "n < length (table (ht d s) ! i)"
  shows "table (ht d s) ! i ! n \<in># ents d"
  using assms nth_mem [OF assms(3)] in_ht_ents [OF assms(1)] by (cases s) (auto simp: ents_def ht_def)

lemma dictFind_effect:
  assumes inv: "dict_inv ty K d" and k: "k \<in> K"
  shows "\<exists>d' r. dictFind ty d k = Some (d', r) \<and> effect ty K d d' (lookup ty d) \<and> dictSize d' = dictSize d \<and>
    (case r of
       None \<Rightarrow> lookup ty d k = None
     | Some (s, i, n) \<Rightarrow> ht_ok ty (ht d' s) \<and> i < htsize (ht d' s) \<and> n < length (table (ht d' s) ! i) \<and>
         dictCompareKeys ty k (key (table (ht d' s) ! i ! n)))"
proof (cases "htsize (ht0 d) = 0")
  case True
  then have "ents d = {#}"
    using inv ht_ok_size [of ty "ht0 d"]
    by (auto simp: dict_inv_def shape_ok_def rehash_ok_def ents_def split: if_splits)
  then show ?thesis using True inv lookup_None_iff [of d k]
    by (simp add: dictFind_def effect_def)
next
  case False
  obtain d1 where d1: "rehash_if_rehashing ty d = Some d1" "shape_ok ty d1" "ents d1 = ents d"
      "iterators d1 = iterators d" "htsize (ht0 d1) \<noteq> 0"
    using False rehash_if_rehashing_ok [OF dict_inv_shape [OF inv]] by blast
  have i1: "dict_inv ty K d1" by (rule dict_inv_same [OF inv d1(2,3)])
  obtain r where r: "search ty d1 k = Some r"
      "case r of None \<Rightarrow> \<forall>e\<in>#ents d1. \<not> dictCompareKeys ty k (key e)
       | Some (s, i, n) \<Rightarrow> ht_ok ty (ht d1 s) \<and> i < htsize (ht d1 s) \<and> n < length (table (ht d1 s) ! i) \<and>
           dictCompareKeys ty k (key (table (ht d1 s) ! i ! n))"
    using search_ok [OF i1 k d1(5)] by blast
  have "dictSize d1 = dictSize d"
    using dictSize_ents [OF d1(2)] dictSize_ents [OF dict_inv_shape [OF inv]] d1(3) by simp
  then show ?thesis
    using False d1 r effect_same [OF inv d1(2,3,4)] lookup_None_iff [of d k]
    by (auto simp: dictFind_def split: option.splits)
qed

lemma put_chain_used: "(put_chain t i c)\<lparr>used := used t\<rparr> = put_chain t i c"
  by (simp add: put_chain_def)

lemma nth_split_mset: "n < length c \<Longrightarrow> mset c = add_mset (c ! n) (mset (take n c) + mset (drop (n + 1) c))"
  by (subst id_take_nth_drop [of n c]) auto

lemma dictSetVal_effect:
  assumes inv: "dict_inv ty K d" and L: "ht_ok ty (ht d s)" "i < htsize (ht d s)" "n < length (table (ht d s) ! i)"
  shows "\<exists>d'. dictSetVal ty d (s, i, n) v = Some d' \<and> dictSize d' = dictSize d \<and>
    effect ty K d d' (\<lambda>k. if dictCompareKeys ty k (key (table (ht d s) ! i ! n))
      then Some (Some (new_val ty v)) else lookup ty d k)"
proof -
  define c where "c = table (ht d s) ! i"
  define e' where "e' = (c ! n)\<lparr>val := Some (new_val ty v)\<rparr>"
  define t where "t = (put_chain (ht d s) i (c[n := e']))\<lparr>used := used (ht d s)\<rparr>"
  define d' where "d' = set_ht d s t"
  have b: "bucket (hashFunction ty (key e)) (ht d s) = i" if "e \<in> set (c[n := e'])" for e
    using that ht_ok_bucket [OF L(1,2)] nth_mem [OF L(3)] set_update_subset_insert [of c n e']
    by (fastforce simp: c_def e'_def)
  have okt: "ht_ok ty t" unfolding t_def by (rule ht_ok_put(1) [OF L(1,2) b]) (simp_all add: c_def)
  have ne: "c \<noteq> []" using L(3) by (auto simp: c_def)
  have sh: "shape_ok ty d'" unfolding d'_def
    by (rule shape_ok_set_ht [OF dict_inv_shape [OF inv] L(2,1) okt t_def]) (use ne in \<open>simp add: c_def\<close>)
  have E: "ents d' + mset c = ents d + mset (c[n := e'])"
    unfolding d'_def t_def c_def by (rule put_ents [OF L(1,2) b [unfolded c_def]]) auto
  obtain M where M: "ents d = add_mset (c ! n) M"
    using located_in_ents [OF L] by (metis c_def insert_DiffM)
  have "mset c = add_mset (c ! n) (mset c - {#c ! n#})"
    using nth_mem [OF L(3)] by (simp add: c_def)
  then have M': "ents d' = add_mset e' M"
    using E M L(3) by (simp add: c_def mset_update)
  have "dictSetVal ty d (s, i, n) v = Some d'"
    using L by (simp add: dictSetVal_def entry_at_def c_def [symmetric] Let_def)
      (simp add: d'_def t_def e'_def put_chain_used new_val_def)
  moreover have "dictSize d' = dictSize d"
    using dictSize_ents [OF sh] dictSize_ents [OF dict_inv_shape [OF inv]] M M' by simp
  moreover have "effect ty K d d' (\<lambda>k. if dictCompareKeys ty k (key (c ! n))
      then Some (Some (new_val ty v)) else lookup ty d k)"
    using dict_inv_swap [OF inv sh M M'] by (auto simp: effect_def e'_def d'_def)
  ultimately show ?thesis by (auto simp: c_def)
qed

text \<open>A new entry at the head of a chain.\<close>

lemma add_entry_effect:
  assumes inv: "dict_inv ty K d" and k: "k \<in> K" and s: "s = dictIsRehashing d"
    and ok: "ht_ok ty (ht d s)" and new: "\<forall>e\<in>#ents d. \<not> dictCompareKeys ty k (key e)"
    and i: "i = bucket (hashFunction ty k) (ht d s)"
    and d': "d' = set_ht d s ((put_chain (ht d s) i (\<lparr>key = new_key ty k, val = None\<rparr> # table (ht d s) ! i))
               \<lparr>used := used (ht d s) + 1\<rparr>)"
  shows "effect ty K d d' (\<lambda>k'. if dictCompareKeys ty k' k then Some None else lookup ty d k')"
    and "dictSize d' = dictSize d + 1" and "ht_ok ty (ht d' s)" and "i < htsize (ht d' s)"
    and "table (ht d' s) ! i = \<lparr>key = new_key ty k, val = None\<rparr> # table (ht d s) ! i"
proof -
  define e where "e = \<lparr>key = new_key ty k, val = None :: 'v option\<rparr>"
  define c where "c = e # table (ht d s) ! i"
  have il: "i < htsize (ht d s)" unfolding i by (rule bucket_less [OF ok])
  have h: "hashFunction ty (new_key ty k) = hashFunction ty k"
    using cmp_hash [OF k dup_K [OF k] dup_cmp [OF k]] by simp
  have b: "bucket (hashFunction ty (key x)) (ht d s) = i" if "x \<in> set c" for x
    using that ht_ok_bucket [OF ok il] h by (auto simp: c_def e_def i)
  have d'c: "d' = set_ht d s ((put_chain (ht d s) i c)\<lparr>used := used (ht d s) + 1\<rparr>)"
    by (simp add: d' c_def e_def)
  have okt: "ht_ok ty ((put_chain (ht d s) i c)\<lparr>used := used (ht d s) + 1\<rparr>)"
    by (rule ht_ok_put(1) [OF ok il b]) (simp_all add: c_def)
  have sh: "shape_ok ty d'" unfolding d'c
    by (rule shape_ok_set_ht [OF dict_inv_shape [OF inv] il ok okt refl]) (simp add: s)
  have "ents d' + mset (table (ht d s) ! i) = ents d + mset c"
    unfolding d'c by (rule put_ents [OF ok il b]) (simp_all add: c_def)
  then have E: "ents d' = add_mset e (ents d)" by (simp add: c_def)
  have K: "\<And>x. x \<in># ents d \<Longrightarrow> key x \<in> K" using inv by (auto simp: dict_inv_def)
  have n: "\<not> dictCompareKeys ty (key e) (key x)" if "x \<in># ents d" for x
    using new that cmp_eq [OF k dup_K [OF k] K [OF that] dup_cmp [OF k]] by (auto simp: e_def)
  have ek: "key e \<in> K" using dup_K [OF k] by (simp add: e_def)
  have "dictCompareKeys ty k' (key e) = dictCompareKeys ty k' k" if "k' \<in> K" for k'
    using that dup_cmp [OF k] dup_K [OF k] k cmp_trans [of k' "new_key ty k" k]
      cmp_trans [of k' k "new_key ty k"] cmp_sym [of k "new_key ty k"] by (auto simp: e_def)
  then show "effect ty K d d' (\<lambda>k'. if dictCompareKeys ty k' k then Some None else lookup ty d k')"
    using dict_inv_add [OF inv sh E ek n] by (simp add: effect_def e_def d'c)
  show "dictSize d' = dictSize d + 1"
    using dictSize_ents [OF sh] dictSize_ents [OF dict_inv_shape [OF inv]] E by simp
  show "ht_ok ty (ht d' s)" "i < htsize (ht d' s)"
    "table (ht d' s) ! i = \<lparr>key = new_key ty k, val = None\<rparr> # table (ht d s) ! i"
    using okt il ht_ok_length [OF ok] by (simp_all add: d'c c_def e_def) (simp_all add: put_chain_def)
qed

lemma dictAddRaw_effect:
  assumes inv: "dict_inv ty K d" and k: "k \<in> K" and sz: "dictSize d \<le> 2 ^ 30"
  shows "\<exists>d' r. dictAddRaw ty can d k = Some (d', r) \<and>
    (if lookup ty d k = None
     then effect ty K d d' (\<lambda>k'. if dictCompareKeys ty k' k then Some None else lookup ty d k') \<and>
       dictSize d' = dictSize d + 1 \<and>
       (\<exists>s i. r = Some (s, i, 0) \<and> ht_ok ty (ht d' s) \<and> i < htsize (ht d' s) \<and>
          table (ht d' s) ! i \<noteq> [] \<and> key (table (ht d' s) ! i ! 0) = new_key ty k)
     else r = None \<and> effect ty K d d' (lookup ty d) \<and> dictSize d' = dictSize d)"
proof -
  obtain d1 where d1: "rehash_if_rehashing ty d = Some d1" "shape_ok ty d1" "ents d1 = ents d"
      "iterators d1 = iterators d"
    using rehash_if_rehashing_ok [OF dict_inv_shape [OF inv]] by blast
  have sz1: "dictSize d1 = dictSize d"
    using dictSize_ents [OF d1(2)] dictSize_ents [OF dict_inv_shape [OF inv]] d1(3) by simp
  obtain d2 where d2: "dictExpandIfNeeded can d1 = (d2, True)" "shape_ok ty d2" "ents d2 = ents d1"
      "iterators d2 = iterators d1" "htsize (ht0 d2) \<noteq> 0"
    using dictExpandIfNeeded_ok [OF d1(2), of can] sz sz1 by auto
  have E: "ents d2 = ents d" "iterators d2 = iterators d" using d1 d2 by auto
  have i2: "dict_inv ty K d2" by (rule dict_inv_same [OF inv d2(2) E(1)])
  have sz2: "dictSize d2 = dictSize d"
    using dictSize_ents [OF d2(2)] dictSize_ents [OF dict_inv_shape [OF inv]] E by simp
  have ef: "effect ty K d d2 (lookup ty d)" by (rule effect_same [OF inv d2(2) E])
  obtain r where r: "search ty d2 k = Some r"
      "case r of None \<Rightarrow> \<forall>e\<in>#ents d2. \<not> dictCompareKeys ty k (key e)
       | Some (s, i, n) \<Rightarrow> ht_ok ty (ht d2 s) \<and> i < htsize (ht d2 s) \<and> n < length (table (ht d2 s) ! i) \<and>
           dictCompareKeys ty k (key (table (ht d2 s) ! i ! n))"
    using search_ok [OF i2 k d2(5)] by blast
  show ?thesis
  proof (cases r)
    case (Some q)
    obtain s i n where q: "q = (s, i, n)" by (cases q) auto
    have "table (ht d2 s) ! i ! n \<in># ents d" using located_in_ents r(2) E(1) unfolding Some q by force
    then have "lookup ty d k \<noteq> None" using r(2) lookup_None_iff unfolding Some q by force
    then show ?thesis using ef sz2 d1(1) d2(1) r(1) Some by (simp add: dictAddRaw_def dictKeyIndex_def)
  next
    case None
    have new: "\<forall>e\<in>#ents d2. \<not> dictCompareKeys ty k (key e)" using r(2) None by simp
    define s i where "s = dictIsRehashing d2" and "i = bucket (hashFunction ty k) (ht d2 s)"
    have ok: "ht_ok ty (ht d2 s)"
      using d2(2,5) by (auto simp: s_def ht_def shape_ok_def rehash_ok_def dictReset_def split: if_splits)
    note A = add_entry_effect [OF i2 k s_def ok new i_def refl]
    have il: "i < htsize (ht d2 s)" unfolding i_def by (rule bucket_less [OF ok])
    then have "as_int i = int i" using ht_ok_size [OF ok] by (simp add: as_int_small)
    then have "dictAddRaw ty can d k = Some (set_ht d2 s ((put_chain (ht d2 s) i
        (\<lparr>key = new_key ty k, val = None\<rparr> # table (ht d2 s) ! i))\<lparr>used := used (ht d2 s) + 1\<rparr>), Some (s, i, 0))"
      using d1(1) d2(1) r(1) None ok il
      by (simp add: dictAddRaw_def dictKeyIndex_def ht_def [symmetric] Let_def s_def [symmetric] i_def [symmetric])
        (simp add: new_key_def)
    moreover have "lookup ty d k = None" using new E(1) lookup_None_iff by metis
    moreover have "lookup ty d2 k' = lookup ty d k'" if "k' \<in> K" for k'
      using that ef by (simp add: effect_def)
    ultimately show ?thesis using A sz2 E(2) by (auto simp: effect_def)
  qed
qed

lemma cmp_key_eq:
  "k \<in> K \<Longrightarrow> k' \<in> K \<Longrightarrow> x \<in> K \<Longrightarrow> dictCompareKeys ty k x \<Longrightarrow> dictCompareKeys ty k' x = dictCompareKeys ty k' k"
  using cmp_sym [of k x] cmp_trans [of k' k x] cmp_trans [of k' x k] by auto

lemma dictAdd_effect:
  assumes inv: "dict_inv ty K d" and k: "k \<in> K" and sz: "dictSize d \<le> 2 ^ 30"
  shows "\<exists>d'. dictAdd ty can d k v = Some (d', lookup ty d k = None) \<and>
    (if lookup ty d k = None
     then effect ty K d d' (put ty (lookup ty d) k (Some (Some (new_val ty v)))) \<and> dictSize d' = dictSize d + 1
     else effect ty K d d' (lookup ty d) \<and> dictSize d' = dictSize d)"
proof (cases "lookup ty d k = None")
  case False
  then show ?thesis using dictAddRaw_effect [OF assms, of can] by (auto simp: dictAdd_def)
next
  case True
  then obtain d1 s i where d1: "dictAddRaw ty can d k = Some (d1, Some (s, i, 0))"
      "effect ty K d d1 (\<lambda>k'. if dictCompareKeys ty k' k then Some None else lookup ty d k')"
      "dictSize d1 = dictSize d + 1" "ht_ok ty (ht d1 s)" "i < htsize (ht d1 s)"
      "table (ht d1 s) ! i \<noteq> []" "key (table (ht d1 s) ! i ! 0) = new_key ty k"
    using dictAddRaw_effect [OF assms, of can] by auto
  have i1: "dict_inv ty K d1" using d1(2) by (simp add: effect_def)
  obtain d2 where d2: "dictSetVal ty d1 (s, i, 0) v = Some d2" "dictSize d2 = dictSize d1"
      "effect ty K d1 d2 (\<lambda>k'. if dictCompareKeys ty k' (new_key ty k)
         then Some (Some (new_val ty v)) else lookup ty d1 k')"
    using dictSetVal_effect [OF i1 d1(4,5), of 0 v] d1(6,7) by auto
  have "effect ty K d d2 (put ty (lookup ty d) k (Some (Some (new_val ty v))))"
    using d1(2) d2(3) cmp_key_eq [OF k _ dup_K [OF k] dup_cmp [OF k]] by (simp add: effect_def put_def)
  then show ?thesis using True d1(1,3) d2(1,2) by (simp add: dictAdd_def)
qed

lemma dictReplace_effect:
  assumes inv: "dict_inv ty K d" and k: "k \<in> K" and sz: "dictSize d \<le> 2 ^ 30"
  shows "\<exists>d'. dictReplace ty can d k v = Some (d', lookup ty d k = None) \<and>
    effect ty K d d' (put ty (lookup ty d) k (Some (Some (new_val ty v)))) \<and>
    dictSize d' = dictSize d + (if lookup ty d k = None then 1 else 0)"
proof -
  obtain d1 where d1: "dictAdd ty can d k v = Some (d1, lookup ty d k = None)"
      "if lookup ty d k = None
       then effect ty K d d1 (put ty (lookup ty d) k (Some (Some (new_val ty v)))) \<and> dictSize d1 = dictSize d + 1
       else effect ty K d d1 (lookup ty d) \<and> dictSize d1 = dictSize d"
    using dictAdd_effect [OF assms] by blast
  show ?thesis
  proof (cases "lookup ty d k = None")
    case True
    then show ?thesis using d1 by (simp add: dictReplace_def)
  next
    case False
    have e1: "effect ty K d d1 (lookup ty d)" "dictSize d1 = dictSize d" using d1(2) False by auto
    then have i1: "dict_inv ty K d1" and l1: "\<And>k. k \<in> K \<Longrightarrow> lookup ty d1 k = lookup ty d k"
      by (auto simp: effect_def)
    obtain d2 r where f: "dictFind ty d1 k = Some (d2, r)" "effect ty K d1 d2 (lookup ty d1)"
        "dictSize d2 = dictSize d1" "case r of None \<Rightarrow> lookup ty d1 k = None
          | Some (s, i, n) \<Rightarrow> ht_ok ty (ht d2 s) \<and> i < htsize (ht d2 s) \<and> n < length (table (ht d2 s) ! i) \<and>
              dictCompareKeys ty k (key (table (ht d2 s) ! i ! n))"
      using dictFind_effect [OF i1 k] by blast
    obtain s i n where r: "r = Some (s, i, n)" "ht_ok ty (ht d2 s)" "i < htsize (ht d2 s)"
        "n < length (table (ht d2 s) ! i)" "dictCompareKeys ty k (key (table (ht d2 s) ! i ! n))"
      using f(4) False l1 [OF k] by (cases r) auto
    have i2: "dict_inv ty K d2" using f(2) by (simp add: effect_def)
    have xK: "key (table (ht d2 s) ! i ! n) \<in> K"
      using located_in_ents [OF r(2,3,4)] i2 by (auto simp: dict_inv_def)
    obtain d3 where d3: "dictSetVal ty d2 (s, i, n) v = Some d3" "dictSize d3 = dictSize d2"
        "effect ty K d2 d3 (\<lambda>k'. if dictCompareKeys ty k' (key (table (ht d2 s) ! i ! n))
           then Some (Some (new_val ty v)) else lookup ty d2 k')"
      using dictSetVal_effect [OF i2 r(2,3,4), of v] by blast
    have "effect ty K d d3 (put ty (lookup ty d) k (Some (Some (new_val ty v))))"
      using d3(3) f(2) e1(1) l1 cmp_key_eq [OF k _ xK r(5)] by (simp add: effect_def put_def)
    then show ?thesis using False d1(1) f(1,3) r(1) d3(1,2) e1(2) by (simp add: dictReplace_def)
  qed
qed

lemma del_entry_effect:
  assumes inv: "dict_inv ty K d" and L: "ht_ok ty (ht d s)" "i < htsize (ht d s)" "n < length (table (ht d s) ! i)"
    and d': "d' = set_ht d s ((put_chain (ht d s) i (take n (table (ht d s) ! i) @ drop (n + 1) (table (ht d s) ! i)))
               \<lparr>used := used (ht d s) - 1\<rparr>)"
  shows "effect ty K d d' (\<lambda>k'. if dictCompareKeys ty k' (key (table (ht d s) ! i ! n)) then None else lookup ty d k')"
    and "dictSize d = dictSize d' + 1"
proof -
  define c where "c = table (ht d s) ! i"
  define c' where "c' = take n c @ drop (n + 1) c"
  have b: "bucket (hashFunction ty (key x)) (ht d s) = i" if "x \<in> set c'" for x
    using that ht_ok_bucket [OF L(1,2)] by (auto simp: c'_def c_def dest: in_set_takeD in_set_dropD)
  have len: "length c = length c' + 1" using L(3) by (simp add: c'_def c_def)
  have "0 < used (ht d s)"
    using nth_mem [OF L(3)] in_ht_ents [OF L(1)] L(2) ht_ok_used [OF L(1)]
    by (metis gr_zeroI size_eq_0_iff_empty empty_iff set_mset_empty)
  then have n: "used (ht d s) - 1 + length (table (ht d s) ! i) = used (ht d s) + length c'"
    using len by (simp add: c_def)
  have d'c: "d' = set_ht d s ((put_chain (ht d s) i c')\<lparr>used := used (ht d s) - 1\<rparr>)"
    by (simp add: d' c'_def c_def)
  have sh: "shape_ok ty d'" unfolding d'c
    by (rule shape_ok_set_ht [OF dict_inv_shape [OF inv] L(2,1) ht_ok_put(1) [OF L(1,2) b n] refl])
      (use L(3) in auto)
  have "ents d' + mset c = ents d + mset c'"
    unfolding d'c c_def by (rule put_ents [OF L(1,2) b n])
  then have E: "ents d = add_mset (c ! n) (ents d')"
    using nth_split_mset [of n c] L(3) by (simp add: c'_def c_def)
  show "effect ty K d d' (\<lambda>k'. if dictCompareKeys ty k' (key (table (ht d s) ! i ! n)) then None else lookup ty d k')"
    using dict_inv_del [OF inv sh E] by (simp add: effect_def d'c c_def)
  show "dictSize d = dictSize d' + 1"
    using dictSize_ents [OF sh] dictSize_ents [OF dict_inv_shape [OF inv]] E by simp
qed

lemma dictDelete_effect:
  assumes inv: "dict_inv ty K d" and k: "k \<in> K"
  shows "\<exists>d'. dictDelete ty d k = Some (d', lookup ty d k \<noteq> None) \<and>
    effect ty K d d' (if lookup ty d k = None then lookup ty d else put ty (lookup ty d) k None) \<and>
    dictSize d = dictSize d' + (if lookup ty d k = None then 0 else 1)"
proof -
  obtain d1 r where f: "dictFind ty d k = Some (d1, r)" "effect ty K d d1 (lookup ty d)"
      "dictSize d1 = dictSize d" "case r of None \<Rightarrow> lookup ty d k = None
        | Some (s, i, n) \<Rightarrow> ht_ok ty (ht d1 s) \<and> i < htsize (ht d1 s) \<and> n < length (table (ht d1 s) ! i) \<and>
            dictCompareKeys ty k (key (table (ht d1 s) ! i ! n))"
    using dictFind_effect [OF assms] by blast
  have i1: "dict_inv ty K d1" and l1: "\<And>k. k \<in> K \<Longrightarrow> lookup ty d1 k = lookup ty d k"
    using f(2) by (auto simp: effect_def)
  show ?thesis
  proof (cases r)
    case None
    then show ?thesis using f
      by (auto simp: dictDelete_def dictGenericDelete_def dictFind_def Let_def split: if_splits Option.bind_splits)
  next
    case (Some q)
    obtain s i n where q: "q = (s, i, n)" by (cases q) auto
    have L: "ht_ok ty (ht d1 s)" "i < htsize (ht d1 s)" "n < length (table (ht d1 s) ! i)"
        "dictCompareKeys ty k (key (table (ht d1 s) ! i ! n))"
      using f(4) Some q by auto
    note D = del_entry_effect [OF i1 L(1-3) refl]
    have mem: "table (ht d1 s) ! i ! n \<in># ents d1" by (rule located_in_ents [OF L(1-3)])
    then have xK: "key (table (ht d1 s) ! i ! n) \<in> K" using i1 by (auto simp: dict_inv_def)
    have "lookup ty d1 k \<noteq> None" using lookup_None_iff [of d1 k] mem L(4) by blast
    then have lk: "lookup ty d k \<noteq> None" using l1 [OF k] by simp
    let ?d' = "set_ht d1 s ((put_chain (ht d1 s) i (take n (table (ht d1 s) ! i) @ drop (n + 1) (table (ht d1 s) ! i)))
      \<lparr>used := used (ht d1 s) - 1\<rparr>)"
    have "dictDelete ty d k = Some (?d', True)"
      using f(1) L(1,2) unfolding Some q
      by (auto simp: dictDelete_def dictGenericDelete_def dictFind_def Let_def split: if_splits Option.bind_splits)
    moreover have "effect ty K d ?d' (put ty (lookup ty d) k None)"
      using D(1) f(2) l1 cmp_key_eq [OF k _ xK L(4)] by (simp add: effect_def put_def)
    ultimately show ?thesis using lk D(2) f(3) by auto
  qed
qed

lemma dictFetchValue_effect:
  assumes inv: "dict_inv ty K d" and k: "k \<in> K"
  shows "\<exists>d'. dictFetchValue ty d k = Some (d', case lookup ty d k of None \<Rightarrow> None | Some v \<Rightarrow> v) \<and>
    effect ty K d d' (lookup ty d) \<and> dictSize d' = dictSize d"
proof -
  obtain d1 r where f: "dictFind ty d k = Some (d1, r)" "effect ty K d d1 (lookup ty d)"
      "dictSize d1 = dictSize d" "case r of None \<Rightarrow> lookup ty d k = None
        | Some (s, i, n) \<Rightarrow> ht_ok ty (ht d1 s) \<and> i < htsize (ht d1 s) \<and> n < length (table (ht d1 s) ! i) \<and>
            dictCompareKeys ty k (key (table (ht d1 s) ! i ! n))"
    using dictFind_effect [OF assms] by blast
  have i1: "dict_inv ty K d1" and l1: "\<And>k. k \<in> K \<Longrightarrow> lookup ty d1 k = lookup ty d k"
    using f(2) by (auto simp: effect_def)
  show ?thesis
  proof (cases r)
    case None
    then show ?thesis using f by (simp add: dictFetchValue_def)
  next
    case (Some q)
    obtain s i n where q: "q = (s, i, n)" by (cases q) auto
    have L: "ht_ok ty (ht d1 s)" "i < htsize (ht d1 s)" "n < length (table (ht d1 s) ! i)"
        "dictCompareKeys ty k (key (table (ht d1 s) ! i ! n))"
      using f(4) Some q by auto
    have "lookup ty d1 k = Some (val (table (ht d1 s) ! i ! n))"
      using lookup_Some_iff [OF i1 k] located_in_ents [OF L(1-3)] L(4) by blast
    then show ?thesis using f L l1 [OF k] unfolding Some q
      by (simp add: dictFetchValue_def entry_at_def)
  qed
qed

text \<open>Any run of operations behaves as on a map.\<close>

lemma map_op_agree:
  assumes "op_keys x \<subseteq> K" "\<And>k. k \<in> K \<Longrightarrow> f k = g k"
  shows "snd (map_op ty f x) = snd (map_op ty g x)" and "k \<in> K \<Longrightarrow> fst (map_op ty f x) k = fst (map_op ty g x) k"
  using assms by (cases x; simp add: put_def)+

lemma map_ops_agree:
  assumes "\<forall>x\<in>set xs. op_keys x \<subseteq> K" "\<And>k. k \<in> K \<Longrightarrow> f k = g k"
  shows "snd (map_ops ty f xs) = snd (map_ops ty g xs)" and "k \<in> K \<Longrightarrow> fst (map_ops ty f xs) k = fst (map_ops ty g xs) k"
proof -
  have "snd (map_ops ty f xs) = snd (map_ops ty g xs) \<and> (\<forall>k\<in>K. fst (map_ops ty f xs) k = fst (map_ops ty g xs) k)"
    using assms
  proof (induction xs arbitrary: f g)
    case (Cons x xs)
    have "op_keys x \<subseteq> K" using Cons.prems(1) by simp
    note A = map_op_agree [OF this Cons.prems(2)]
    have "\<forall>x\<in>set xs. op_keys x \<subseteq> K" using Cons.prems(1) by simp
    from Cons.IH [OF this A(2)] A(1) show ?case by (simp add: split_beta)
  qed simp
  then show "snd (map_ops ty f xs) = snd (map_ops ty g xs)"
    and "k \<in> K \<Longrightarrow> fst (map_ops ty f xs) k = fst (map_ops ty g xs) k" by auto
qed

lemma run_op_effect:
  assumes inv: "dict_inv ty K d" and k: "op_keys x \<subseteq> K" and sz: "dictSize d \<le> 2 ^ 30"
  shows "\<exists>d' can'. run_op ty (d, can) x = Some ((d', can'), snd (map_op ty (lookup ty d) x)) \<and>
    effect ty K d d' (fst (map_op ty (lookup ty d) x)) \<and> dictSize d' \<le> dictSize d + 1"
proof (cases x)
  case (Rehash n)
  obtain d' more where r: "dictRehash ty n d = Some (d', more)" "shape_ok ty d'" "ents d' = ents d"
      "iterators d' = iterators d"
    using dictRehash_ok [OF dict_inv_shape [OF inv], of n] by blast
  have "dictSize d' = dictSize d"
    using dictSize_ents [OF r(2)] dictSize_ents [OF dict_inv_shape [OF inv]] r(3) by simp
  then show ?thesis using Rehash r(1) effect_same [OF inv r(2-4)] by simp
next
  case Resize
  have "dictSize d \<le> 2 ^ 31" using sz by simp
  note R = dictResize_ok [OF dict_inv_shape [OF inv] this, of can]
  have "dictSize (fst (dictResize can d)) = dictSize d"
    using dictSize_ents [of "fst (dictResize can d)"] dictSize_ents [OF dict_inv_shape [OF inv]] R by simp
  then show ?thesis using Resize effect_same [OF inv] R by simp
next
  case (Delete k)
  then show ?thesis using dictDelete_effect [OF inv, of k] k by (auto split: if_splits)
next
  case (Add k v)
  then show ?thesis using dictAdd_effect [OF inv _ sz, of k can v] k by (auto split: if_splits)
next
  case (Replace k v)
  then show ?thesis using dictReplace_effect [OF inv _ sz, of k can v] k by (auto split: if_splits)
next
  case (FetchValue k)
  then show ?thesis using dictFetchValue_effect [OF inv, of k] k by auto
qed (use inv in \<open>auto simp: effect_def\<close>)

lemma run_ops_effect:
  assumes "dict_inv ty K d" "\<forall>x\<in>set xs. op_keys x \<subseteq> K" "dictSize d + length xs \<le> 2 ^ 30"
  shows "\<exists>d' can'. run_ops ty (d, can) xs = Some ((d', can'), snd (map_ops ty (lookup ty d) xs)) \<and>
    effect ty K d d' (fst (map_ops ty (lookup ty d) xs))"
  using assms
proof (induction xs arbitrary: d can)
  case Nil
  then show ?case by (simp add: effect_def)
next
  case (Cons x xs)
  obtain d1 can1 where d1: "run_op ty (d, can) x = Some ((d1, can1), snd (map_op ty (lookup ty d) x))"
      "effect ty K d d1 (fst (map_op ty (lookup ty d) x))" "dictSize d1 \<le> dictSize d + 1"
    using run_op_effect [OF Cons.prems(1), of x can] Cons.prems(2,3) by auto
  have i1: "dict_inv ty K d1" and l1: "\<And>k. k \<in> K \<Longrightarrow> lookup ty d1 k = fst (map_op ty (lookup ty d) x) k"
    using d1(2) by (auto simp: effect_def)
  have xs: "\<forall>x\<in>set xs. op_keys x \<subseteq> K" using Cons.prems(2) by simp
  obtain d2 can2 where d2: "run_ops ty (d1, can1) xs = Some ((d2, can2), snd (map_ops ty (lookup ty d1) xs))"
      "effect ty K d1 d2 (fst (map_ops ty (lookup ty d1) xs))"
    using Cons.IH [OF i1 xs, of can1] Cons.prems(3) d1(3) by fastforce
  note A = map_ops_agree [OF xs, of "lookup ty d1" "fst (map_op ty (lookup ty d) x)", OF l1]
  show ?case
    using d1(1,2) d2 A by (simp add: split_beta effect_def)
qed

lemma dictCreate_inv: "dict_inv ty K dictCreate"
  by (simp add: dict_inv_def shape_ok_def dictCreate_def dictIsRehashing_def ents_def matching_def)

lemma run_ops_new:
  assumes "\<forall>x\<in>set xs. op_keys x \<subseteq> K" "length xs \<le> 2 ^ 30"
  shows "\<exists>d can'. run_ops ty (dictCreate, can) xs = Some ((d, can'), snd (map_ops ty (\<lambda>_. None) xs)) \<and>
    dict_inv ty K d \<and> (\<forall>k\<in>K. lookup ty d k = fst (map_ops ty (\<lambda>_. None) xs) k)"
proof -
  have "lookup ty dictCreate = (\<lambda>_. None)" "dictSize (dictCreate :: ('k, 'v) dict) = 0"
    by (auto simp: lookup_def dictCreate_def dictReset_def dictSize_def)
  then show ?thesis
    using run_ops_effect [OF dictCreate_inv, of xs can] assms by (auto simp: effect_def)
qed

end

subsection \<open>The key types of the server\<close>

definition dictSdsKeyCompare :: "bytes \<Rightarrow> bytes \<Rightarrow> bool" where
  "dictSdsKeyCompare key1 key2 =
     (if length key1 \<noteq> length key2 then False else memcmp key1 key2 = 0)"

definition dictSdsKeyCaseCompare :: "bytes \<Rightarrow> bytes \<Rightarrow> bool" where
  "dictSdsKeyCaseCompare key1 key2 = strcaseeq (c_str key1) (c_str key2)"

definition dictSdsHash :: "u32 \<Rightarrow> bytes \<Rightarrow> u32" where
  "dictSdsHash seed k = dictGenHashFunction seed k"

definition dictSdsCaseHash :: "u32 \<Rightarrow> bytes \<Rightarrow> u32" where
  "dictSdsCaseHash seed k = dictGenCaseHashFunction seed k"

definition dbDictType :: "u32 \<Rightarrow> (bytes, 'v) dictType" where
  "dbDictType seed =
     \<lparr>hashFunction = dictSdsHash seed, keyDup = None, valDup = None, keyCompare = Some dictSdsKeyCompare\<rparr>"

definition commandTableDictType :: "u32 \<Rightarrow> (bytes, 'v) dictType" where
  "commandTableDictType seed =
     \<lparr>hashFunction = dictSdsCaseHash seed, keyDup = None, valDup = None,
      keyCompare = Some dictSdsKeyCaseCompare\<rparr>"

definition lookupCommand ::
  "u32 \<Rightarrow> (bytes, 'c) dict \<Rightarrow> bytes \<Rightarrow> ((bytes, 'c) dict \<times> 'c option) option" where
  "lookupCommand seed commands name = dictFetchValue (commandTableDictType seed) commands name"

lemma dictSdsKeyCompare_eq: "dictSdsKeyCompare k1 k2 \<longleftrightarrow> k1 = k2"
  using memcmp_eq_0 [of k1 k2] by (cases "length k1 = length k2") (auto simp: dictSdsKeyCompare_def)

lemma casehash_tolower: "map tolower a = map tolower b \<Longrightarrow> casehash_loop a h = casehash_loop b h"
proof (induction a arbitrary: b h)
  case (Cons x a)
  then obtain y b' where b: "b = y # b'" "tolower x = tolower y" "map tolower a = map tolower b'"
    by (metis list.simps(9) map_eq_Cons_D list.inject)
  show ?case unfolding b(1) casehash_loop.simps b(2) by (rule Cons.IH [OF b(3)])
qed simp

text \<open>
  Names of commands are NUL-free C strings: on these the case-insensitive comparison (which stops
  at a NUL) and the case-insensitive hash (which does not) agree.
\<close>

definition cstrings :: "bytes set" where
  "cstrings = {s. NUL \<notin> set s}"

interpretation dbd: dict_type "dbDictType seed" UNIV for seed
  by unfold_locales (auto simp: dictCompareKeys_def dbDictType_def dictSdsKeyCompare_eq new_key_def)

interpretation cmdd: dict_type "commandTableDictType seed" cstrings for seed
  by unfold_locales
    (auto simp: dictCompareKeys_def commandTableDictType_def dictSdsKeyCaseCompare_def strcaseeq_def
      cstrings_def new_key_def dictSdsCaseHash_def dictGenCaseHashFunction_def intro: casehash_tolower)

text \<open>
  C5. Whatever sequence of \<open>dictAdd\<close>, \<open>dictReplace\<close>, \<open>dictDelete\<close>, \<open>dictFetchValue\<close>, rehashing and
  resizing calls is made on a new dictionary of the keyspace type (with the hash function of the
  server and any seed), every call returns without leaving a table, gives the answer a finite map
  from binary-safe keys would give, and the dictionary ends up holding that map: growing, shrinking
  and incremental rehashing at any moment are invisible. The bound is the one under which a bucket
  index fits an \<open>int\<close>.
\<close>

theorem dict_refines_map:
  assumes "length xs \<le> 2 ^ 30"
  shows "\<exists>d can'. run_ops (dbDictType seed) (dictCreate, can) xs =
      Some ((d, can'), snd (map_ops (dbDictType seed) (\<lambda>_. None) xs)) \<and>
    (\<forall>k. lookup (dbDictType seed) d k = fst (map_ops (dbDictType seed) (\<lambda>_. None) xs) k)"
  using dbd.run_ops_new [of xs seed can] assms by auto

theorem dict_refines_map_witness:
  "\<exists>d can'. run_ops (dbDictType 5381) (dictCreate, True)
      [Add ''a'' (1 :: nat), Add ''b'' 2, Replace ''a'' 3, Delete ''b'', Add ''a'' 4, FetchValue ''a'', FetchValue ''b''] =
    Some ((d, can'), [Code True, Code True, Code False, Code True, Code False, Value (Some 3), Value None])"
  using dict_refines_map [of "[Add ''a'' (1 :: nat), Add ''b'' 2, Replace ''a'' 3, Delete ''b'', Add ''a'' 4,
      FetchValue ''a'', FetchValue ''b'']" 5381 True]
  by (auto simp: put_def dictCompareKeys_def dbDictType_def dictSdsKeyCompare_eq new_val_def)

text \<open>
  C23. Incremental rehashing never loses, duplicates or misplaces an entry: in every well-formed
  state \<open>dictRehash\<close> runs without its \<open>assert\<close> failing or a table being left, keeps the tables well
  formed and the multiset of entries unchanged, and it reports completion (with the new table in
  place of the old one) whenever it is given more steps than there are buckets left to move.
\<close>

theorem dictRehash_keeps_entries:
  assumes "shape_ok ty d"
  shows "\<exists>d' more. dictRehash ty n d = Some (d', more) \<and> shape_ok ty d' \<and> ents d' = ents d \<and>
    dictIsRehashing d' = more \<and> (to_move d < n \<longrightarrow> \<not> more)"
  using dictRehash_ok [OF assms, of n] by fastforce

definition rehashing_dict :: "(u32, nat) dict" where
  "rehashing_dict =
     \<lparr>ht0 = \<lparr>table = [[], [\<lparr>key = 5, val = Some 1\<rparr>, \<lparr>key = 1, val = Some 2\<rparr>], [], [\<lparr>key = 3, val = Some 3\<rparr>]],
             htsize = 4, sizemask = 3, used = 3\<rparr>,
      ht1 = \<lparr>table = [[], [], [], [], [\<lparr>key = 4, val = Some 4\<rparr>], [], [], []], htsize = 8, sizemask = 7, used = 1\<rparr>,
      rehashidx = 1, iterators = 0\<rparr>"

definition identityType :: "(u32, nat) dictType" where
  "identityType = \<lparr>hashFunction = dictIdentityHashFunction, keyDup = None, valDup = None, keyCompare = None\<rparr>"

text \<open>An executable form of the table invariant, for concrete tables.\<close>

definition ht_check :: "('k, 'v) dictType \<Rightarrow> nat \<Rightarrow> ('k, 'v) dictht \<Rightarrow> bool" where
  "ht_check ty b t \<longleftrightarrow>
     length (table t) = htsize t \<and> used t = length (concat (table t)) \<and> 2 \<le> b \<and> b \<le> 31 \<and>
     htsize t = 2 ^ b \<and> sizemask t = mask b \<and>
     list_all (\<lambda>i. list_all (\<lambda>e. bucket (hashFunction ty (key e)) t = i) (table t ! i)) [0..<htsize t]"

lemma ht_check_ok: "ht_check ty b t \<Longrightarrow> ht_ok ty t"
  by (auto simp: ht_check_def ht_ok_def list_all_iff)

lemma rehashing_dict_ok: "shape_ok identityType rehashing_dict"
proof -
  have "ht_check identityType 2 (ht0 rehashing_dict)" "ht_check identityType 3 (ht1 rehashing_dict)"
    by code_simp+
  then show ?thesis
    by (auto simp: shape_ok_def rehash_ok_def dictIsRehashing_def dest!: ht_check_ok)
      (simp_all add: rehashing_dict_def)
qed

theorem dictRehash_keeps_entries_witness:
  "\<exists>d'. dictRehash identityType 3 rehashing_dict = Some (d', False) \<and> ents d' = ents rehashing_dict"
  using dictRehash_keeps_entries [OF rehashing_dict_ok, of 3]
  by (auto simp: to_move_def rehashing_dict_def)



end
