(* ===== verification/Cursor.thy ===== *)
theory Cursor
  imports Prelude
begin

text \<open>
  The arithmetic of the scan cursor of \<open>src/lib/src/dict.c\<close>: the bit reversal, the increment of the
  reversed cursor and the increment of the bits not covered by the smaller mask. The lemmas give
  each of them as arithmetic on the order of the reversed cursors.
\<close>

definition rev_mask_step :: "nat \<Rightarrow> u64 \<Rightarrow> u64" where
  "rev_mask_step s m = m XOR push_bit s m"

definition rev_step :: "nat \<Rightarrow> u64 \<Rightarrow> u64 \<Rightarrow> u64" where
  "rev_step s m v = ((drop_bit s v AND m) OR (push_bit s v AND NOT m))"

function rev_loop :: "nat \<Rightarrow> u64 \<Rightarrow> u64 \<Rightarrow> u64" where
  "rev_loop s m v =
     (if s div 2 > 0
      then rev_loop (s div 2) (rev_mask_step (s div 2) m) (rev_step (s div 2) (rev_mask_step (s div 2) m) v)
      else v)"
  by pat_completeness auto

termination rev_loop
  by (relation "measure (\<lambda>(s, m, v). s)") auto

declare rev_loop.simps [simp del]

definition revbits :: "u64 \<Rightarrow> u64" where
  "revbits v = rev_loop 64 (NOT 0) v"

definition expand_next :: "u64 \<Rightarrow> u64 \<Rightarrow> u64" where
  "expand_next m0 v = (((v OR m0) + 1) AND NOT m0) OR (v AND m0)"

definition advance :: "u64 \<Rightarrow> u64 \<Rightarrow> u64" where
  "advance m0 v = revbits (revbits (v OR NOT m0) + 1)"

subsection \<open>Reversing the bits\<close>

definition swap_index :: "nat \<Rightarrow> nat \<Rightarrow> nat" where
  "swap_index s n = (if even (n div s) then n + s else n - s)"

lemma rev_masks:
  "rev_mask_step 32 (- 1) = 0x00000000FFFFFFFF"
  "rev_mask_step 16 0x00000000FFFFFFFF = 0x0000FFFF0000FFFF"
  "rev_mask_step 8 0x0000FFFF0000FFFF = 0x00FF00FF00FF00FF"
  "rev_mask_step 4 0x00FF00FF00FF00FF = 0x0F0F0F0F0F0F0F0F"
  "rev_mask_step 2 0x0F0F0F0F0F0F0F0F = 0x3333333333333333"
  "rev_mask_step (Suc 0) 0x3333333333333333 = 0x5555555555555555"
  by code_simp+

lemma revbits_steps:
  "revbits v = rev_step 1 0x5555555555555555 (rev_step 2 0x3333333333333333
     (rev_step 4 0x0F0F0F0F0F0F0F0F (rev_step 8 0x00FF00FF00FF00FF
       (rev_step 16 0x0000FFFF0000FFFF (rev_step 32 0x00000000FFFFFFFF v)))))"
  unfolding revbits_def
  by (simp add: rev_loop.simps [of 64] rev_loop.simps [of 32] rev_loop.simps [of 16]
      rev_loop.simps [of 8] rev_loop.simps [of 4] rev_loop.simps [of 2] rev_loop.simps [of "Suc 0"] rev_masks)

lemma bit_rev_step:
  assumes m: "list_all (\<lambda>n. bit m n = even (n div s)) [0..<64]" and n: "n < 64" and s: "0 < s"
    and r: "swap_index s n < 64"
  shows "bit (rev_step s m v) n = bit v (swap_index s n)"
proof -
  have "bit m n = even (n div s)" using m n by (simp add: list_all_iff)
  moreover have "s \<le> n" if "odd (n div s)" using that by (metis div_less even_zero not_le)
  ultimately show ?thesis
    using n r by (auto simp: rev_step_def swap_index_def bit_simps add.commute)
qed

lemma swap_indices:
  "list_all (\<lambda>n. bit (0x5555555555555555 :: u64) n = even (n div 1)) [0..<64]"
  "list_all (\<lambda>n. bit (0x3333333333333333 :: u64) n = even (n div 2)) [0..<64]"
  "list_all (\<lambda>n. bit (0x0F0F0F0F0F0F0F0F :: u64) n = even (n div 4)) [0..<64]"
  "list_all (\<lambda>n. bit (0x00FF00FF00FF00FF :: u64) n = even (n div 8)) [0..<64]"
  "list_all (\<lambda>n. bit (0x0000FFFF0000FFFF :: u64) n = even (n div 16)) [0..<64]"
  "list_all (\<lambda>n. bit (0x00000000FFFFFFFF :: u64) n = even (n div 32)) [0..<64]"
  by code_simp+

lemma swap_chain:
  "list_all (\<lambda>n. swap_index 1 n < 64 \<and> swap_index 2 n < 64 \<and> swap_index 4 n < 64 \<and>
     swap_index 8 n < 64 \<and> swap_index 16 n < 64 \<and> swap_index 32 n < 64 \<and>
     swap_index 32 (swap_index 16 (swap_index 8 (swap_index 4 (swap_index 2 (swap_index 1 n))))) = 63 - n) [0..<64]"
  by code_simp

lemma swap_index_less:
  assumes "n < 64"
  shows "swap_index 1 n < 64" "swap_index 2 n < 64" "swap_index 4 n < 64"
    "swap_index 8 n < 64" "swap_index 16 n < 64" "swap_index 32 n < 64"
    "swap_index 32 (swap_index 16 (swap_index 8 (swap_index 4 (swap_index 2 (swap_index 1 n))))) = 63 - n"
  using swap_chain assms by (simp_all add: list_all_iff)

lemma bit_revbits:
  assumes "n < 64"
  shows "bit (revbits v) n = bit v (63 - n)"
  unfolding revbits_steps
  by (simp only: bit_rev_step swap_indices swap_index_less assms zero_less_numeral zero_less_one)

lemma revbits_revbits [simp]: "revbits (revbits v) = v"
  by (rule bit_word_eqI) (simp add: bit_revbits)

subsection \<open>The order of the cursors\<close>

text \<open>
  Cursors and hashes are ordered by their reversed bits. The entries whose hash agrees with a
  cursor on the low \<open>b\<close> bits form a block of \<open>2 ^ (64 - b)\<close> consecutive places of this order.
\<close>

definition place :: "u64 \<Rightarrow> nat" where
  "place v = unat (revbits v)"

lemma place_less: "place v < 2 ^ 64"
  using unat_u64_less [of "revbits v"] by (simp add: place_def)

lemma drop_bit_revbits:
  assumes "b \<le> 64"
  shows "drop_bit (64 - b) (revbits u) = drop_bit (64 - b) (revbits v) \<longleftrightarrow> take_bit b u = take_bit b v"
proof -
  have l: "bit (drop_bit (64 - b) (revbits u)) n = (n < b \<and> bit u (b - 1 - n))" if "n < 64" for n u
  proof (cases "n < b")
    case True
    then have "63 - (64 - b + n) = b - 1 - n" "64 - b + n < 64" using assms by auto
    then show ?thesis using True by (simp add: bit_drop_bit_eq bit_revbits)
  next
    case False
    then show ?thesis using assms by (auto simp: bit_drop_bit_eq dest: bit_imp_le_length)
  qed
  have "drop_bit (64 - b) (revbits u) = drop_bit (64 - b) (revbits v) \<longleftrightarrow>
      (\<forall>n<64. n < b \<longrightarrow> bit u (b - 1 - n) = bit v (b - 1 - n))"
    unfolding bit_eq_iff [where 'a = u64] by (auto simp: l)
  also have "\<dots> \<longleftrightarrow> (\<forall>n<b. bit u n = bit v n)"
  proof
    assume H: "\<forall>n<64. n < b \<longrightarrow> bit u (b - 1 - n) = bit v (b - 1 - n)"
    show "\<forall>n<b. bit u n = bit v n"
    proof (intro allI impI)
      fix n assume "n < b"
      then have "b - 1 - n < 64" "b - 1 - n < b" "b - 1 - (b - 1 - n) = n" using assms by auto
      then show "bit u n = bit v n" using H by metis
    qed
  qed auto
  also have "\<dots> \<longleftrightarrow> take_bit b u = take_bit b v"
    unfolding bit_eq_iff [where 'a = u64] using assms
    by (simp add: bit_take_bit_iff) (meson less_le_trans)
  finally show ?thesis .
qed

text \<open>Agreement on the low \<open>b\<close> bits is being in the same block.\<close>

lemma same_block:
  assumes "b \<le> 64"
  shows "u AND mask b = v AND mask b \<longleftrightarrow> place u div 2 ^ (64 - b) = place v div 2 ^ (64 - b)"
  unfolding place_def unat_drop_bit [symmetric] take_bit_eq_mask [symmetric]
  using drop_bit_revbits [OF assms] by (metis word_unat_eq_iff)

lemma revbits_or_not_mask:
  assumes "b \<le> 64"
  shows "revbits (v OR NOT (mask b)) = revbits v OR mask (64 - b)"
  by (rule bit_word_eqI) (use assms in \<open>auto simp: bit_revbits bit_or_iff bit_not_iff bit_mask_iff\<close>)

text \<open>The next cursor is the first place after the block.\<close>

lemma place_advance:
  assumes "b \<le> 64"
  shows "place (advance (mask b) v) = (place v div 2 ^ (64 - b) + 1) * 2 ^ (64 - b) mod 2 ^ 64"
  unfolding place_def advance_def revbits_revbits revbits_or_not_mask [OF assms] unat_plus_one
  by (subst unat_or_mask, simp, subst block_plus) simp_all

text \<open>Either the whole order is exhausted and the cursor is 0, or it moved past its block.\<close>

lemma place_advance_cases:
  assumes "b \<le> 64"
  shows "(advance (mask b) v = 0 \<and> place v div 2 ^ (64 - b) + 1 = 2 ^ b) \<or>
    place (advance (mask b) v) = (place v div 2 ^ (64 - b) + 1) * 2 ^ (64 - b)"
proof -
  have e: "(2 :: nat) ^ 64 = 2 ^ b * 2 ^ (64 - b)" using assms by (simp flip: power_add)
  have "place v div 2 ^ (64 - b) < 2 ^ b"
    using place_less [of v] unfolding e by (simp add: less_mult_imp_div_less)
  then consider "place v div 2 ^ (64 - b) + 1 = 2 ^ b" | "place v div 2 ^ (64 - b) + 1 < 2 ^ b" by linarith
  then show ?thesis
  proof cases
    case 1
    then have "place (advance (mask b) v) = 0" unfolding place_advance [OF assms] e by simp
    then have "revbits (advance (mask b) v) = 0" by (simp add: place_def unat_eq_0)
    then have "advance (mask b) v = revbits 0" by (metis revbits_revbits)
    also have "\<dots> = 0" by code_simp
    finally show ?thesis using 1 by simp
  next
    case 2
    then have "(place v div 2 ^ (64 - b) + 1) * 2 ^ (64 - b) < 2 ^ 64"
      unfolding e by (intro mult_strict_right_mono) simp_all
    then show ?thesis unfolding place_advance [OF assms] by simp
  qed
qed

subsection \<open>The bits between the two masks\<close>

lemma unat_expand:
  assumes "k \<le> 64"
  shows "unat (expand_next (mask k) v) =
    (unat v div 2 ^ k + 1) * 2 ^ k mod 2 ^ 64 + unat v mod 2 ^ k"
proof -
  define x where "x = ((v OR mask k) + 1) AND NOT (mask k)"
  have "x AND (v AND mask k) = 0" unfolding x_def by (rule bit_word_eqI) (auto simp: bit_simps)
  then have "x OR (v AND mask k) = x + (v AND mask k)" by (simp add: disjunctive_add_eq_or)
  have ux: "unat x = (unat v div 2 ^ k + 1) * 2 ^ k mod 2 ^ 64"
  proof -
    have "unat ((v OR mask k) + 1) = (unat v div 2 ^ k + 1) * 2 ^ k mod 2 ^ 64"
      unfolding unat_plus_one unat_or_mask [OF assms] block_plus [OF assms] ..
    moreover have "(2 :: nat) ^ k dvd (unat v div 2 ^ k + 1) * 2 ^ k mod 2 ^ 64"
      by (rule dvd_mod) (use assms in \<open>simp_all only: dvd_triv_right le_imp_power_dvd\<close>)
    ultimately show ?thesis unfolding x_def unat_and_not_mask by simp
  qed
  have "unat x AND unat (v AND mask k) = 0"
    using \<open>x AND (v AND mask k) = 0\<close> by (metis unsigned_and_eq unsigned_0)
  then have "unat (x OR (v AND mask k)) = unat x + unat (v AND mask k)"
    unfolding unsigned_or_eq by (simp add: disjunctive_add_eq_or)
  then show ?thesis using ux by (simp add: x_def unat_and_mask expand_next_def)
qed

definition mid :: "nat \<Rightarrow> nat \<Rightarrow> u64 \<Rightarrow> nat" where
  "mid a b v = (unat v div 2 ^ a) mod 2 ^ (b - a)"

lemma expand_next_parts:
  assumes "a \<le> b" "b \<le> 64"
  shows "unat (expand_next (mask a) v) mod 2 ^ a = unat v mod 2 ^ a"
    and "mid a b (expand_next (mask a) v) = (mid a b v + 1) mod 2 ^ (b - a)"
proof -
  let ?X = "unat v div 2 ^ a"
  have e: "(2 :: nat) ^ 64 = 2 ^ (64 - a) * 2 ^ a" using assms by (simp flip: power_add)
  have u: "unat (expand_next (mask a) v) = ((?X + 1) mod 2 ^ (64 - a)) * 2 ^ a + unat v mod 2 ^ a"
    using assms by (subst unat_expand) (simp_all only: e mult_mod_left)
  show "unat (expand_next (mask a) v) mod 2 ^ a = unat v mod 2 ^ a" unfolding u by simp
  have "unat (expand_next (mask a) v) div 2 ^ a = (?X + 1) mod 2 ^ (64 - a)" unfolding u by simp
  moreover have "(2 :: nat) ^ (b - a) dvd 2 ^ (64 - a)" using assms by (intro le_imp_power_dvd) simp
  ultimately show "mid a b (expand_next (mask a) v) = (mid a b v + 1) mod 2 ^ (b - a)"
    by (simp add: mid_def mod_mod_cancel mod_Suc_eq)
qed

lemma mid_test:
  assumes "a \<le> b" "b \<le> 64"
  shows "v AND (mask a XOR mask b) = 0 \<longleftrightarrow> mid a b v = 0"
proof -
  have "v AND (mask a XOR mask b) = push_bit a (take_bit (b - a) (drop_bit a v))"
    by (rule bit_word_eqI) (use assms in \<open>auto simp: bit_simps\<close>)
  moreover have "unat (push_bit a (take_bit (b - a) (drop_bit a v))) = push_bit a (take_bit (b - a) (drop_bit a (unat v)))"
    by (rule bit_eqI) (use assms in \<open>auto simp: bit_simps dest: bit_imp_le_length\<close>)
  ultimately have "unat (v AND (mask a XOR mask b)) = mid a b v * 2 ^ a"
    by (simp add: mid_def push_bit_eq_mult take_bit_eq_mod drop_bit_eq_div)
  then show ?thesis by (metis mult_eq_0_iff power_not_zero unat_eq_0 zero_neq_numeral)
qed

text \<open>The bucket of a cursor in the larger table.\<close>

lemma unat_and_mask_mid:
  assumes "a \<le> b"
  shows "unat (v AND mask b) = unat v mod 2 ^ a + mid a b v * 2 ^ a"
proof -
  have "(2 :: nat) ^ b = 2 ^ a * 2 ^ (b - a)" using assms by (simp flip: power_add)
  then show ?thesis unfolding unat_and_mask mid_def by (simp add: mod_mult2_eq)
qed

text \<open>
  With one bit between the masks, a hash in the block of the cursor that is not before the cursor
  has that bit set if the cursor has.
\<close>

lemma bit_unat_odd: "bit (v :: u64) n = odd (unat v div 2 ^ n)"
  by (simp only: bit_iff_odd [symmetric] bit_unsigned_iff) simp

lemma mid_bit: "mid a (Suc a) v = (if bit v a then 1 else 0)"
  by (simp add: mid_def bit_unat_odd mod2_eq_if)

lemma place_bit:
  assumes "a < 64"
  shows "place v div 2 ^ (63 - a) = place v div 2 ^ (64 - a) * 2 + (if bit v a then 1 else 0)"
proof -
  have e: "64 - a = Suc (63 - a)" using assms by simp
  have "bit v a = odd (place v div 2 ^ (63 - a))"
    using bit_revbits [of "63 - a" v] assms by (simp add: place_def bit_unat_odd)
  moreover have "x = x div 2 * 2 + (if odd x then 1 else 0)" for x :: nat by presburger
  ultimately show ?thesis unfolding e power_Suc2 div_mult2_eq by auto
qed

lemma mid_mono:
  assumes a: "a < 64" and same: "place h div 2 ^ (64 - a) = place v div 2 ^ (64 - a)" and le: "place v \<le> place h"
  shows "mid a (Suc a) v \<le> mid a (Suc a) h"
proof -
  have "place v div 2 ^ (63 - a) \<le> place h div 2 ^ (63 - a)" using le by (rule div_le_mono)
  then show ?thesis using same unfolding place_bit [OF a] mid_bit by auto
qed

lemma advance_cong:
  assumes "u AND m = v AND m"
  shows "advance m u = advance m v"
proof -
  have "u OR NOT m = (u AND m) OR NOT m" "v OR NOT m = (v AND m) OR NOT m"
    by (rule bit_word_eqI; auto simp: bit_simps)+
  then show ?thesis using assms by (simp add: advance_def)
qed

text \<open>What lies between a cursor and the next one is in the block of the cursor.\<close>

lemma between_cursors:
  assumes b: "b \<le> 64" and p: "place v \<le> place u" and n: "advance (mask b) v = 0 \<or> place u < place (advance (mask b) v)"
  shows "u AND mask b = v AND mask b"
proof -
  have e: "(2 :: nat) ^ 64 = 2 ^ b * 2 ^ (64 - b)" using b by (simp flip: power_add)
  have "place u div 2 ^ (64 - b) < 2 ^ b"
    using place_less [of u] unfolding e by (simp add: less_mult_imp_div_less)
  moreover have "place 0 = 0" by code_simp
  ultimately have "place u div 2 ^ (64 - b) < place v div 2 ^ (64 - b) + 1"
    using n place_advance_cases [OF b, of v]
    by (metis add_gr_0 less_mult_imp_div_less mult_is_0 not_one_le_zero order_refl power_not_zero zero_less_one zero_neq_numeral less_numeral_extra(3))
  then show ?thesis using div_le_mono [OF p, of "2 ^ (64 - b)"] by (simp add: same_block [OF b])
qed

lemma advance_progress:
  assumes "b \<le> 64"
  shows "advance (mask b) v = 0 \<or> place v < place (advance (mask b) v)"
proof -
  have "place v < (place v div 2 ^ (64 - b) + 1) * 2 ^ (64 - b)"
    using dividend_less_div_times [of "2 ^ (64 - b)" "place v"] by simp
  then show ?thesis using place_advance_cases [OF assms, of v] by auto
qed

lemma place_eq_0: "place v = 0 \<Longrightarrow> v = 0"
proof -
  assume "place v = 0"
  then have "v = revbits 0" by (metis place_def revbits_revbits unat_eq_0)
  also have "\<dots> = 0" by code_simp
  finally show ?thesis .
qed

text \<open>A cursor at the start of a block has no bits above the mask.\<close>

lemma high_bits_clear:
  assumes "place v = q * 2 ^ (64 - a)" "a \<le> b" "b \<le> 64"
  shows "v AND (mask a XOR mask b) = 0"
proof -
  have clear: "\<not> bit v n" if "a \<le> n" "n < 64" for n
  proof -
    have e: "(2 :: nat) ^ (64 - a) = 2 ^ (63 - n) * (2 ^ (n - a) * 2)"
    proof -
      have "64 - a = (63 - n) + ((n - a) + 1)" using that by linarith
      then show ?thesis by (simp only: power_add power_one_right)
    qed
    have "bit v n = bit (revbits v) (63 - n)" using bit_revbits [of "63 - n" v] that by simp
    also have "\<dots> = odd (q * 2 ^ (64 - a) div 2 ^ (63 - n))" using assms(1) by (simp add: bit_unat_odd place_def)
    also have "q * 2 ^ (64 - a) div 2 ^ (63 - n) = q * (2 ^ (n - a) * 2)" unfolding e by simp
    finally show ?thesis by simp
  qed
  show ?thesis
  proof (rule bit_word_eqI)
    fix n assume "n < LENGTH(64)"
    then show "bit (v AND (mask a XOR mask b)) n = bit (0 :: u64) n"
      using clear [of n] assms(2) by (cases "a \<le> n") (auto simp: bit_simps)
  qed
qed

end
