(* ===== verification/DictScan.thy ===== *)
theory DictScan
  imports DictMap Cursor
begin

text \<open>
  \<open>dictScan\<close> of \<open>src/lib/src/dict.c\<close>, the stateless iteration with a cursor that is incremented from
  its high bits down. The callback is the list of the entries it is called on, in order; the
  expansion loop of the larger table is a partial function, shown to return.
\<close>

partial_function (option) expand_loop ::
  "('k, 'v) dictht \<Rightarrow> u64 \<Rightarrow> u64 \<Rightarrow> u64 \<Rightarrow> (u64 \<times> ('k, 'v) dictEntry list) option" where
  "expand_loop t1 m0 m1 v =
     do {
       de \<leftarrow> chain_at t1 (unat (v AND m1));
       let v1 = expand_next m0 v;
       if v1 AND (m0 XOR m1) \<noteq> 0
       then do { (v2, es) \<leftarrow> expand_loop t1 m0 m1 v1; Some (v2, de @ es) }
       else Some (v1, de)
     }"

definition smaller :: "('k, 'v) dict \<Rightarrow> ('k, 'v) dictht" where
  "smaller d = (if htsize (ht0 d) > htsize (ht1 d) then ht1 d else ht0 d)"

definition larger :: "('k, 'v) dict \<Rightarrow> ('k, 'v) dictht" where
  "larger d = (if htsize (ht0 d) > htsize (ht1 d) then ht0 d else ht1 d)"

definition dictScan :: "('k, 'v) dict \<Rightarrow> u64 \<Rightarrow> (u64 \<times> ('k, 'v) dictEntry list) option" where
  "dictScan d v =
     (if dictSize d = 0 then Some (0, [])
      else if \<not> dictIsRehashing d then do {
        let m0 = sizemask (ht0 d);
        de \<leftarrow> chain_at (ht0 d) (unat (v AND m0));
        Some (advance m0 v, de)
      }
      else do {
        let t0 = smaller d;
        let t1 = larger d;
        let m0 = sizemask t0;
        let m1 = sizemask t1;
        de \<leftarrow> chain_at t0 (unat (v AND m0));
        (v1, es) \<leftarrow> expand_loop t1 m0 m1 v;
        Some (advance m0 v1, de @ es)
      })"

text \<open>
  A whole iteration: one call for each of the states the dictionary is in when the client comes
  back with the cursor.
\<close>

fun scan_run :: "('k, 'v) dict list \<Rightarrow> u64 \<Rightarrow> (u64 \<times> ('k, 'v) dictEntry list) option" where
  "scan_run [] v = Some (v, [])"
| "scan_run (d # ds) v =
     do { (v1, es) \<leftarrow> dictScan d v; (v2, es') \<leftarrow> scan_run ds v1; Some (v2, es @ es') }"

declare expand_loop.simps [code]

subsection \<open>The expansion loop\<close>

lemma expand_loop_ok:
  assumes t: "ht_ok ty t" "htsize t = 2 ^ b" and ab: "a \<le> b" "b \<le> 31"
  shows "\<exists>v' es. expand_loop t (mask a) (mask b) v = Some (v', es) \<and> unat v' mod 2 ^ a = unat v mod 2 ^ a \<and>
    set es \<subseteq> set_mset (ht_ents t) \<and>
    (\<forall>i<2 ^ b. i mod 2 ^ a = unat v mod 2 ^ a \<and> mid a b v \<le> i div 2 ^ a \<longrightarrow> set (table t ! i) \<subseteq> set es)"
proof (induction "2 ^ (b - a) - mid a b v" arbitrary: v rule: less_induct)
  case less
  have e: "(2 :: nat) ^ b = 2 ^ (b - a) * 2 ^ a" using ab by (simp flip: power_add)
  define i where "i = unat (v AND mask b)"
  define v1 where "v1 = expand_next (mask a) v"
  have i: "i = unat v mod 2 ^ a + mid a b v * 2 ^ a" "i < 2 ^ b"
    using unat_and_mask_mid [OF ab(1), of v] unat_and_mask_less [of v b] by (simp_all add: i_def)
  have ch: "chain_at t i = Some (table t ! i)" using t i(2) by (simp add: chain_at_def ht_ok_def)
  have sub: "set (table t ! i) \<subseteq> set_mset (ht_ents t)" using in_ht_ents [OF t(1)] i(2) t(2) by auto
  have idiv: "i div 2 ^ a = mid a b v" "i mod 2 ^ a = unat v mod 2 ^ a" using i(1) by simp_all
  have only: "j = i" if "j mod 2 ^ a = unat v mod 2 ^ a" "j div 2 ^ a = mid a b v" for j
    using that idiv by (metis div_mult_mod_eq)
  have p1: "unat v1 mod 2 ^ a = unat v mod 2 ^ a" "mid a b v1 = (mid a b v + 1) mod 2 ^ (b - a)"
    using expand_next_parts [of a b v] ab by (simp_all add: v1_def)
  have "mid a b v < 2 ^ (b - a)" by (simp add: mid_def)
  then consider "mid a b v + 1 = 2 ^ (b - a)" | "mid a b v + 1 < 2 ^ (b - a)" by linarith
  then show ?case
  proof cases
    case 1
    then have "v1 AND (mask a XOR mask b) = 0" using mid_test [of a b v1] ab p1(2) by simp
    then have "expand_loop t (mask a) (mask b) v = Some (v1, table t ! i)"
      using ch by (subst expand_loop.simps) (simp add: i_def v1_def)
    moreover have "set (table t ! j) \<subseteq> set (table t ! i)"
      if "j < 2 ^ b" "j mod 2 ^ a = unat v mod 2 ^ a" "mid a b v \<le> j div 2 ^ a" for j
    proof -
      have "j div 2 ^ a < 2 ^ (b - a)" using that(1) unfolding e by (simp add: less_mult_imp_div_less)
      then show ?thesis using only [OF that(2)] that(3) 1 by force
    qed
    ultimately show ?thesis using p1(1) sub by auto
  next
    case 2
    then have m1: "mid a b v1 = mid a b v + 1" using p1(2) by simp
    then have go: "v1 AND (mask a XOR mask b) \<noteq> 0" using mid_test [of a b v1] ab by simp
    obtain v' es where IH: "expand_loop t (mask a) (mask b) v1 = Some (v', es)"
        "unat v' mod 2 ^ a = unat v1 mod 2 ^ a" "set es \<subseteq> set_mset (ht_ents t)"
        "\<forall>i<2 ^ b. i mod 2 ^ a = unat v1 mod 2 ^ a \<and> mid a b v1 \<le> i div 2 ^ a \<longrightarrow> set (table t ! i) \<subseteq> set es"
    proof -
      have "2 ^ (b - a) - mid a b v1 < 2 ^ (b - a) - mid a b v" using m1 2 by linarith
      from less [OF this] show ?thesis using that by blast
    qed
    have "expand_loop t (mask a) (mask b) v = Some (v', table t ! i @ es)"
      using ch go IH(1) by (subst expand_loop.simps) (simp add: i_def v1_def)
    moreover have "set (table t ! j) \<subseteq> set (table t ! i @ es)"
      if "j < 2 ^ b" "j mod 2 ^ a = unat v mod 2 ^ a" "mid a b v \<le> j div 2 ^ a" for j
    proof (cases "j div 2 ^ a = mid a b v")
      case True
      then show ?thesis using only [OF that(2)] by simp
    next
      case False
      then have "set (table t ! j) \<subseteq> set es" using IH(4) that p1(1) m1 by auto
      then show ?thesis by auto
    qed
    ultimately show ?thesis using IH(2,3) p1(1) sub by auto
  qed
qed

subsection \<open>One call\<close>

definition hash_place :: "('k, 'v) dictType \<Rightarrow> 'k \<Rightarrow> nat" where
  "hash_place ty k = place (ucast (hashFunction ty k))"

text \<open>
  The calls that cover their block: not while rehashing, or with a cursor that has no bits above
  the smaller mask, or with tables that differ in size by a factor of two at most.
\<close>

definition scan_safe :: "('k, 'v) dict \<Rightarrow> u64 \<Rightarrow> bool" where
  "scan_safe d v \<longleftrightarrow>
     \<not> dictIsRehashing d \<or> v AND (sizemask (smaller d) XOR sizemask (larger d)) = 0 \<or>
     htsize (larger d) \<le> 2 * htsize (smaller d)"

definition scan_table :: "('k, 'v) dict \<Rightarrow> ('k, 'v) dictht" where
  "scan_table d = (if dictIsRehashing d then smaller d else ht0 d)"

definition covers :: "('k, 'v) dictType \<Rightarrow> ('k, 'v) dict \<Rightarrow> u64 \<Rightarrow> u64 \<Rightarrow> ('k, 'v) dictEntry list \<Rightarrow> bool" where
  "covers ty d v v' es \<longleftrightarrow>
     (\<forall>e\<in>#ents d. place v \<le> hash_place ty (key e) \<and> (v' = 0 \<or> hash_place ty (key e) < place v') \<longrightarrow> e \<in> set es)"

lemma ht_ok_mask: "ht_ok ty t \<Longrightarrow> \<exists>b\<le>31. htsize t = 2 ^ b \<and> sizemask t = mask b"
  by (auto simp: ht_ok_def)

lemma covered_bucket:
  assumes t: "ht_ok ty t" "e \<in># ht_ents t" and m: "sizemask t = mask b" "b \<le> 64"
    and p: "place v \<le> hash_place ty (key e)" "advance (mask b) v = 0 \<or> hash_place ty (key e) < place (advance (mask b) v)"
  shows "e \<in> set (table t ! unat (v AND mask b))"
  using in_bucket [OF t] between_cursors [OF m(2) p [unfolded hash_place_def]] by (simp add: bucket_def m(1))

lemma dictScan_plain:
  assumes ok: "ht_ok ty (ht0 d)" "ht1 d = dictReset" and d: "dictSize d \<noteq> 0" "\<not> dictIsRehashing d"
  shows "\<exists>v' es. dictScan d v = Some (v', es) \<and> v' = advance (sizemask (scan_table d)) v \<and> set es \<subseteq> set_mset (ents d) \<and>
    (v' = 0 \<or> place v < place v') \<and> covers ty d v v' es"
proof -
  obtain b where b: "b \<le> 31" "htsize (ht0 d) = 2 ^ b" "sizemask (ht0 d) = mask b" using ht_ok_mask [OF ok(1)] by blast
  define i where "i = unat (v AND mask b)"
  have i: "i < htsize (ht0 d)" using unat_and_mask_less [of v b] b by (simp add: i_def)
  have ents: "ents d = ht_ents (ht0 d)" using ok(2) by (simp add: ents_def)
  have "dictScan d v = Some (advance (mask b) v, table (ht0 d) ! i)"
    using d ok(1) i b(3) by (simp add: dictScan_def Let_def i_def)
  moreover have "set (table (ht0 d) ! i) \<subseteq> set_mset (ents d)" using in_ht_ents [OF ok(1)] i ents by auto
  moreover have "covers ty d v (advance (mask b) v) (table (ht0 d) ! i)"
    using covered_bucket [OF ok(1) _ b(3)] b(1) by (auto simp: covers_def ents i_def)
  ultimately show ?thesis using advance_progress [of b v] b(1,3) d(2) by (auto simp: scan_table_def)
qed

lemma bucket_parts:
  assumes "ht_ok ty t" "sizemask t = mask b" "a \<le> b"
  shows "bucket h t mod 2 ^ a = unat ((ucast h :: u64) AND mask a)" "bucket h t div 2 ^ a = mid a b (ucast h)"
  using unat_and_mask_mid [OF assms(3), of "ucast h"] by (simp_all add: bucket_def assms(2) unat_and_mask)

lemma dictScan_rehashing:
  assumes ok: "rehash_ok ty d" and d: "dictSize d \<noteq> 0" "dictIsRehashing d"
  shows "\<exists>v' es. dictScan d v = Some (v', es) \<and> v' = advance (sizemask (scan_table d)) v \<and> set es \<subseteq> set_mset (ents d) \<and>
    (v' = 0 \<or> place v < place v') \<and> (scan_safe d v \<longrightarrow> covers ty d v v' es)"
proof -
  have t: "ht_ok ty (smaller d)" "ht_ok ty (larger d)" using ok by (auto simp: rehash_ok_def smaller_def larger_def)
  have ents: "ents d = ht_ents (smaller d) + ht_ents (larger d)" by (simp add: ents_def smaller_def larger_def)
  obtain a where a: "a \<le> 31" "htsize (smaller d) = 2 ^ a" "sizemask (smaller d) = mask a" using ht_ok_mask [OF t(1)] by blast
  obtain b where b: "b \<le> 31" "htsize (larger d) = 2 ^ b" "sizemask (larger d) = mask b" using ht_ok_mask [OF t(2)] by blast
  have "htsize (smaller d) \<le> htsize (larger d)" by (simp add: smaller_def larger_def)
  then have ab: "a \<le> b" using a(2) b(2) by simp
  define i where "i = unat (v AND mask a)"
  have i: "i < htsize (smaller d)" using unat_and_mask_less [of v a] a by (simp add: i_def)
  obtain v1 es where E: "expand_loop (larger d) (mask a) (mask b) v = Some (v1, es)"
      "unat v1 mod 2 ^ a = unat v mod 2 ^ a" "set es \<subseteq> set_mset (ht_ents (larger d))"
      "\<forall>i<2 ^ b. i mod 2 ^ a = unat v mod 2 ^ a \<and> mid a b v \<le> i div 2 ^ a \<longrightarrow> set (table (larger d) ! i) \<subseteq> set es"
    using expand_loop_ok [OF t(2) b(2) ab b(1), of v] by blast
  have adv: "advance (mask a) v1 = advance (mask a) v"
    using E(2) by (intro advance_cong) (simp add: word_unat_eq_iff unat_and_mask)
  have "dictScan d v = Some (advance (mask a) v, table (smaller d) ! i @ es)"
    using d t(1) i a(3) b(3) E(1) adv by (simp add: dictScan_def Let_def i_def)
  moreover have "set (table (smaller d) ! i @ es) \<subseteq> set_mset (ents d)"
    using in_ht_ents [OF t(1)] i E(3) ents by auto
  moreover have "covers ty d v (advance (mask a) v) (table (smaller d) ! i @ es)" if safe: "scan_safe d v"
    unfolding covers_def
  proof (intro ballI impI)
    fix e
    assume e: "e \<in># ents d" and p: "place v \<le> hash_place ty (key e) \<and>
      (advance (mask a) v = 0 \<or> hash_place ty (key e) < place (advance (mask a) v))"
    let ?h = "ucast (hashFunction ty (key e)) :: u64"
    show "e \<in> set (table (smaller d) ! i @ es)"
    proof (cases "e \<in># ht_ents (smaller d)")
      case True
      then show ?thesis using covered_bucket [OF t(1) True a(3)] a(1) p by (simp add: i_def)
    next
      case False
      then have el: "e \<in># ht_ents (larger d)" using e ents by simp
      have same: "?h AND mask a = v AND mask a"
        using between_cursors [of a v ?h] p a(1) by (simp add: hash_place_def)
      have "mid a b v \<le> mid a b ?h"
      proof (cases "b = Suc a")
        case True
        have "place ?h div 2 ^ (64 - a) = place v div 2 ^ (64 - a)" using same_block [of a ?h v] same a(1) by simp
        then show ?thesis using mid_mono [of a ?h v] p a(1) True by (simp add: hash_place_def)
      next
        case False
        then have "a = b \<or> a + 2 \<le> b" using ab by linarith
        moreover have "htsize (larger d) > 2 * htsize (smaller d)" if "a + 2 \<le> b"
        proof -
          have "(2 :: nat) ^ b \<ge> 4 * 2 ^ a" "(0 :: nat) < 2 ^ a" using power_increasing [OF that, of "2 :: nat"] by simp_all
          then show ?thesis unfolding a(2) b(2) by linarith
        qed
        ultimately have "mid a b v = 0"
          using safe d(2) mid_test [of a b v] ab b(1) a(3) b(3) by (auto simp: scan_safe_def mid_def)
        then show ?thesis by simp
      qed
      moreover define j where "j = bucket (hashFunction ty (key e)) (larger d)"
      moreover have "j mod 2 ^ a = unat v mod 2 ^ a" "j div 2 ^ a = mid a b ?h"
        using bucket_parts [OF t(2) b(3) ab, of "hashFunction ty (key e)"] same
        by (simp_all add: j_def) (metis unat_and_mask)
      moreover have "j < 2 ^ b" using bucket_less [OF t(2)] b(2) by (simp add: j_def)
      ultimately have "set (table (larger d) ! j) \<subseteq> set es" using E(4) by simp
      then show ?thesis using in_bucket [OF t(2) el] by (auto simp: j_def)
    qed
  qed
  ultimately show ?thesis using advance_progress [of a v] a(1,3) d(2) by (auto simp: scan_table_def)
qed

lemma dictScan_ok:
  assumes "shape_ok ty d"
  shows "\<exists>v' es. dictScan d v = Some (v', es) \<and>
    (dictSize d \<noteq> 0 \<longrightarrow> v' = advance (sizemask (scan_table d)) v) \<and> set es \<subseteq> set_mset (ents d) \<and>
    (v' = 0 \<or> place v < place v') \<and> (scan_safe d v \<longrightarrow> covers ty d v v' es)"
proof (cases "dictSize d = 0")
  case True
  then have "ents d = {#}"
    using assms ht_ok_used [of ty "ht0 d"] ht_ok_used [of ty "ht1 d"]
    by (auto simp: dictSize_def ents_def shape_ok_def rehash_ok_def split: if_splits)
  then show ?thesis using True by (simp add: dictScan_def covers_def)
next
  case False
  show ?thesis
  proof (cases "dictIsRehashing d")
    case True
    then show ?thesis using dictScan_rehashing [of ty d v] False assms by (simp add: shape_ok_def)
  next
    case nr: False
    moreover have "ht0 d \<noteq> dictReset" using assms False nr by (auto simp: shape_ok_def dictSize_def dictReset_def)
    ultimately show ?thesis using dictScan_plain [of ty d v] False assms by (auto simp: shape_ok_def)
  qed
qed

subsection \<open>A whole iteration\<close>

fun run_safe :: "('k, 'v) dict list \<Rightarrow> u64 \<Rightarrow> bool" where
  "run_safe [] v = True"
| "run_safe (d # ds) v =
     (scan_safe d v \<and> (case dictScan d v of None \<Rightarrow> False | Some (v1, es) \<Rightarrow> (ds = [] \<or> v1 \<noteq> 0) \<and> run_safe ds v1))"

lemma scan_run_covers:
  assumes "\<forall>d\<in>set ds. shape_ok ty d \<and> (\<exists>e\<in>#ents d. key e = k)" "ds \<noteq> []" "run_safe ds v"
    "scan_run ds v = Some (0, es)" "place v \<le> hash_place ty k"
  shows "k \<in> key ` set es"
  using assms
proof (induction ds arbitrary: v es)
  case (Cons d ds)
  obtain v1 es1 where d: "dictScan d v = Some (v1, es1)" "covers ty d v v1 es1"
    using dictScan_ok [of ty d v] Cons.prems(1,3) by auto
  obtain es2 where r: "scan_run ds v1 = Some (0, es2)" "es = es1 @ es2"
    using Cons.prems(4) d(1) by (auto split: Option.bind_splits prod.splits)
  obtain e where e: "e \<in># ents d" "key e = k" using Cons.prems(1) by auto
  show ?case
  proof (cases "v1 = 0 \<or> hash_place ty k < place v1")
    case True
    then have "e \<in> set es1" using d(2) e Cons.prems(5) by (auto simp: covers_def)
    then show ?thesis using r(2) e(2) by auto
  next
    case False
    then have "ds \<noteq> []" using r(1) by auto
    moreover have "run_safe ds v1" using Cons.prems(3) d(1) by simp
    ultimately have "k \<in> key ` set es2" using Cons.IH [of v1 es2] Cons.prems(1) r(1) False by auto
    then show ?thesis using r(2) by auto
  qed
qed simp

text \<open>
  C10. The guarantee of \<open>dictScan\<close>: an iteration that starts and ends with cursor 0 returns every key
  that is in the dictionary at all of its calls, whatever is added, deleted, rehashed or resized
  between the calls, as long as no call meets the shrinking case excluded by \<open>scan_safe\<close>.
\<close>

theorem dictScan_complete:
  assumes "ds \<noteq> []" "\<forall>d\<in>set ds. shape_ok ty d \<and> (\<exists>e\<in>#ents d. key e = k)"
    "run_safe ds 0" "scan_run ds 0 = Some (0, es)"
  shows "k \<in> key ` set es"
proof -
  have "place 0 = 0" by code_simp
  then show ?thesis using scan_run_covers [OF assms(2,1,3,4)] by simp
qed

definition grown_dict :: "(u32, nat) dict" where
  "grown_dict =
     \<lparr>ht0 = \<lparr>table = [[\<lparr>key = 4, val = Some 1\<rparr>], [\<lparr>key = 5, val = Some 1\<rparr>, \<lparr>key = 1, val = Some 2\<rparr>], [],
               [\<lparr>key = 3, val = Some 3\<rparr>]], htsize = 4, sizemask = 3, used = 4\<rparr>,
      ht1 = dictReset, rehashidx = -1, iterators = 0\<rparr>"

lemma grown_dict_ok: "shape_ok identityType grown_dict"
proof -
  have "ht_check identityType 2 (ht0 grown_dict)" by code_simp
  then show ?thesis
    by (auto simp: shape_ok_def dictIsRehashing_def dest!: ht_check_ok) (simp_all add: grown_dict_def)
qed

text \<open>A scan of a table of 4 buckets during which the table starts to grow to 8.\<close>

theorem dictScan_complete_witness:
  "\<exists>es. scan_run [grown_dict, rehashing_dict, rehashing_dict, rehashing_dict] 0 = Some (0, es) \<and> 5 \<in> key ` set es"
proof -
  have r: "scan_run [grown_dict, rehashing_dict, rehashing_dict, rehashing_dict] 0 =
      Some (0, [\<lparr>key = 4, val = Some 1\<rparr>, \<lparr>key = 5, val = Some 1\<rparr>, \<lparr>key = 1, val = Some 2\<rparr>, \<lparr>key = 3, val = Some 3\<rparr>])"
    by code_simp
  moreover have "run_safe [grown_dict, rehashing_dict, rehashing_dict, rehashing_dict] 0" by code_simp
  moreover have "\<exists>e\<in>#ents grown_dict. key e = 5" "\<exists>e\<in>#ents rehashing_dict. key e = 5"
    by (simp_all add: ents_def ht_ents_def grown_dict_def rehashing_dict_def)
  ultimately show ?thesis
    using dictScan_complete [of "[grown_dict, rehashing_dict, rehashing_dict, rehashing_dict]" identityType 5]
      grown_dict_ok rehashing_dict_ok by fastforce
qed

lemma scan_table_ok:
  assumes "shape_ok ty d" "dictSize d \<noteq> 0"
  shows "ht_ok ty (scan_table d)"
proof (cases "dictIsRehashing d")
  case True
  then show ?thesis using assms(1) by (simp add: scan_table_def smaller_def shape_ok_def rehash_ok_def)
next
  case False
  then show ?thesis using assms by (auto simp: scan_table_def shape_ok_def dictSize_def dictReset_def)
qed

lemma mask_u64_inject:
  assumes "a < 64" "b < 64" "(mask a :: u64) = mask b"
  shows "a = b"
proof -
  have "(2 :: nat) ^ a = mask a + 1" "(2 :: nat) ^ b = mask b + 1" by (simp_all add: mask_eq_exp_minus_1)
  moreover have "(mask a :: nat) = mask b"
    using assms unat_mask [of a] unat_mask [of b] by simp
  ultimately have "(2 :: nat) ^ a = 2 ^ b" by linarith
  then show ?thesis by simp
qed

lemma larger_mask:
  assumes "shape_ok ty d" "dictIsRehashing d" "sizemask (smaller d) = mask b" "b \<le> 31"
  shows "\<exists>b'. b \<le> b' \<and> b' \<le> 31 \<and> sizemask (larger d) = mask b'"
proof -
  have t: "ht_ok ty (smaller d)" "ht_ok ty (larger d)"
    using assms(1,2) by (auto simp: shape_ok_def rehash_ok_def smaller_def larger_def)
  obtain a where a: "a \<le> 31" "htsize (smaller d) = 2 ^ a" "sizemask (smaller d) = mask a" using ht_ok_mask [OF t(1)] by blast
  obtain b' where b': "b' \<le> 31" "htsize (larger d) = 2 ^ b'" "sizemask (larger d) = mask b'" using ht_ok_mask [OF t(2)] by blast
  have "htsize (smaller d) \<le> htsize (larger d)" by (simp add: smaller_def larger_def)
  then have "a \<le> b'" using a(2) b'(2) by simp
  moreover have "a = b" using a assms(3,4) mask_u64_inject [of a b] by simp
  ultimately show ?thesis using b' by blast
qed

text \<open>On a table that does not change, the cursor goes through the blocks one by one.\<close>

lemma scan_fixed:
  assumes ok: "shape_ok ty d" "dictSize d \<noteq> 0" and b: "sizemask (scan_table d) = mask b" "b \<le> 31"
    and v: "place v = q * 2 ^ (64 - b)" "q < 2 ^ b" and n: "n + q = 2 ^ b"
  shows "\<exists>es. scan_run (replicate n d) v = Some (0, es) \<and> set es \<subseteq> set_mset (ents d) \<and>
    (\<forall>e\<in>#ents d. place v \<le> hash_place ty (key e) \<longrightarrow> e \<in> set es)"
  using v n
proof (induction n arbitrary: v q)
  case (Suc n)
  have safe: "scan_safe d v"
  proof (cases "dictIsRehashing d")
    case True
    obtain b' where b': "b \<le> b'" "b' \<le> 31" "sizemask (larger d) = mask b'"
      using larger_mask [OF ok(1) True, of b] b True by (auto simp: scan_table_def)
    have "v AND (mask b XOR mask b') = 0"
      using high_bits_clear [OF Suc.prems(1) b'(1)] b'(2) by simp
    then show ?thesis using b(1) b'(3) True by (simp add: scan_safe_def scan_table_def)
  qed (simp add: scan_safe_def)
  have q: "place v div 2 ^ (64 - b) = q" using Suc.prems(1) by simp
  obtain es where s: "dictScan d v = Some (advance (mask b) v, es)" "set es \<subseteq> set_mset (ents d)"
      "covers ty d v (advance (mask b) v) es"
    using dictScan_ok [OF ok(1), of v] ok(2) b(1) safe by auto
  show ?case
  proof (cases "q + 1 = 2 ^ b")
    case True
    have "place (advance (mask b) v) = 0"
    proof -
      have "(2 :: nat) ^ 64 = 2 ^ b * 2 ^ (64 - b)" using b(2) by (simp flip: power_add)
      then show ?thesis using b(2) True by (subst place_advance) (simp_all add: q del: add_Suc_right)
    qed
    then have "advance (mask b) v = 0" by (rule place_eq_0)
    moreover have "n = 0" using Suc.prems(3) True by linarith
    ultimately show ?thesis using s by (auto simp: covers_def)
  next
    case False
    then have lt: "q + 1 < 2 ^ b" using Suc.prems(2) by simp
    have p: "place (advance (mask b) v) = (q + 1) * 2 ^ (64 - b)"
    proof -
      have "advance (mask b) v = 0 \<and> q + 1 = 2 ^ b \<or> place (advance (mask b) v) = (q + 1) * 2 ^ (64 - b)"
        using place_advance_cases [of b v] b(2) by (simp add: q)
      then show ?thesis using lt by auto
    qed
    obtain es' where r: "scan_run (replicate n d) (advance (mask b) v) = Some (0, es')" "set es' \<subseteq> set_mset (ents d)"
        "\<forall>e\<in>#ents d. place (advance (mask b) v) \<le> hash_place ty (key e) \<longrightarrow> e \<in> set es'"
      using Suc.IH [OF p lt] Suc.prems(3) by auto
    have "e \<in> set (es @ es')" if "e \<in># ents d" "place v \<le> hash_place ty (key e)" for e
      using that s(3) r(3) by (cases "hash_place ty (key e) < place (advance (mask b) v)") (auto simp: covers_def)
    then show ?thesis using s(1,2) r(1,2) by auto
  qed
qed simp

text \<open>
  C18. Iterating over a dictionary that does not change terminates and is exact: after as many calls
  as the (smaller) table has buckets the cursor is 0 again, and the entries returned are those of the
  dictionary, none missing and none invented, also in the middle of a rehashing.
\<close>

theorem dictScan_terminates:
  assumes "shape_ok ty d" "dictSize d \<noteq> 0"
  shows "\<exists>es. scan_run (replicate (htsize (scan_table d)) d) 0 = Some (0, es) \<and> set es = set_mset (ents d)"
proof -
  obtain b where b: "b \<le> 31" "htsize (scan_table d) = 2 ^ b" "sizemask (scan_table d) = mask b"
    using ht_ok_mask [OF scan_table_ok [OF assms]] by blast
  have "place 0 = 0" by code_simp
  then show ?thesis using scan_fixed [OF assms b(3,1), of 0 0 "2 ^ b"] by (fastforce simp: b(2))
qed

theorem dictScan_terminates_witness:
  "\<exists>es. scan_run (replicate 4 rehashing_dict) 0 = Some (0, es) \<and> set es = set_mset (ents rehashing_dict)"
proof -
  have "htsize (scan_table rehashing_dict) = 4" "dictSize rehashing_dict \<noteq> 0" by code_simp+
  then show ?thesis using dictScan_terminates [OF rehashing_dict_ok] by simp
qed

definition wide_table :: "(u32, nat) dictht" where
  "wide_table = \<lparr>table = [[], [], [], [], [\<lparr>key = 4, val = Some 1\<rparr>], [], [], [], [], [], [], [], [], [], [], []],
     htsize = 16, sizemask = 15, used = 1\<rparr>"

definition wide_dict :: "(u32, nat) dict" where
  "wide_dict = \<lparr>ht0 = wide_table, ht1 = dictReset, rehashidx = -1, iterators = 0\<rparr>"

definition shrinking_dict :: "(u32, nat) dict" where
  "shrinking_dict =
     \<lparr>ht0 = wide_table, ht1 = \<lparr>table = [[], [], [], []], htsize = 4, sizemask = 3, used = 0\<rparr>,
      rehashidx = 0, iterators = 0\<rparr>"

lemma shrinking_resize: "dictResize True wide_dict = (shrinking_dict, True)"
  by (simp add: dictResize_def dictExpand_def dictNextPower_def next_power_loop.simps new_table_def
      DICT_HT_INITIAL_SIZE_def wide_dict_def shrinking_dict_def wide_table_def dictIsRehashing_def)
    code_simp

lemma shrinking_scan:
  "dictScan wide_dict 0 = Some (8, [])"
  "dictScan shrinking_dict 8 = Some (2, [])" "dictScan shrinking_dict 2 = Some (1, [])"
  "dictScan shrinking_dict 1 = Some (3, [])" "dictScan shrinking_dict 3 = Some (0, [])"
  by code_simp+


end
