(* ===== verification/DictIter.thy ===== *)
theory DictIter
  imports DictMap
begin

text \<open>
  The iterators of \<open>src/lib/src/dict.c\<close> (\<open>dictGetIterator\<close>, \<open>dictNext\<close>, \<open>dictReleaseIterator\<close>), the
  fingerprint that detects misuse of an unsafe iterator, and \<open>dictGetRandomKey\<close>.

  The entry pointers of an iterator are represented by the chain from the entry on (NULL is the
  empty list): they stay valid as long as the entries behind them in the chain are not deleted,
  which is what the comment of \<open>dictNext\<close> allows its caller (it may delete the entry returned).
  The addresses of the two tables, which enter the fingerprint, are a parameter.
\<close>

record ('k, 'v) dictIterator =
  itable :: bool
  index :: int
  safe :: bool
  entry :: "('k, 'v) dictEntry list"
  nextEntry :: "('k, 'v) dictEntry list"
  fingerprint :: u64

definition mix64 :: "u64 \<Rightarrow> u64" where
  "mix64 h0 =
     (let h1 = NOT h0 + push_bit 21 h0;
          h2 = h1 XOR signed_drop_bit 24 h1;
          h3 = (h2 + push_bit 3 h2) + push_bit 8 h2;
          h4 = h3 XOR signed_drop_bit 14 h3;
          h5 = (h4 + push_bit 2 h4) + push_bit 4 h4;
          h6 = h5 XOR signed_drop_bit 28 h5
      in h6 + push_bit 31 h6)"

definition dictFingerprint :: "u64 \<times> u64 \<Rightarrow> ('k, 'v) dict \<Rightarrow> u64" where
  "dictFingerprint addr d =
     foldl (\<lambda>hash i. mix64 (hash + i)) 0
       [fst addr, of_nat (htsize (ht0 d)), of_nat (used (ht0 d)),
        snd addr, of_nat (htsize (ht1 d)), of_nat (used (ht1 d))]"

definition dictGetIterator :: "('k, 'v) dictIterator" where
  "dictGetIterator = \<lparr>itable = False, index = -1, safe = False, entry = [], nextEntry = [], fingerprint = 0\<rparr>"

definition dictGetSafeIterator :: "('k, 'v) dictIterator" where
  "dictGetSafeIterator = dictGetIterator\<lparr>safe := True\<rparr>"

text \<open>The first call registers a safe iterator, or takes the fingerprint.\<close>

definition iter_start ::
  "u64 \<times> u64 \<Rightarrow> ('k, 'v) dict \<Rightarrow> ('k, 'v) dictIterator \<Rightarrow> ('k, 'v) dict \<times> ('k, 'v) dictIterator" where
  "iter_start addr d it =
     (if index it = -1 \<and> \<not> itable it
      then if safe it then (d\<lparr>iterators := iterators d + 1\<rparr>, it)
           else (d, it\<lparr>fingerprint := dictFingerprint addr d\<rparr>)
      else (d, it))"

text \<open>Moving to the next bucket; \<open>None\<close> in the inner option is the \<open>break\<close> at the end.\<close>

definition next_bucket ::
  "('k, 'v) dict \<Rightarrow> ('k, 'v) dictIterator \<Rightarrow> ('k, 'v) dictIterator \<times> bool" where
  "next_bucket d it =
     (let it1 = it\<lparr>index := index it + 1\<rparr>
      in if index it1 \<ge> as_int (htsize (ht d (itable it)))
         then if dictIsRehashing d \<and> \<not> itable it
              then (it1\<lparr>itable := True, index := 0\<rparr>, True)
              else (it1, False)
         else (it1, True))"

partial_function (option) dictNext ::
  "u64 \<times> u64 \<Rightarrow> ('k, 'v) dict \<Rightarrow> ('k, 'v) dictIterator \<Rightarrow>
   (('k, 'v) dict \<times> ('k, 'v) dictIterator \<times> ('k, 'v) dictEntry option) option" where
  "dictNext addr d it =
     (if entry it = [] then
        case iter_start addr d it of (d1, it1) \<Rightarrow>
        case next_bucket d1 it1 of (it2, go) \<Rightarrow>
          if \<not> go then Some (d1, it2, None)
          else do {
            c \<leftarrow> chain_at (ht d1 (itable it2)) (nat (index it2));
            (case c of
               [] \<Rightarrow> dictNext addr d1 (it2\<lparr>entry := []\<rparr>)
             | e # next \<Rightarrow> Some (d1, it2\<lparr>entry := c, nextEntry := next\<rparr>, Some e))
          }
      else
        case nextEntry it of
          [] \<Rightarrow> dictNext addr d (it\<lparr>entry := []\<rparr>)
        | e # next \<Rightarrow> Some (d, it\<lparr>entry := nextEntry it, nextEntry := next\<rparr>, Some e))"

definition dictReleaseIterator ::
  "u64 \<times> u64 \<Rightarrow> ('k, 'v) dict \<Rightarrow> ('k, 'v) dictIterator \<Rightarrow> ('k, 'v) dict option" where
  "dictReleaseIterator addr d it =
     (if \<not> (index it = -1 \<and> \<not> itable it)
      then if safe it then Some (d\<lparr>iterators := iterators d - 1\<rparr>)
           else if fingerprint it = dictFingerprint addr d then Some d else None
      else Some d)"

text \<open>The usual loop \<open>while ((de = dictNext(di)) != NULL)\<close> over a dictionary that is not changed.\<close>

partial_function (option) iterate ::
  "u64 \<times> u64 \<Rightarrow> ('k, 'v) dict \<Rightarrow> ('k, 'v) dictIterator \<Rightarrow>
   (('k, 'v) dict \<times> ('k, 'v) dictIterator \<times> ('k, 'v) dictEntry list) option" where
  "iterate addr d it =
     do {
       (d1, it1, r) \<leftarrow> dictNext addr d it;
       (case r of
          None \<Rightarrow> Some (d1, it1, [])
        | Some e \<Rightarrow> do { (d2, it2, es) \<leftarrow> iterate addr d1 it1; Some (d2, it2, e # es) })
     }"

subsection \<open>Random entries\<close>

text \<open>\<open>rnd j\<close> is what the call number \<open>j\<close> of \<open>random()\<close> returns.\<close>

definition random_slot :: "('k, 'v) dict \<Rightarrow> nat \<Rightarrow> ('k, 'v) dictEntry list option" where
  "random_slot d r =
     (if dictIsRehashing d then
        let h = r mod (htsize (ht0 d) + htsize (ht1 d))
        in if htsize (ht0 d) \<le> h then chain_at (ht1 d) (h - htsize (ht0 d)) else chain_at (ht0 d) h
      else chain_at (ht0 d) (unat ((of_nat r :: u64) AND sizemask (ht0 d))))"

partial_function (option) random_loop ::
  "(nat \<Rightarrow> nat) \<Rightarrow> ('k, 'v) dict \<Rightarrow> nat \<Rightarrow> (('k, 'v) dictEntry list \<times> nat) option" where
  "random_loop rnd d j =
     do {
       he \<leftarrow> random_slot d (rnd j);
       (if he = [] then random_loop rnd d (j + 1) else Some (he, j + 1))
     }"

definition dictGetRandomKey ::
  "('k, 'v) dictType \<Rightarrow> (nat \<Rightarrow> nat) \<Rightarrow> ('k, 'v) dict \<Rightarrow> (('k, 'v) dict \<times> ('k, 'v) dictEntry option) option" where
  "dictGetRandomKey ty rnd d =
     (if dictSize d = 0 then Some (d, None)
      else do {
        d1 \<leftarrow> rehash_if_rehashing ty d;
        (he, j) \<leftarrow> random_loop rnd d1 0;
        Some (d1, Some (he ! (rnd j mod length he)))
      })"

subsection \<open>What an iterator still has to visit\<close>

definition rest :: "('k, 'v) dict \<Rightarrow> ('k, 'v) dictIterator \<Rightarrow> ('k, 'v) dictEntry list" where
  "rest d it =
     (if entry it = [] then [] else nextEntry it) @
     concat (drop (nat (index it + 1)) (table (ht d (itable it)))) @
     (if dictIsRehashing d \<and> \<not> itable it then concat (table (ht1 d)) else [])"

text \<open>Tables whose size an \<open>int\<close> can hold: \<open>(signed) ht->size\<close> is the size.\<close>

definition small_tables :: "('k, 'v) dict \<Rightarrow> bool" where
  "small_tables d \<longleftrightarrow>
     htsize (ht0 d) < 2 ^ 31 \<and> htsize (ht1 d) < 2 ^ 31 \<and>
     length (table (ht0 d)) = htsize (ht0 d) \<and> length (table (ht1 d)) = htsize (ht1 d) \<and>
     (dictIsRehashing d \<longrightarrow> 0 < htsize (ht1 d))"

lemma as_int_table: "small_tables d \<Longrightarrow> as_int (htsize (ht d s)) = int (length (table (ht d s)))"
  by (cases s) (auto simp: small_tables_def ht_def as_int_small)

definition started :: "('k, 'v) dictIterator \<Rightarrow> bool" where
  "started it \<longleftrightarrow> \<not> (index it = -1 \<and> \<not> itable it)"

text \<open>The buckets an iterator still has to look at.\<close>

definition left :: "('k, 'v) dict \<Rightarrow> ('k, 'v) dictIterator \<Rightarrow> nat" where
  "left d it =
     (length (table (ht d (itable it))) - nat (index it + 1)) +
     (if dictIsRehashing d \<and> \<not> itable it then length (table (ht1 d)) + 1 else 0)"

lemma next_bucket_cases:
  assumes sm: "small_tables d" and i: "-1 \<le> index it" and e: "entry it = []"
  shows "(next_bucket d it = (it\<lparr>index := index it + 1\<rparr>, False) \<and> rest d it = []) \<or>
    (\<exists>c it2. next_bucket d it = (it2, True) \<and> chain_at (ht d (itable it2)) (nat (index it2)) = Some c \<and>
       rest d it = c @ rest d (it2\<lparr>entry := []\<rparr>) \<and> left d it2 < left d it \<and> 0 \<le> index it2 \<and>
       safe it2 = safe it \<and> fingerprint it2 = fingerprint it)"
proof (cases "index it + 1 \<ge> int (length (table (ht d (itable it))))")
  case True
  then have r: "rest d it = (if dictIsRehashing d \<and> \<not> itable it then concat (table (ht1 d)) else [])"
    using e by (simp add: rest_def nat_le_iff)
  show ?thesis
  proof (cases "dictIsRehashing d \<and> \<not> itable it")
    case re: True
    then obtain c cs where t1: "table (ht1 d) = c # cs" using sm by (cases "table (ht1 d)") (auto simp: small_tables_def)
    have nb: "next_bucket d it = (it\<lparr>itable := True, index := 0\<rparr>, True)"
      using True re by (simp add: next_bucket_def as_int_table [OF sm] Let_def)
    show ?thesis
      by (rule disjI2, rule exI [of _ c], rule exI [of _ "it\<lparr>itable := True, index := 0\<rparr>"])
        (use nb True re r t1 i in \<open>simp add: ht_def chain_at_def rest_def left_def\<close>)
  next
    case False
    then show ?thesis using True r by (auto simp: next_bucket_def as_int_table [OF sm] Let_def)
  qed
next
  case False
  define n where "n = nat (index it + 1)"
  let ?t = "table (ht d (itable it))"
  have n: "n < length ?t" "int n = index it + 1" using False i by (simp_all add: n_def)
  have d: "drop n ?t = ?t ! n # drop (n + 1) ?t" using n(1) by (simp add: Cons_nth_drop_Suc)
  have n2: "nat (2 + index it) = Suc n" using n(2) by simp
  show ?thesis
    by (rule disjI2, rule exI [of _ "?t ! n"], rule exI [of _ "it\<lparr>index := index it + 1\<rparr>"])
      (use False n d n2 i e in \<open>auto simp: next_bucket_def as_int_table [OF sm] Let_def chain_at_def rest_def left_def n_def [symmetric]\<close>)
qed

lemma iterators_simps [simp]:
  "ht (d\<lparr>iterators := n\<rparr>) s = ht d s" "dictIsRehashing (d\<lparr>iterators := n\<rparr>) = dictIsRehashing d"
  by (simp_all add: ht_def dictIsRehashing_def)

lemma rest_iterators [simp]: "rest (d\<lparr>iterators := n\<rparr>) it = rest d it"
  by (simp add: rest_def ht_def dictIsRehashing_def)

lemma rest_fingerprint [simp]: "rest d (it\<lparr>fingerprint := f\<rparr>) = rest d it"
  by (simp add: rest_def)

lemma left_simps [simp]:
  "left d (it\<lparr>fingerprint := f\<rparr>) = left d it" "left d (it\<lparr>entry := c\<rparr>) = left d it"
  by (simp_all add: left_def)

lemma started_simps [simp]:
  "started (it\<lparr>fingerprint := f\<rparr>) = started it" "started (it\<lparr>entry := c\<rparr>) = started it"
  "started (it\<lparr>nextEntry := c\<rparr>) = started it"
  by (simp_all add: started_def)

lemma left_iterators [simp]: "left (d\<lparr>iterators := n\<rparr>) it = left d it"
  by (simp add: left_def ht_def dictIsRehashing_def)

lemma small_tables_iterators [simp]: "small_tables (d\<lparr>iterators := n\<rparr>) = small_tables d"
  by (simp add: small_tables_def dictIsRehashing_def)

lemma iter_start_eq:
  "iter_start addr d it =
     (d\<lparr>iterators := iterators d + (if started it \<or> \<not> safe it then 0 else 1)\<rparr>,
      it\<lparr>fingerprint := (if started it \<or> safe it then fingerprint it else dictFingerprint addr d)\<rparr>)"
  by (auto simp: iter_start_def started_def)

lemma dictNext_rest:
  assumes "small_tables d" "-1 \<le> index it" "entry it \<noteq> [] \<Longrightarrow> started it"
  shows "\<exists>it1 r. dictNext addr d it =
      Some (d\<lparr>iterators := iterators d + (if started it \<or> \<not> safe it then 0 else 1)\<rparr>, it1, r) \<and>
    started it1 \<and> -1 \<le> index it1 \<and> safe it1 = safe it \<and>
    fingerprint it1 = (if started it \<or> safe it then fingerprint it else dictFingerprint addr d) \<and>
    (case rest d it of [] \<Rightarrow> r = None | e # es \<Rightarrow> r = Some e \<and> rest d it1 = es)"
  using assms
proof (induction "left d it + (if entry it = [] then 0 else 1)" arbitrary: d it rule: less_induct)
  case less
  show ?case
  proof (cases "entry it = []")
    case True
    define k where "k = (if started it \<or> \<not> safe it then 0 else 1 :: nat)"
    define f where "f = (if started it \<or> safe it then fingerprint it else dictFingerprint addr d)"
    define d1 it' where "d1 = d\<lparr>iterators := iterators d + k\<rparr>" and "it' = it\<lparr>fingerprint := f\<rparr>"
    have s: "iter_start addr d it = (d1, it')" by (simp add: iter_start_eq d1_def it'_def k_def f_def)
    have h: "small_tables d1" "-1 \<le> index it'" "entry it' = []" "rest d1 it' = rest d it" "left d1 it' = left d it"
      using less.prems True by (simp_all add: d1_def it'_def)
    from next_bucket_cases [OF h(1-3)] show ?thesis
    proof
      assume N: "next_bucket d1 it' = (it'\<lparr>index := index it' + 1\<rparr>, False) \<and> rest d1 it' = []"
      then show ?thesis using True s h(2,4)
        by (subst dictNext.simps) (simp add: d1_def it'_def k_def f_def started_def)
    next
      assume "\<exists>c it2. next_bucket d1 it' = (it2, True) \<and> chain_at (ht d1 (itable it2)) (nat (index it2)) = Some c \<and>
        rest d1 it' = c @ rest d1 (it2\<lparr>entry := []\<rparr>) \<and> left d1 it2 < left d1 it' \<and> 0 \<le> index it2 \<and>
        safe it2 = safe it' \<and> fingerprint it2 = fingerprint it'"
      then obtain c it2 where N: "next_bucket d1 it' = (it2, True)"
          "chain_at (ht d1 (itable it2)) (nat (index it2)) = Some c" "rest d1 it' = c @ rest d1 (it2\<lparr>entry := []\<rparr>)"
          "left d1 it2 < left d1 it'" "0 \<le> index it2" "safe it2 = safe it'" "fingerprint it2 = fingerprint it'"
        by blast
      have st: "started it2" using N(5) by (auto simp: started_def)
      show ?thesis
      proof (cases c)
        case (Cons e es)
        have "rest d (it2\<lparr>entry := c, nextEntry := es\<rparr>) = es @ rest d1 (it2\<lparr>entry := []\<rparr>)"
          using Cons by (simp add: rest_def d1_def ht_def dictIsRehashing_def)
        then show ?thesis using True s N h(4) Cons st
          by (subst dictNext.simps) (simp add: d1_def it'_def k_def f_def started_def)
      next
        case Nil
        let ?it = "it2\<lparr>entry := []\<rparr>"
        have "left d1 ?it + (if entry ?it = [] then 0 else 1) < left d it + (if entry it = [] then 0 else 1)"
          using N(4) h(5) True by simp
        then obtain it1 r where IH: "dictNext addr d1 ?it = Some (d1\<lparr>iterators := iterators d1 +
              (if started ?it \<or> \<not> safe ?it then 0 else 1)\<rparr>, it1, r)" "started it1" "-1 \<le> index it1"
            "safe it1 = safe ?it" "fingerprint it1 = (if started ?it \<or> safe ?it then fingerprint ?it else dictFingerprint addr d1)"
            "case rest d1 ?it of [] \<Rightarrow> r = None | e # es \<Rightarrow> r = Some e \<and> rest d1 it1 = es"
          using less.hyps [of d1 ?it] h(1) N(5) by auto
        have "started ?it" using st by (simp add: started_def)
        then have "fingerprint it1 = f" "safe it1 = safe it" "dictNext addr d1 ?it = Some (d1, it1, r)"
          using N(6,7) IH(1,4,5) by (simp_all add: it'_def)
        moreover from this have "dictNext addr d it = Some (d1, it1, r)"
          using True s N(1,2) Nil by (subst dictNext.simps) simp
        moreover have R: "rest d1 x = rest d x" for x by (simp add: d1_def)
        ultimately show ?thesis using IH(2,3) IH(6) [unfolded R] N(3) [unfolded R h(4)] h(4) [unfolded R] Nil
          by (auto simp: d1_def k_def f_def)
      qed
    qed
  next
    case False
    then have st: "started it" using less.prems(3) by simp
    show ?thesis
    proof (cases "nextEntry it")
      case (Cons e es)
      have "rest d it = e # rest d (it\<lparr>entry := nextEntry it, nextEntry := es\<rparr>)"
        using False Cons by (simp add: rest_def)
      then show ?thesis using False Cons less.prems st
        by (subst dictNext.simps) (simp split: list.split)
    next
      case Nil
      let ?it = "it\<lparr>entry := []\<rparr>"
      have "rest d ?it = rest d it" using False Nil by (simp add: rest_def)
      moreover have "dictNext addr d it = dictNext addr d ?it"
        using False Nil by (subst dictNext.simps) simp
      ultimately show ?thesis using less.hyps [of d ?it] less.prems False st by simp
    qed
  qed
qed

lemma iterate_rest:
  assumes "small_tables d" "-1 \<le> index it" "entry it \<noteq> [] \<Longrightarrow> started it"
  shows "\<exists>it1. iterate addr d it =
      Some (d\<lparr>iterators := iterators d + (if started it \<or> \<not> safe it then 0 else 1)\<rparr>, it1, rest d it) \<and>
    started it1 \<and> safe it1 = safe it \<and>
    fingerprint it1 = (if started it \<or> safe it then fingerprint it else dictFingerprint addr d)"
  using assms
proof (induction "rest d it" arbitrary: d it)
  case Nil
  then show ?case using dictNext_rest [of d it addr] by (subst iterate.simps) auto
next
  case (Cons e es)
  let ?d = "d\<lparr>iterators := iterators d + (if started it \<or> \<not> safe it then 0 else 1)\<rparr>"
  obtain it1 where N: "dictNext addr d it = Some (?d, it1, Some e)" "started it1" "-1 \<le> index it1" "safe it1 = safe it"
      "fingerprint it1 = (if started it \<or> safe it then fingerprint it else dictFingerprint addr d)" "rest d it1 = es"
    using dictNext_rest [OF Cons.prems, of addr, unfolded Cons.hyps(2) [symmetric] list.case] by blast
  have "es = rest ?d it1" using N(6) by simp
  from Cons.hyps(1) [OF this] N(2,3) Cons.prems(1)
  obtain it2 where "iterate addr ?d it1 = Some (?d, it2, es)" "started it2" "safe it2 = safe it1" "fingerprint it2 = fingerprint it1"
    by (auto simp: N(6))
  then show ?case using N Cons.hyps(2) [symmetric] by (subst iterate.simps) simp
qed

text \<open>
  C15. A complete iteration over a dictionary that is not modified visits every entry exactly once,
  those of the first table in order of the buckets and then, while rehashing, those of the second,
  and then returns NULL. A safe iterator is registered during the iteration, so that no rehashing
  step can move entries, and releasing it restores the dictionary; releasing an unsafe iterator
  finds the fingerprint unchanged.
\<close>

theorem dict_iteration_exact:
  assumes "shape_ok ty d" "htsize (ht0 d) < 2 ^ 31" "htsize (ht1 d) < 2 ^ 31"
  shows "(\<exists>it1. iterate addr d dictGetSafeIterator =
        Some (d\<lparr>iterators := iterators d + 1\<rparr>, it1, concat (table (ht0 d)) @ concat (table (ht1 d))) \<and>
      dictReleaseIterator addr (d\<lparr>iterators := iterators d + 1\<rparr>) it1 = Some d) \<and>
    (\<exists>it1. iterate addr d dictGetIterator = Some (d, it1, concat (table (ht0 d)) @ concat (table (ht1 d))) \<and>
      dictReleaseIterator addr d it1 = Some d) \<and>
    dictRehashStep ty (d\<lparr>iterators := iterators d + 1\<rparr>) = Some (d\<lparr>iterators := iterators d + 1\<rparr>)"
proof -
  have sm: "small_tables d"
    using assms ht_ok_length [of ty] ht_ok_size [of ty]
    by (auto simp: small_tables_def shape_ok_def rehash_ok_def dictReset_def split: if_splits)
  have r: "rest d it = concat (table (ht0 d)) @ concat (table (ht1 d))"
    if "entry it = []" "index it = -1" "\<not> itable it" for it
    using that assms(1) by (auto simp: rest_def ht_def shape_ok_def dictReset_def)
  have "\<not> started dictGetSafeIterator" "\<not> started dictGetIterator" "safe dictGetSafeIterator" "\<not> safe dictGetIterator"
    by (simp_all add: started_def dictGetSafeIterator_def dictGetIterator_def)
  then show ?thesis
    using iterate_rest [OF sm, of dictGetSafeIterator addr] iterate_rest [OF sm, of dictGetIterator addr]
    by (auto simp: r dictGetSafeIterator_def dictGetIterator_def dictReleaseIterator_def started_def dictRehashStep_def)
qed

theorem dict_iteration_exact_witness:
  "\<exists>it1. iterate (0, 0) rehashing_dict dictGetIterator =
     Some (rehashing_dict, it1, [\<lparr>key = 5, val = Some 1\<rparr>, \<lparr>key = 1, val = Some 2\<rparr>, \<lparr>key = 3, val = Some 3\<rparr>, \<lparr>key = 4, val = Some 4\<rparr>])"
  using dict_iteration_exact [OF rehashing_dict_ok, of "(0, 0)"] by (auto simp: rehashing_dict_def)

subsection \<open>Random entries are entries, and all of them can be drawn\<close>

lemma random_slot_ok:
  assumes "shape_ok ty d" "htsize (ht0 d) \<noteq> 0"
  shows "\<exists>he. random_slot d r = Some he \<and> set he \<subseteq> set_mset (ents d)"
proof -
  have nth: "chain_at t i = Some (table t ! i) \<and> set (table t ! i) \<subseteq> set_mset (ht_ents t)"
    if "ht_ok ty t" "i < htsize t" for t :: "('a, 'b) dictht" and i
    using that in_ht_ents [OF that(1)] by auto
  show ?thesis
  proof (cases "dictIsRehashing d")
    case True
    then have ok: "ht_ok ty (ht0 d)" "ht_ok ty (ht1 d)" using assms(1) by (auto simp: shape_ok_def rehash_ok_def)
    define h where "h = r mod (htsize (ht0 d) + htsize (ht1 d))"
    have "h < htsize (ht0 d) + htsize (ht1 d)" using assms(2) by (simp add: h_def)
    then have "htsize (ht0 d) \<le> h \<Longrightarrow> h - htsize (ht0 d) < htsize (ht1 d)" by linarith
    then show ?thesis using True nth [OF ok(1), of h] nth [OF ok(2), of "h - htsize (ht0 d)"]
      by (cases "htsize (ht0 d) \<le> h") (auto simp: random_slot_def Let_def h_def [symmetric] ents_def)
  next
    case False
    then have ok: "ht_ok ty (ht0 d)" using assms by (auto simp: shape_ok_def dictReset_def)
    then obtain b where "htsize (ht0 d) = 2 ^ b" "sizemask (ht0 d) = mask b" by (auto simp: ht_ok_def)
    then show ?thesis using False nth [OF ok, of "unat (of_nat r AND mask b)"] unat_and_mask_less [of "of_nat r" b]
      by (auto simp: random_slot_def ents_def)
  qed
qed

lemma random_loop_sound:
  assumes "random_loop rnd d j = Some q" "\<forall>r he. random_slot d r = Some he \<longrightarrow> set he \<subseteq> M"
  shows "fst q \<noteq> [] \<and> set (fst q) \<subseteq> M"
proof -
  have "(\<forall>r he. random_slot d r = Some he \<longrightarrow> set he \<subseteq> M) \<longrightarrow> fst q \<noteq> [] \<and> set (fst q) \<subseteq> M"
    by (rule random_loop.raw_induct [OF _ assms(1)]) (simp split: Option.bind_splits if_splits; fastforce)
  then show ?thesis using assms(2) by blast
qed

lemma random_loop_hit:
  "random_slot d (rnd j) = Some he \<Longrightarrow> he \<noteq> [] \<Longrightarrow> random_loop rnd d j = Some (he, j + 1)"
  by (subst random_loop.simps) simp

text \<open>The bucket of an entry is drawn by some value of \<open>random()\<close>.\<close>

lemma random_slot_reaches:
  assumes "shape_ok ty d" "e \<in># ents d"
  shows "\<exists>r he. random_slot d r = Some he \<and> e \<in> set he"
proof (cases "dictIsRehashing d")
  case True
  then have ok: "ht_ok ty (ht0 d)" "ht_ok ty (ht1 d)" using assms(1) by (auto simp: shape_ok_def rehash_ok_def)
  consider i where "i < htsize (ht0 d)" "e \<in> set (table (ht0 d) ! i)" | i where "i < htsize (ht1 d)" "e \<in> set (table (ht1 d) ! i)"
    using assms(2) in_ht_ents [OF ok(1)] in_ht_ents [OF ok(2)] by (auto simp: ents_def)
  then show ?thesis
  proof cases
    case (1 i)
    then show ?thesis using True ok by (intro exI [of _ i]) (simp add: random_slot_def)
  next
    case (2 i)
    then show ?thesis using True ok by (intro exI [of _ "htsize (ht0 d) + i"]) (simp add: random_slot_def)
  qed
next
  case False
  then have ok: "ht_ok ty (ht0 d)" and e: "e \<in># ht_ents (ht0 d)"
    using assms by (auto simp: shape_ok_def ents_def)
  obtain b where b: "b \<le> 31" "htsize (ht0 d) = 2 ^ b" "sizemask (ht0 d) = mask b" using ok by (auto simp: ht_ok_def)
  obtain i where i: "i < htsize (ht0 d)" "e \<in> set (table (ht0 d) ! i)" using e in_ht_ents [OF ok] by auto
  have "(2 :: nat) ^ b \<le> 2 ^ 31" using b(1) by (intro power_increasing) simp_all
  then have "i < 2 ^ 64" using i(1) b(2) by simp
  then have "unat (of_nat i AND mask b :: u64) = i" using i(1) b(2) by (simp add: unat_and_mask unsigned_of_nat take_bit_nat_eq_self)
  then show ?thesis using False ok i b(3) by (intro exI [of _ i]) (simp add: random_slot_def)
qed



end
