(* ===== verification/Endian.thy ===== *)
theory Endian
  imports Prelude
begin

text \<open>
  Integers in memory: the little-endian representation that \<open>src/lib/src/endianconv.c\<close> keeps on every
  machine, as functions between numbers and lists of bytes, and the byte reversals \<open>memrev16\<close>,
  \<open>memrev32\<close> and \<open>memrev64\<close> with the conversions \<open>intrev16\<close>, \<open>intrev32\<close> and \<open>intrev64\<close>.
\<close>

fun le_bytes :: "nat \<Rightarrow> nat \<Rightarrow> bytes" where
  "le_bytes 0 n = []"
| "le_bytes (Suc k) n = char_of (n mod 256) # le_bytes k (n div 256)"

fun le_nat :: "bytes \<Rightarrow> nat" where
  "le_nat [] = 0"
| "le_nat (c # cs) = code c + 256 * le_nat cs"

text \<open>Two's complement at a width of \<open>k\<close> bytes.\<close>

definition int_bytes :: "nat \<Rightarrow> int \<Rightarrow> bytes" where
  "int_bytes k v = le_bytes k (nat (v mod 256 ^ k))"

definition bytes_int :: "bytes \<Rightarrow> int" where
  "bytes_int cs =
     (let n = int (le_nat cs); m = 256 ^ length cs in if 2 * n < m then n else n - m)"

definition fits :: "nat \<Rightarrow> int \<Rightarrow> bool" where
  "fits k v \<longleftrightarrow> - (256 ^ k) \<le> 2 * v \<and> 2 * v < 256 ^ k"

subsection \<open>Byte reversal\<close>

definition swap :: "bytes \<Rightarrow> nat \<Rightarrow> nat \<Rightarrow> bytes" where
  "swap x i j = (let t = x ! i in (x[i := x ! j])[j := t])"

definition memrev16 :: "bytes \<Rightarrow> bytes" where
  "memrev16 x = swap x 0 1"

definition memrev32 :: "bytes \<Rightarrow> bytes" where
  "memrev32 x = swap (swap x 0 3) 1 2"

definition memrev64 :: "bytes \<Rightarrow> bytes" where
  "memrev64 x = swap (swap (swap (swap x 0 7) 1 6) 2 5) 3 4"

text \<open>The conversions of a number on a little-endian machine: reverse its bytes in memory.\<close>

definition intrev16 :: "nat \<Rightarrow> nat" where
  "intrev16 v = le_nat (memrev16 (le_bytes 2 v))"

definition intrev32 :: "nat \<Rightarrow> nat" where
  "intrev32 v = le_nat (memrev32 (le_bytes 4 v))"

definition intrev64 :: "nat \<Rightarrow> nat" where
  "intrev64 v = le_nat (memrev64 (le_bytes 8 v))"

subsection \<open>Round trips\<close>

lemma length_le_bytes [simp]: "length (le_bytes k n) = k"
  by (induction k arbitrary: n) auto

lemma le_nat_less: "le_nat cs < 256 ^ length cs"
proof (induction cs)
  case (Cons c cs)
  have "le_nat (c # cs) < 256 * Suc (le_nat cs)" by simp
  also have "\<dots> \<le> 256 * 256 ^ length cs" using Cons by (intro mult_le_mono) auto
  finally show ?case by simp
qed simp

lemma le_nat_le_bytes: "le_nat (le_bytes k n) = n mod 256 ^ k"
  by (induction k arbitrary: n) (auto simp: mod_mult2_eq of_char_of)

lemma le_bytes_le_nat: "le_bytes (length cs) (le_nat cs) = cs"
proof (induction cs)
  case (Cons c cs)
  have "code c < 256" by simp
  then have "(code c + 256 * le_nat cs) mod 256 = code c" "(code c + 256 * le_nat cs) div 256 = le_nat cs"
    by auto
  then show ?case using Cons by simp
qed simp

lemma length_int_bytes [simp]: "length (int_bytes k v) = k"
  by (simp add: int_bytes_def)

lemma bytes_int_int_bytes:
  assumes "fits k v"
  shows "bytes_int (int_bytes k v) = v"
proof -
  have p: "(0 :: int) < 256 ^ k" by simp
  have "int (le_nat (int_bytes k v)) = v mod 256 ^ k"
  proof -
    have "nat (v mod 256 ^ k) < 256 ^ k" using p pos_mod_bound [OF p, of v] by (simp add: nat_less_iff)
    then show ?thesis by (simp add: int_bytes_def le_nat_le_bytes)
  qed
  moreover have "v mod 256 ^ k = (if 0 \<le> v then v else v + 256 ^ k)"
  proof (cases "0 \<le> v")
    case True
    then show ?thesis using assms by (simp add: fits_def)
  next
    case False
    have "v mod 256 ^ k = (v + 256 ^ k) mod 256 ^ k" by simp
    also have "\<dots> = v + 256 ^ k" using False assms by (intro mod_pos_pos_trivial) (auto simp: fits_def)
    finally show ?thesis using False by simp
  qed
  ultimately show ?thesis using assms by (auto simp: bytes_int_def fits_def Let_def)
qed

lemma int_le_nat_less: "int (le_nat cs) < 256 ^ length cs"
  using le_nat_less [of cs] by (metis of_nat_less_iff of_nat_numeral of_nat_power)

lemma bytes_int_fits: "fits (length cs) (bytes_int cs)"
proof -
  define n where "n = int (le_nat cs)"
  have "n < 256 ^ length cs" "0 \<le> n" using int_le_nat_less [of cs] by (simp_all add: n_def)
  then show ?thesis by (auto simp: bytes_int_def fits_def Let_def n_def [symmetric])
qed

lemma int_bytes_bytes_int: "int_bytes (length cs) (bytes_int cs) = cs"
proof -
  define n where "n = int (le_nat cs)"
  have "n < 256 ^ length cs" "0 \<le> n" using int_le_nat_less [of cs] by (simp_all add: n_def)
  then have "bytes_int cs mod 256 ^ length cs = n"
    by (auto simp: bytes_int_def Let_def n_def [symmetric])
  then show ?thesis by (simp add: int_bytes_def n_def le_bytes_le_nat)
qed

lemma memrev_rev:
  "length x = 2 \<Longrightarrow> memrev16 x = rev x"
  "length x = 4 \<Longrightarrow> memrev32 x = rev x"
  "length x = 8 \<Longrightarrow> memrev64 x = rev x"
  by (auto simp: memrev16_def memrev32_def memrev64_def swap_def Let_def numeral_eq_Suc length_Suc_conv)

text \<open>
  C38. The conversions between the machine's and the stored byte order: the in-memory reversals
  reverse the bytes, so converting twice gives the number back, for every 16, 32 and 64-bit number.
\<close>

theorem intrev_involution:
  "(n < 2 ^ 16 \<longrightarrow> intrev16 (intrev16 n) = n) \<and> (n < 2 ^ 32 \<longrightarrow> intrev32 (intrev32 n) = n) \<and>
   (n < 2 ^ 64 \<longrightarrow> intrev64 (intrev64 n) = n) \<and>
   (length x = 2 \<longrightarrow> memrev16 x = rev x) \<and> (length x = 4 \<longrightarrow> memrev32 x = rev x) \<and> (length x = 8 \<longrightarrow> memrev64 x = rev x)"
proof -
  have twice: "le_nat (r (le_bytes k (le_nat (r (le_bytes k n))))) = n mod 256 ^ k"
    if "\<And>x. length x = k \<Longrightarrow> r x = rev x" for r k
    using that le_bytes_le_nat [of "rev (le_bytes k n)"] by (simp add: le_nat_le_bytes)
  show ?thesis
    using twice [of 2 memrev16] twice [of 4 memrev32] twice [of 8 memrev64]
    by (simp add: intrev16_def intrev32_def intrev64_def memrev_rev)
qed

theorem intrev_involution_witness: "intrev32 (intrev32 305419896) = 305419896 \<and> memrev16 ''ab'' = ''ba''"
  using intrev_involution [of 305419896 "''ab''"] by simp

end
