(* ===== verification/SetInterface.thy ===== *)
theory SetInterface
  imports Prelude "HOL-Library.Monad_Syntax"
begin

text \<open>
  The contract of a set of the server: what adding, removing and looking up a member return and do to the
  members, as long as the set stays below the capacity of its representation. Traces of operations are
  compared with traces over mathematical sets.
\<close>

datatype 'a sop = SAdd 'a | SRemove 'a | SFind 'a

fun sop_arg :: "'a sop \<Rightarrow> 'a" where
  "sop_arg (SAdd v) = v"
| "sop_arg (SRemove v) = v"
| "sop_arg (SFind v) = v"

fun run_sops :: "('s \<Rightarrow> 'a \<Rightarrow> ('s \<times> bool) option) \<Rightarrow> ('s \<Rightarrow> 'a \<Rightarrow> ('s \<times> bool) option) \<Rightarrow>
    ('s \<Rightarrow> 'a \<Rightarrow> bool option) \<Rightarrow> 'a sop list \<Rightarrow> 's \<Rightarrow> ('s \<times> bool list) option" where
  "run_sops add rem mem [] s = Some (s, [])"
| "run_sops add rem mem (p # ps) s =
     do {
       (s1, b) \<leftarrow> (case p of SAdd v \<Rightarrow> add s v | SRemove v \<Rightarrow> rem s v | SFind v \<Rightarrow> map_option (Pair s) (mem s v));
       (s2, bs) \<leftarrow> run_sops add rem mem ps s1;
       Some (s2, b # bs)
     }"

fun set_sops :: "'a sop list \<Rightarrow> 'a set \<Rightarrow> 'a set \<times> bool list" where
  "set_sops [] A = (A, [])"
| "set_sops (SAdd v # ps) A = map_prod id ((#) (v \<notin> A)) (set_sops ps (insert v A))"
| "set_sops (SRemove v # ps) A = map_prod id ((#) (v \<in> A)) (set_sops ps (A - {v}))"
| "set_sops (SFind v # ps) A = map_prod id ((#) (v \<in> A)) (set_sops ps A)"

locale set_type =
  fixes holds :: "'s \<Rightarrow> 'a set \<Rightarrow> bool"
    and valid :: "'a \<Rightarrow> bool"
    and cap :: nat
    and empty_set :: 's
    and add :: "'s \<Rightarrow> 'a \<Rightarrow> ('s \<times> bool) option"
    and rem :: "'s \<Rightarrow> 'a \<Rightarrow> ('s \<times> bool) option"
    and mem :: "'s \<Rightarrow> 'a \<Rightarrow> bool option"
  assumes holds_empty: "holds empty_set {}"
    and holds_finite: "holds s A \<Longrightarrow> finite A"
    and add_law: "holds s A \<Longrightarrow> valid v \<Longrightarrow> card A < cap \<Longrightarrow> \<exists>s'. add s v = Some (s', v \<notin> A) \<and> holds s' (insert v A)"
    and rem_law: "holds s A \<Longrightarrow> valid v \<Longrightarrow> card A \<le> cap \<Longrightarrow> \<exists>s'. rem s v = Some (s', v \<in> A) \<and> holds s' (A - {v})"
    and mem_law: "holds s A \<Longrightarrow> valid v \<Longrightarrow> mem s v = Some (v \<in> A)"
begin

lemma run_correct:
  assumes "holds s A" "card A + length ps \<le> cap" "\<forall>p\<in>set ps. valid (sop_arg p)"
  shows "\<exists>s'. run_sops add rem mem ps s = Some (s', snd (set_sops ps A)) \<and> holds s' (fst (set_sops ps A))"
  using assms
proof (induction ps arbitrary: s A)
  case (Cons p ps)
  have fin: "finite A" using Cons.prems(1) by (rule holds_finite)
  show ?case
  proof (cases p)
    case (SAdd v)
    obtain s1 where s1: "add s v = Some (s1, v \<notin> A)" "holds s1 (insert v A)"
      using add_law [OF Cons.prems(1), of v] Cons.prems(2,3) SAdd by auto
    have "card (insert v A) \<le> card A + 1" by (simp add: card_insert_le_m1 fin card_insert_if)
    then show ?thesis using Cons.IH [OF s1(2)] Cons.prems(2,3) s1(1) SAdd by auto
  next
    case (SRemove v)
    obtain s1 where s1: "rem s v = Some (s1, v \<in> A)" "holds s1 (A - {v})"
      using rem_law [OF Cons.prems(1), of v] Cons.prems(2,3) SRemove by auto
    have "card (A - {v}) \<le> card A" by (simp add: card_mono fin)
    then show ?thesis using Cons.IH [OF s1(2)] Cons.prems(2,3) s1(1) SRemove by auto
  next
    case (SFind v)
    then show ?thesis
      using Cons.IH [OF Cons.prems(1)] Cons.prems(2,3) mem_law [OF Cons.prems(1), of v] by auto
  qed
qed simp

end

end
