(* ===== verification/Intset.thy ===== *)
theory Intset
  imports Endian SetInterface
begin

text \<open>
  The sorted integer arrays of \<open>src/lib/src/intset.c\<close>, at the level of the bytes of their contents.
  A byte of memory that was not written yet is \<open>None\<close>; reading it, or any access outside the
  contents, makes an operation fail. The size computed by \<open>intsetResize\<close> wraps at 32 bits as in C.
\<close>

record intset =
  encoding :: nat
  ilength :: nat
  contents :: "char option list"

definition INTSET_ENC_INT16 :: nat where "INTSET_ENC_INT16 = 2"
definition INTSET_ENC_INT32 :: nat where "INTSET_ENC_INT32 = 4"
definition INTSET_ENC_INT64 :: nat where "INTSET_ENC_INT64 = 8"

definition intsetValueEncoding :: "int \<Rightarrow> nat" where
  "intsetValueEncoding v =
     (if v < INT_MIN \<or> v > INT_MAX then INTSET_ENC_INT64
      else if v < SHRT_MIN \<or> v > SHRT_MAX then INTSET_ENC_INT32
      else INTSET_ENC_INT16)"

subsection \<open>Memory\<close>

definition peek :: "char option list \<Rightarrow> nat \<Rightarrow> nat \<Rightarrow> bytes option" where
  "peek m i k = (if i + k \<le> length m then those (take k (drop i m)) else None)"

definition poke :: "char option list \<Rightarrow> nat \<Rightarrow> char option list \<Rightarrow> char option list option" where
  "poke m i c =
     (if i + length c \<le> length m then Some (take i m @ c @ drop (i + length c) m) else None)"

definition resize :: "char option list \<Rightarrow> nat \<Rightarrow> char option list" where
  "resize m n = take n m @ replicate (n - length m) None"

subsection \<open>Operations\<close>

definition intsetGetEncoded :: "intset \<Rightarrow> nat \<Rightarrow> nat \<Rightarrow> int option" where
  "intsetGetEncoded is pos enc =
     (let w = (if enc = INTSET_ENC_INT64 then 8 else if enc = INTSET_ENC_INT32 then 4 else 2)
      in map_option bytes_int (peek (contents is) (pos * w) w))"

definition intsetGet1 :: "intset \<Rightarrow> nat \<Rightarrow> int option" where
  "intsetGet1 is pos = intsetGetEncoded is pos (encoding is)"

definition intsetSet :: "intset \<Rightarrow> nat \<Rightarrow> int \<Rightarrow> intset option" where
  "intsetSet is pos value =
     (let w = (if encoding is = INTSET_ENC_INT64 then 8 else if encoding is = INTSET_ENC_INT32 then 4 else 2)
      in map_option (\<lambda>m. is\<lparr>contents := m\<rparr>) (poke (contents is) (pos * w) (map Some (int_bytes w value))))"

definition intsetNew :: intset where
  "intsetNew = \<lparr>encoding = INTSET_ENC_INT16, ilength = 0, contents = []\<rparr>"

definition intsetResize :: "intset \<Rightarrow> nat \<Rightarrow> intset" where
  "intsetResize is len = is\<lparr>contents := resize (contents is) (len * encoding is mod 2 ^ 32)\<rparr>"

text \<open>The binary search; the result is \<open>(lo, mid, cur)\<close> at the end of the loop.\<close>

function bsearch_loop :: "intset \<Rightarrow> int \<Rightarrow> int \<Rightarrow> int \<Rightarrow> int \<Rightarrow> int \<Rightarrow> (int \<times> int \<times> int) option" where
  "bsearch_loop is value lo hi mid cur =
     (if hi < lo then Some (lo, mid, cur)
      else
        let mid' = (lo + hi) div 2
        in do {
          cur' \<leftarrow> intsetGet1 is (nat mid');
          (if value > cur' then bsearch_loop is value (mid' + 1) hi mid' cur'
           else if value < cur' then bsearch_loop is value lo (mid' - 1) mid' cur'
           else Some (lo, mid', cur'))
        })"
  by pat_completeness auto

termination bsearch_loop
  by (relation "measure (\<lambda>(is, value, lo, hi, mid, cur). nat (hi - lo + 1))") auto

declare bsearch_loop.simps [simp del]

definition intsetSearch :: "intset \<Rightarrow> int \<Rightarrow> (bool \<times> nat) option" where
  "intsetSearch is value =
     (if ilength is = 0 then Some (False, 0)
      else do {
        hi \<leftarrow> intsetGet1 is (ilength is - 1);
        if value > hi then Some (False, ilength is)
        else do {
          lo \<leftarrow> intsetGet1 is 0;
          if value < lo then Some (False, 0)
          else do {
            (m, mid, cur) \<leftarrow> bsearch_loop is value 0 (int (ilength is) - 1) (-1) (-1);
            Some (if value = cur then (True, nat mid) else (False, nat m))
          }
        }
      })"

fun upgrade_loop :: "intset \<Rightarrow> nat \<Rightarrow> nat \<Rightarrow> nat \<Rightarrow> intset option" where
  "upgrade_loop is curenc prepend 0 = Some is"
| "upgrade_loop is curenc prepend (Suc n) =
     do {
       v \<leftarrow> intsetGetEncoded is n curenc;
       is1 \<leftarrow> intsetSet is (n + prepend) v;
       upgrade_loop is1 curenc prepend n
     }"

definition intsetUpgradeAndAdd :: "intset \<Rightarrow> int \<Rightarrow> intset option" where
  "intsetUpgradeAndAdd is value =
     (let curenc = encoding is;
          newenc = intsetValueEncoding value;
          n = ilength is;
          prepend = (if value < 0 then 1 else 0);
          is1 = intsetResize (is\<lparr>encoding := newenc\<rparr>) (ilength is + 1)
      in do {
        is2 \<leftarrow> upgrade_loop is1 curenc prepend n;
        is3 \<leftarrow> (if prepend = 1 then intsetSet is2 0 value else intsetSet is2 (ilength is2) value);
        Some (is3\<lparr>ilength := ilength is3 + 1\<rparr>)
      })"

definition intsetMoveTail :: "intset \<Rightarrow> nat \<Rightarrow> nat \<Rightarrow> intset option" where
  "intsetMoveTail is from to =
     (let w = (if encoding is = INTSET_ENC_INT64 then 8 else if encoding is = INTSET_ENC_INT32 then 4 else 2);
          bytes = (ilength is - from) * w
      in if from * w + bytes \<le> length (contents is)
         then map_option (\<lambda>m. is\<lparr>contents := m\<rparr>)
                (poke (contents is) (to * w) (take bytes (drop (from * w) (contents is))))
         else None)"

definition intsetAdd :: "intset \<Rightarrow> int \<Rightarrow> (intset \<times> bool) option" where
  "intsetAdd is value =
     (let valenc = intsetValueEncoding value
      in if valenc > encoding is then map_option (\<lambda>i. (i, True)) (intsetUpgradeAndAdd is value)
         else do {
           (found, pos) \<leftarrow> intsetSearch is value;
           if found then Some (is, False)
           else do {
             let is1 = intsetResize is (ilength is + 1);
             is2 \<leftarrow> (if pos < ilength is1 then intsetMoveTail is1 pos (pos + 1) else Some is1);
             is3 \<leftarrow> intsetSet is2 pos value;
             Some (is3\<lparr>ilength := ilength is3 + 1\<rparr>, True)
           }
         })"

definition intsetRemove :: "intset \<Rightarrow> int \<Rightarrow> (intset \<times> bool) option" where
  "intsetRemove is value =
     (let valenc = intsetValueEncoding value
      in if valenc \<le> encoding is then do {
           (found, pos) \<leftarrow> intsetSearch is value;
           if \<not> found then Some (is, False)
           else do {
             let len = ilength is;
             is1 \<leftarrow> (if pos < len - 1 then intsetMoveTail is (pos + 1) pos else Some is);
             Some ((intsetResize is1 (len - 1))\<lparr>ilength := len - 1\<rparr>, True)
           }
         }
         else Some (is, False))"

definition intsetFind :: "intset \<Rightarrow> int \<Rightarrow> bool option" where
  "intsetFind is value =
     (let valenc = intsetValueEncoding value
      in if valenc \<le> encoding is then map_option fst (intsetSearch is value) else Some False)"

definition intsetRandom :: "nat \<Rightarrow> intset \<Rightarrow> int option" where
  "intsetRandom rnd is = (if ilength is = 0 then None else intsetGet1 is (rnd mod ilength is))"

definition intsetGet :: "intset \<Rightarrow> nat \<Rightarrow> int option option" where
  "intsetGet is pos =
     (if pos < ilength is then map_option Some (intsetGet1 is pos) else Some None)"

definition intsetLen :: "intset \<Rightarrow> nat" where
  "intsetLen is = ilength is"

definition intsetBlobLen :: "intset \<Rightarrow> nat" where
  "intsetBlobLen is = 8 + ilength is * encoding is mod 2 ^ 32"

subsection \<open>The set an intset holds\<close>

definition encode :: "nat \<Rightarrow> int list \<Rightarrow> bytes" where
  "encode w xs = concat (map (int_bytes w) xs)"

definition intset_ok :: "intset \<Rightarrow> int list \<Rightarrow> bool" where
  "intset_ok is xs \<longleftrightarrow>
     encoding is \<in> {2, 4, 8} \<and> ilength is = length xs \<and>
     contents is = map Some (encode (encoding is) xs) \<and>
     sorted_wrt (<) xs \<and> (\<forall>x\<in>set xs. fits (encoding is) x)"

lemma length_encode [simp]: "length (encode w xs) = length xs * w"
  by (induction xs) (auto simp: encode_def)

lemma encode_append [simp]: "encode w (xs @ ys) = encode w xs @ encode w ys"
  by (simp add: encode_def)

lemma encode_Cons [simp]: "encode w (x # xs) = int_bytes w x @ encode w xs"
  by (simp add: encode_def)

lemma encode_Nil [simp]: "encode w [] = []"
  by (simp add: encode_def)

lemma take_encode: "take (i * w) (encode w xs) = encode w (take i xs)"
proof (cases "i \<le> length xs")
  case True
  have "encode w xs = encode w (take i xs) @ encode w (drop i xs)" by (simp flip: encode_append)
  then show ?thesis using True by simp
qed simp

lemma drop_encode: "drop (i * w) (encode w xs) = encode w (drop i xs)"
proof (cases "i \<le> length xs")
  case True
  have "encode w xs = encode w (take i xs) @ encode w (drop i xs)" by (simp flip: encode_append)
  then show ?thesis using True by simp
qed simp

lemma encode_nth:
  assumes "i < length xs"
  shows "take w (drop (i * w) (encode w xs)) = int_bytes w (xs ! i)"
  using assms by (simp add: drop_encode flip: Cons_nth_drop_Suc)

lemma those_map_Some [simp]: "those (map Some xs) = Some xs"
  by (induction xs) auto

definition width :: "nat \<Rightarrow> nat" where
  "width enc = (if enc = INTSET_ENC_INT64 then 8 else if enc = INTSET_ENC_INT32 then 4 else 2)"

lemma width_id: "enc \<in> {2, 4, 8} \<Longrightarrow> width enc = enc"
  by (auto simp: width_def INTSET_ENC_INT64_def INTSET_ENC_INT32_def)

lemmas intset_folds = width_def [symmetric]

lemma get_ok:
  assumes "enc \<in> {2, 4, 8}" "take (n * enc) (contents is) = map Some (encode enc xs)" "length xs = n"
    "i < n" "\<forall>x\<in>set xs. fits enc x"
  shows "intsetGetEncoded is i enc = Some (xs ! i)"
proof -
  have le: "i * enc + enc \<le> n * enc" using assms(4) by (metis Suc_leI add.commute mult_Suc mult_le_mono1)
  have nl: "n * enc \<le> length (contents is)"
    using arg_cong [OF assms(2), of length] assms(3) by simp
  have "take enc (drop (i * enc) (contents is)) = take enc (drop (i * enc) (take (n * enc) (contents is)))"
    using le by (simp add: drop_take min_def)
  also have "\<dots> = map Some (int_bytes enc (xs ! i))"
    using assms(3,4) by (simp add: assms(2) drop_map take_map encode_nth)
  finally show ?thesis
    using assms le nl by (simp add: intsetGetEncoded_def intset_folds width_id peek_def bytes_int_int_bytes)
qed

lemma get1_ok: "intset_ok is xs \<Longrightarrow> i < length xs \<Longrightarrow> intsetGet1 is i = Some (xs ! i)"
  unfolding intsetGet1_def by (rule get_ok [of _ "length xs"]) (auto simp: intset_ok_def)

subsection \<open>Searching\<close>

text \<open>\<open>pos\<close> splits the sorted array at \<open>v\<close>.\<close>

definition splits_at :: "int list \<Rightarrow> int \<Rightarrow> nat \<Rightarrow> bool" where
  "splits_at xs v pos \<longleftrightarrow>
     pos \<le> length xs \<and> (\<forall>x\<in>set (take pos xs). x < v) \<and> (\<forall>x\<in>set (drop pos xs). v < x)"

lemma splits_atI:
  assumes "sorted_wrt (<) xs" "n \<le> length xs" "\<forall>i<n. xs ! i < v" "\<forall>i. n \<le> i \<and> i < length xs \<longrightarrow> v < xs ! i"
  shows "splits_at xs v n"
  using assms by (auto simp: splits_at_def in_set_conv_nth)

lemma sorted_last: "sorted_wrt (<) xs \<Longrightarrow> x \<in> set xs \<Longrightarrow> x \<le> last (xs :: int list)"
  by (induction xs) (auto dest: less_imp_le)

lemma sorted_hd: "sorted_wrt (<) xs \<Longrightarrow> x \<in> set xs \<Longrightarrow> hd xs \<le> (x :: int)"
  by (cases xs) (auto dest: less_imp_le)

lemma bsearch_loop_ok:
  assumes ok: "intset_ok is xs"
    and b: "0 \<le> lo" "hi < int (length xs)" "lo \<le> hi + 1" "lo \<le> hi \<or> cur \<noteq> v"
    and inv: "\<forall>i<length xs. int i < lo \<longrightarrow> xs ! i < v" "\<forall>i<length xs. hi < int i \<longrightarrow> v < xs ! i"
  shows "\<exists>m mid' cur'. bsearch_loop is v lo hi mid cur = Some (m, mid', cur') \<and>
    (if v = cur' then 0 \<le> mid' \<and> mid' < int (length xs) \<and> xs ! nat mid' = v
     else 0 \<le> m \<and> splits_at xs v (nat m))"
  using b inv
proof (induction "nat (hi - lo + 1)" arbitrary: lo hi mid cur rule: less_induct)
  case less
  have srt: "sorted_wrt (<) xs" using ok by (simp add: intset_ok_def)
  show ?case
  proof (cases "hi < lo")
    case True
    then have "splits_at xs v (nat lo)"
      using less.prems by (intro splits_atI [OF srt]) auto
    then show ?thesis using True less.prems by (subst bsearch_loop.simps) auto
  next
    case False
    define c where "c = (lo + hi) div 2"
    have c: "lo \<le> c" "c \<le> hi" using False by (auto simp: c_def)
    then have cn: "0 \<le> c" "nat c < length xs" using less.prems by auto
    note g = get1_ok [OF ok cn(2)]
    have lt: "xs ! i < xs ! nat c" if "int i < c" "i < length xs" for i
      using srt that cn by (simp add: sorted_wrt_iff_nth_less)
    have gt: "xs ! nat c < xs ! i" if "c < int i" "i < length xs" for i
      using srt that cn by (simp add: sorted_wrt_iff_nth_less)
    consider "v > xs ! nat c" | "v < xs ! nat c" | "v = xs ! nat c" by linarith
    then show ?thesis
    proof cases
      case 1
      have "\<exists>m mid' cur'. bsearch_loop is v (c + 1) hi c (xs ! nat c) = Some (m, mid', cur') \<and>
        (if v = cur' then 0 \<le> mid' \<and> mid' < int (length xs) \<and> xs ! nat mid' = v
         else 0 \<le> m \<and> splits_at xs v (nat m))"
      proof (rule less.hyps)
        show "\<forall>i<length xs. int i < c + 1 \<longrightarrow> xs ! i < v"
          using lt 1 by (metis le_less_trans less_imp_le nat_int order_le_less zle_add1_eq_le zless_add1_eq less_trans)
      qed (use 1 c less.prems in auto)
      then show ?thesis using False 1 g by (subst bsearch_loop.simps) (simp add: c_def [symmetric])
    next
      case 2
      have "\<exists>m mid' cur'. bsearch_loop is v lo (c - 1) c (xs ! nat c) = Some (m, mid', cur') \<and>
        (if v = cur' then 0 \<le> mid' \<and> mid' < int (length xs) \<and> xs ! nat mid' = v
         else 0 \<le> m \<and> splits_at xs v (nat m))"
      proof (rule less.hyps)
        show "\<forall>i<length xs. c - 1 < int i \<longrightarrow> v < xs ! i"
        proof (intro allI impI)
          fix i assume "i < length xs" "c - 1 < int i"
          then show "v < xs ! i" using gt [of i] 2 by (cases "int i = c") auto
        qed
      qed (use 2 c less.prems in auto)
      then show ?thesis using False 2 g by (subst bsearch_loop.simps) (simp add: c_def [symmetric])
    next
      case 3
      then show ?thesis using False g cn by (subst bsearch_loop.simps) (auto simp: c_def [symmetric])
    qed
  qed
qed

lemma intsetSearch_ok:
  assumes ok: "intset_ok is xs"
  shows "\<exists>pos. intsetSearch is v = Some (v \<in> set xs, pos) \<and>
    (if v \<in> set xs then pos < length xs \<and> xs ! pos = v else splits_at xs v pos)"
proof (cases "xs = []")
  case True
  then show ?thesis using ok by (simp add: intsetSearch_def intset_ok_def splits_at_def)
next
  case False
  have srt: "sorted_wrt (<) xs" and len: "ilength is = length xs" using ok by (auto simp: intset_ok_def)
  have hi: "intsetGet1 is (ilength is - 1) = Some (last xs)" and lo: "intsetGet1 is 0 = Some (hd xs)"
    using False get1_ok [OF ok] by (simp_all add: len last_conv_nth hd_conv_nth)
  have le_last: "x \<le> last xs" and hd_le: "hd xs \<le> x" if "x \<in> set xs" for x
    using sorted_last [OF srt that] sorted_hd [OF srt that] by auto
  show ?thesis
  proof (cases "v > last xs \<or> v < hd xs")
    case True
    then show ?thesis
      using False hi lo len le_last hd_le
      by (auto simp: intsetSearch_def splits_at_def) fastforce+
  next
    case nf: False
    obtain m mid cur where l: "bsearch_loop is v 0 (int (length xs) - 1) (-1) (-1) = Some (m, mid, cur)"
        "if v = cur then 0 \<le> mid \<and> mid < int (length xs) \<and> xs ! nat mid = v else 0 \<le> m \<and> splits_at xs v (nat m)"
      using bsearch_loop_ok [OF ok, of 0 "int (length xs) - 1" "-1" v "-1"] False by (auto simp: Suc_le_eq)
    show ?thesis
    proof (cases "v = cur")
      case True
      then have "v \<in> set xs" using l(2) by (auto simp: in_set_conv_nth intro: exI [of _ "nat mid"])
      then show ?thesis using True l nf hi lo len False by (auto simp: intsetSearch_def)
    next
      case nc: False
      then have s: "splits_at xs v (nat m)" using l(2) by simp
      have "v \<notin> set xs"
      proof
        assume "v \<in> set xs"
        then have "v \<in> set (take (nat m) xs) \<or> v \<in> set (drop (nat m) xs)" by (metis append_take_drop_id set_append Un_iff)
        then show False using s by (auto simp: splits_at_def)
      qed
      then show ?thesis using nc s l(1) nf hi lo len False by (auto simp: intsetSearch_def)
    qed
  qed
qed

subsection \<open>Writing\<close>

lemma set_ok:
  assumes "encoding is \<in> {2, 4, 8}" "contents is = a @ b @ c" "length a = pos * encoding is" "length b = encoding is"
  shows "intsetSet is pos v = Some (is\<lparr>contents := a @ map Some (int_bytes (encoding is) v) @ c\<rparr>)"
  using assms by (simp add: intsetSet_def intset_folds width_id poke_def)

lemma move_ok:
  assumes "encoding is \<in> {2, 4, 8}" "contents is = a @ t @ r" "length a = from * encoding is"
    "length t = (ilength is - from) * encoding is" "to * encoding is + length t \<le> length (contents is)"
  shows "intsetMoveTail is from to = Some (is\<lparr>contents :=
    take (to * encoding is) (contents is) @ t @ drop (to * encoding is + length t) (contents is)\<rparr>)"
  using assms by (simp add: intsetMoveTail_def intset_folds width_id poke_def Let_def)

lemma fits_enc:
  "fits 2 v \<longleftrightarrow> SHRT_MIN \<le> v \<and> v \<le> SHRT_MAX"
  "fits 4 v \<longleftrightarrow> INT_MIN \<le> v \<and> v \<le> INT_MAX"
  "fits 8 v \<longleftrightarrow> in_ll v"
  by (auto simp: fits_def in_ll_def)

lemmas enc_defs = intsetValueEncoding_def INTSET_ENC_INT16_def INTSET_ENC_INT32_def INTSET_ENC_INT64_def

lemma value_encoding:
  "intsetValueEncoding v \<in> {2, 4, 8}" "in_ll v \<Longrightarrow> fits (intsetValueEncoding v) v"
  by (auto simp: enc_defs fits_enc)

lemma fits_mono:
  assumes "fits j v" "j \<le> k"
  shows "fits k v"
proof -
  have "(256 :: int) ^ j \<le> 256 ^ k" using assms(2) by (intro power_increasing) auto
  then show ?thesis using assms(1) unfolding fits_def by linarith
qed

lemma fits_value: "in_ll v \<Longrightarrow> intsetValueEncoding v \<le> k \<Longrightarrow> fits k v"
  using value_encoding(2) fits_mono by blast

lemma upgrade_outside:
  assumes "enc \<in> {2, 4, 8}" "enc < intsetValueEncoding v" "fits enc x"
  shows "if v < 0 then v < x else x < v"
  using assms by (auto simp: enc_defs fits_enc split: if_splits)

lemma sorted_insert_at:
  assumes "sorted_wrt (<) xs" "splits_at xs v pos"
  shows "sorted_wrt (<) (take pos xs @ v # drop pos xs)"
  using assms
  by (auto simp: splits_at_def sorted_wrt_append sorted_wrt_take sorted_wrt_drop dest: less_trans)

lemma sorted_delete_at:
  assumes "sorted_wrt (<) (us @ x # vs)"
  shows "sorted_wrt (<) (us @ vs)"
  using assms by (auto simp: sorted_wrt_append)

lemma upgrade_loop_ok:
  assumes e: "cur \<in> {2, 4, 8}" "cur \<le> encoding is" "encoding is \<in> {2, 4, 8}"
    and f: "\<forall>x\<in>set xs. fits cur x"
    and l: "length (contents is) = (length xs + 1) * encoding is" "p \<le> 1" "j \<le> length xs"
    and t: "take (j * cur) (contents is) = map Some (encode cur (take j xs))"
  shows "\<exists>pre. length pre = p * encoding is \<and> upgrade_loop is cur p j =
    Some (is\<lparr>contents := pre @ map Some (encode (encoding is) (take j xs)) @ drop ((j + p) * encoding is) (contents is)\<rparr>)"
  using e l t
proof (induction j arbitrary: "is")
  case 0
  then have "p * encoding is \<le> length (contents is)" by (cases p) auto
  then show ?case by (intro exI [of _ "take (p * encoding is) (contents is)"]) (simp add: min_def)
next
  case (Suc j)
  let ?w = "encoding is" and ?c = "contents is"
  have g: "intsetGetEncoded is j cur = Some (xs ! j)"
    using get_ok [OF Suc.prems(1) Suc.prems(7), of j] Suc.prems(6) f by (auto dest: in_set_takeD)
  define k where "k = (j + p) * ?w"
  have k': "(Suc j + p) * ?w = k + ?w" by (simp add: k_def)
  have "(j + p + 1) * ?w \<le> (length xs + 1) * ?w" using Suc.prems(5,6) by (intro mult_le_mono1) simp
  then have le: "k + ?w \<le> length ?c" by (simp only: Suc.prems(4)) (simp add: k_def)
  have sp: "?c = take k ?c @ take ?w (drop k ?c) @ drop (k + ?w) ?c"
    by (metis add.commute append_take_drop_id drop_drop)
  define c1 where "c1 = take k ?c @ map Some (int_bytes ?w (xs ! j)) @ drop (k + ?w) ?c"
  have s: "intsetSet is (j + p) (xs ! j) = Some (is\<lparr>contents := c1\<rparr>)"
    unfolding c1_def by (rule set_ok [OF Suc.prems(3) sp]) (use le in \<open>auto simp: min_def simp flip: k_def\<close>)
  have "j * cur \<le> k" unfolding k_def using Suc.prems(2) by (intro mult_le_mono) auto
  then have "take (j * cur) c1 = take (j * cur) ?c"
    using le by (simp add: c1_def min_def)
  also have "\<dots> = take (j * cur) (take (Suc j * cur) ?c)" by (simp add: min_def)
  also have "\<dots> = map Some (encode cur (take j xs))"
    using Suc.prems(6) by (simp only: Suc.prems(7) take_map take_encode) (simp add: min_def)
  finally have t2: "take (j * cur) c1 = map Some (encode cur (take j xs))" .
  have lc: "length c1 = (length xs + 1) * ?w"
    using le Suc.prems(4) by (simp add: c1_def)
  obtain pre where pre: "length pre = p * ?w" "upgrade_loop (is\<lparr>contents := c1\<rparr>) cur p j =
      Some (is\<lparr>contents := pre @ map Some (encode ?w (take j xs)) @ drop ((j + p) * ?w) c1\<rparr>)"
    using Suc.IH [of "is\<lparr>contents := c1\<rparr>"] Suc.prems lc t2 by auto
  have "drop ((j + p) * ?w) c1 = map Some (int_bytes ?w (xs ! j)) @ drop ((Suc j + p) * ?w) ?c"
    using le by (simp only: k' flip: k_def) (simp add: c1_def min_def)
  then show ?case using pre g s Suc.prems(6) by (intro exI [of _ pre]) (simp add: take_Suc_conv_app_nth)
qed

lemma resize_ok:
  assumes "(length xs + 1) * 8 < 2 ^ 32" "w \<le> 8" "encoding is = w"
  shows "intsetResize is (length xs + 1) = is\<lparr>contents := resize (contents is) ((length xs + 1) * w)\<rparr>"
proof -
  have "(length xs + 1) * w \<le> (length xs + 1) * 8" using assms(2) by (intro mult_le_mono) auto
  then have "(length xs + 1) * w < 2 ^ 32" using assms(1) by (rule le_less_trans)
  then show ?thesis by (simp only: intsetResize_def assms(3) mod_less)
qed

lemma upgrade_ok:
  assumes ok: "intset_ok is xs" and v: "in_ll v" "encoding is < intsetValueEncoding v"
    and small: "(length xs + 1) * 8 < 2 ^ 32"
  shows "\<exists>is'. intsetUpgradeAndAdd is v = Some is' \<and>
    intset_ok is' (if v < 0 then v # xs else xs @ [v])"
proof -
  let ?n = "intsetValueEncoding v" and ?e = "encoding is"
  define is1 where "is1 = is\<lparr>encoding := ?n, contents := resize (contents is) ((length xs + 1) * ?n)\<rparr>"
  have e: "?e \<in> {2, 4, 8}" "ilength is = length xs" "contents is = map Some (encode ?e xs)"
      "sorted_wrt (<) xs" "\<forall>x\<in>set xs. fits ?e x"
    using ok by (auto simp: intset_ok_def)
  have n: "?n \<in> {2, 4, 8}" "?n \<le> 8" using value_encoding(1) [of v] by auto
  have le: "length xs * ?e \<le> (length xs + 1) * ?n" using v(2) by (intro mult_le_mono) auto
  have r: "intsetResize (is\<lparr>encoding := ?n\<rparr>) (length xs + 1) = is1"
    by (subst resize_ok [OF small n(2)]) (auto simp: is1_def)
  have out: "if v < 0 then \<forall>x\<in>set xs. v < x else \<forall>x\<in>set xs. x < v"
    using upgrade_outside [OF e(1) v(2)] e(5) by (auto split: if_splits)
  have f: "\<forall>x\<in>set xs. fits ?n x" "fits ?n v"
    using e(5) v fits_mono [of ?e _ ?n] fits_value [of v ?n] by auto
  let ?p = "if v < 0 then 1 else 0 :: nat"
  have en1: "encoding is1 = ?n" by (simp add: is1_def)
  then have e1: "?e \<le> encoding is1" and n1: "encoding is1 \<in> {2, 4, 8}" and p1: "?p \<le> 1" using v(2) n(1) by auto
  have l1: "length (contents is1) = (length xs + 1) * ?n"
    using le e(3) by (simp only: is1_def) (simp add: resize_def min_def del: mult_Suc)
  have t1: "take (length xs * ?e) (contents is1) = map Some (encode ?e (take (length xs) xs))"
    using le e(3) by (simp only: is1_def) (simp add: resize_def min_def del: mult_Suc)
  obtain pre where pre: "length pre = ?p * ?n" "upgrade_loop is1 ?e ?p (length xs) =
      Some (is1\<lparr>contents := pre @ map Some (encode ?n xs) @ drop ((length xs + ?p) * ?n) (contents is1)\<rparr>)"
    using upgrade_loop_ok [OF e(1) e1 n1 e(5) l1 [folded en1] p1 order_refl t1] by (auto simp only: en1 take_all order_refl)
  show ?thesis
  proof (cases "v < 0")
    case True
    then have "intsetSet (is1\<lparr>contents := pre @ map Some (encode ?n xs)\<rparr>) 0 v =
        Some (is1\<lparr>contents := map Some (encode ?n (v # xs))\<rparr>)"
      using n pre(1) set_ok [of "is1\<lparr>contents := pre @ map Some (encode ?n xs)\<rparr>" "[]" pre "map Some (encode ?n xs)" 0 v]
      by (simp add: is1_def)
    moreover have "pre @ map Some (encode ?n xs) @ drop ((length xs + ?p) * ?n) (contents is1) = pre @ map Some (encode ?n xs)"
      using True l1 by simp
    ultimately show ?thesis
      using True pre(2) r e n f out
      by (auto simp: intsetUpgradeAndAdd_def is1_def intset_ok_def Let_def)
  next
    case False
    define post where "post = drop (length xs * ?n) (contents is1)"
    have "length post = ?n" using l1 by (simp add: post_def)
    then have "intsetSet (is1\<lparr>contents := map Some (encode ?n xs) @ post\<rparr>) (length xs) v =
        Some (is1\<lparr>contents := map Some (encode ?n (xs @ [v]))\<rparr>)"
      using n set_ok [of "is1\<lparr>contents := map Some (encode ?n xs) @ post\<rparr>" "map Some (encode ?n xs)" post "[]" "length xs" v]
      by (simp add: is1_def)
    moreover have "pre @ map Some (encode ?n xs) @ drop ((length xs + ?p) * ?n) (contents is1) = map Some (encode ?n xs) @ post"
      using False pre(1) by (simp add: post_def)
    ultimately show ?thesis
      using False pre(2) r e n f out
      by (auto simp: intsetUpgradeAndAdd_def is1_def intset_ok_def Let_def sorted_wrt_append)
  qed
qed

lemma not_upgrade_in:
  assumes "intset_ok is xs" "in_ll v" "\<not> intsetValueEncoding v \<le> encoding is"
  shows "v \<notin> set xs"
  using upgrade_outside [of "encoding is" v v] assms by (auto simp: intset_ok_def split: if_splits)

lemma sorted_unique:
  assumes "sorted_wrt (<) xs" "set xs = A"
  shows "xs = sorted_list_of_set (A :: int set)"
  using assms sorted_list_of_set.idem_if_sorted_distinct [of xs] strict_sorted_iff by force

lemma insert_ok:
  assumes ok: "intset_ok is xs" and v: "in_ll v" "intsetValueEncoding v \<le> encoding is"
    and sp: "splits_at xs v pos" and small: "(length xs + 1) * 8 < 2 ^ 32"
  shows "\<exists>is3. (if pos < length xs then intsetMoveTail (intsetResize is (length xs + 1)) pos (pos + 1)
      else Some (intsetResize is (length xs + 1))) \<bind> (\<lambda>is2. intsetSet is2 pos v) = Some is3 \<and>
    intset_ok (is3\<lparr>ilength := ilength is3 + 1\<rparr>) (take pos xs @ v # drop pos xs)"
proof -
  let ?e = "encoding is"
  have e: "?e \<in> {2, 4, 8}" "ilength is = length xs" "contents is = map Some (encode ?e xs)"
      "sorted_wrt (<) xs" "\<forall>x\<in>set xs. fits ?e x"
    using ok by (auto simp: intset_ok_def)
  have pl: "pos \<le> length xs" using sp by (simp add: splits_at_def)
  define A where "A = map Some (encode ?e (take pos xs))"
  define T where "T = map Some (encode ?e (drop pos xs))"
  define P where "P = (replicate ?e None :: char option list)"
  have le: "?e \<le> 8" using e(1) by auto
  have c: "contents is = A @ T" using e(3) by (simp add: A_def T_def flip: map_append encode_append)
  have l: "length A = pos * ?e" "length T = (length xs - pos) * ?e" "length P = ?e"
    using pl by (auto simp: A_def T_def P_def)
  have lc: "length (contents is) = length xs * ?e" by (simp add: e(3))
  have r: "intsetResize is (length xs + 1) = is\<lparr>contents := A @ T @ P\<rparr>"
    by (subst resize_ok [OF small le refl]) (use c lc in \<open>simp add: resize_def P_def\<close>)
  have res: "intset_ok (is\<lparr>contents := A @ map Some (int_bytes ?e v) @ T, ilength := length xs + 1\<rparr>) (take pos xs @ v # drop pos xs)"
    using e fits_value [OF v] sorted_insert_at [OF e(4) sp] pl
    by (auto simp: intset_ok_def A_def T_def dest: in_set_takeD in_set_dropD)
  show ?thesis
  proof (cases "pos < length xs")
    case True
    have tl: "(pos + 1) * ?e + length T = length (A @ T @ P)" by (simp add: l)
    have m: "intsetMoveTail (is\<lparr>contents := A @ T @ P\<rparr>) pos (pos + 1) =
        Some (is\<lparr>contents := take ((pos + 1) * ?e) (A @ T @ P) @ T\<rparr>)"
      using move_ok [of "is\<lparr>contents := A @ T @ P\<rparr>" A T P pos "pos + 1"] e tl l by simp
    have "take ((pos + 1) * ?e) (A @ T @ P) @ T = A @ take ?e (T @ P) @ T" by (simp add: l)
    then have "intsetSet (is\<lparr>contents := take ((pos + 1) * ?e) (A @ T @ P) @ T\<rparr>) pos v =
        Some (is\<lparr>contents := A @ map Some (int_bytes ?e v) @ T\<rparr>)"
      using set_ok [of "is\<lparr>contents := A @ take ?e (T @ P) @ T\<rparr>" A "take ?e (T @ P)" T pos v] e(1) l by simp
    then show ?thesis using True m r res e(2) by simp
  next
    case False
    then have "T = []" using pl by (simp add: T_def)
    moreover have "intsetSet (is\<lparr>contents := A @ P\<rparr>) pos v = Some (is\<lparr>contents := A @ map Some (int_bytes ?e v)\<rparr>)"
      using set_ok [of "is\<lparr>contents := A @ P\<rparr>" A P "[]" pos v] e(1) l by simp
    ultimately show ?thesis using False r res e(2) by simp
  qed
qed

lemma intsetAdd_ok:
  assumes ok: "intset_ok is xs" and v: "in_ll v" and small: "(length xs + 1) * 8 < 2 ^ 32"
  shows "\<exists>is'. intsetAdd is v = Some (is', v \<notin> set xs) \<and>
    intset_ok is' (sorted_list_of_set (insert v (set xs)))"
proof -
  have len: "ilength is = length xs" and srt: "sorted_wrt (<) xs" using ok by (auto simp: intset_ok_def)
  have canon: "ys = sorted_list_of_set (insert v (set xs))" if "intset_ok i ys" "set ys = insert v (set xs)" for i ys
    by (rule sorted_unique) (use that in \<open>auto simp: intset_ok_def\<close>)
  show ?thesis
  proof (cases "intsetValueEncoding v \<le> encoding is")
    case False
    then obtain is' where "intsetUpgradeAndAdd is v = Some is'" "intset_ok is' (if v < 0 then v # xs else xs @ [v])"
      using upgrade_ok [OF ok v _ small] by auto
    then show ?thesis
      using False not_upgrade_in [OF ok v False] canon [of is' "if v < 0 then v # xs else xs @ [v]"]
      by (auto simp: intsetAdd_def split: if_splits)
  next
    case enc: True
    obtain pos where pos: "intsetSearch is v = Some (v \<in> set xs, pos)"
        "if v \<in> set xs then pos < length xs \<and> xs ! pos = v else splits_at xs v pos"
      using intsetSearch_ok [OF ok, of v] by blast
    show ?thesis
    proof (cases "v \<in> set xs")
      case True
      then show ?thesis using enc pos ok sorted_unique [OF srt refl] by (simp add: intsetAdd_def insert_absorb)
    next
      case False
      obtain is3 where is3: "(if pos < length xs then intsetMoveTail (intsetResize is (length xs + 1)) pos (pos + 1)
          else Some (intsetResize is (length xs + 1))) \<bind> (\<lambda>is2. intsetSet is2 pos v) = Some is3"
          "intset_ok (is3\<lparr>ilength := ilength is3 + 1\<rparr>) (take pos xs @ v # drop pos xs)"
        using insert_ok [OF ok v enc _ small, of pos] False pos(2) by auto
      have "set (take pos xs @ v # drop pos xs) = insert v (set xs)"
        using set_append [of "take pos xs" "drop pos xs"] by auto
      then have "intset_ok (is3\<lparr>ilength := ilength is3 + 1\<rparr>) (sorted_list_of_set (insert v (set xs)))"
        using canon [OF is3(2)] is3(2) by simp
      then show ?thesis
        using False enc pos is3(1) len
        by (auto simp: intsetAdd_def intsetResize_def split: Option.bind_splits if_splits)
    qed
  qed
qed

lemma delete_ok:
  assumes ok: "intset_ok is xs" and pos: "pos < length xs" and small: "length xs * 8 < 2 ^ 32"
  shows "\<exists>is1. (if pos < length xs - 1 then intsetMoveTail is (pos + 1) pos else Some is) = Some is1 \<and>
    intset_ok ((intsetResize is1 (length xs - 1))\<lparr>ilength := length xs - 1\<rparr>) (take pos xs @ drop (pos + 1) xs)"
proof -
  let ?e = "encoding is"
  have e: "?e \<in> {2, 4, 8}" "ilength is = length xs" "contents is = map Some (encode ?e xs)"
      "sorted_wrt (<) xs" "\<forall>x\<in>set xs. fits ?e x"
    using ok by (auto simp: intset_ok_def)
  define A where "A = map Some (encode ?e (take pos xs))"
  define V where "V = map Some (int_bytes ?e (xs ! pos))"
  define T where "T = map Some (encode ?e (drop (pos + 1) xs))"
  have xs: "xs = take pos xs @ xs ! pos # drop (pos + 1) xs" using pos by (simp add: id_take_nth_drop)
  then have "encode ?e xs = encode ?e (take pos xs @ xs ! pos # drop (pos + 1) xs)" by simp
  then have c: "contents is = A @ V @ T" by (simp add: e(3) A_def V_def T_def)
  have l: "length A = pos * ?e" "length V = ?e" "length T = (length xs - (pos + 1)) * ?e"
    using pos by (auto simp: A_def V_def T_def)
  have "(length xs - 1) * ?e \<le> length xs * 8" using e(1) by (intro mult_le_mono) auto
  then have m: "(length xs - 1) * ?e mod 2 ^ 32 = (length xs - 1) * ?e" using small by (intro mod_less) simp
  have lAT: "length (A @ T) = (length xs - 1) * ?e"
    using pos by (simp add: l flip: add_mult_distrib)
  have res: "intset_ok (is\<lparr>contents := A @ T, ilength := length xs - 1\<rparr>) (take pos xs @ drop (pos + 1) xs)"
    using e sorted_delete_at [of "take pos xs" "xs ! pos" "drop (pos + 1) xs"] xs pos
    by (auto simp: intset_ok_def A_def T_def dest: in_set_takeD in_set_dropD)
  have fin: "(intsetResize (is\<lparr>contents := A @ T @ R\<rparr>) (length xs - 1)) = is\<lparr>contents := A @ T\<rparr>" for R
  proof -
    have "resize (A @ T @ R) ((length xs - 1) * ?e) = A @ T"
      unfolding lAT [symmetric] by (simp add: resize_def)
    then show ?thesis using m by (simp add: intsetResize_def)
  qed
  show ?thesis
  proof (cases "pos < length xs - 1")
    case True
    have "take (pos * ?e) (contents is) = A" by (simp add: c l)
    then have "intsetMoveTail is (pos + 1) pos =
        Some (is\<lparr>contents := A @ T @ drop (pos * ?e + length T) (contents is)\<rparr>)"
      using move_ok [of "is" "A @ V" T "[]" "pos + 1" pos] e(1,2) by (simp add: c l)
    then show ?thesis using True fin res by simp
  next
    case False
    then have "T = []" using pos by (simp add: T_def)
    then have "intsetResize is (length xs - 1) = is\<lparr>contents := A @ T\<rparr>"
      using fin [of V] c by (simp add: intsetResize_def)
    then show ?thesis using False res by simp
  qed
qed

lemma intsetRemove_ok:
  assumes ok: "intset_ok is xs" and v: "in_ll v" and small: "length xs * 8 < 2 ^ 32"
  shows "\<exists>is'. intsetRemove is v = Some (is', v \<in> set xs) \<and>
    intset_ok is' (sorted_list_of_set (set xs - {v}))"
proof -
  have len: "ilength is = length xs" and srt: "sorted_wrt (<) xs" using ok by (auto simp: intset_ok_def)
  have same: "intset_ok is (sorted_list_of_set (set xs - {v}))" if "v \<notin> set xs"
    using ok that sorted_unique [OF srt refl] by simp
  show ?thesis
  proof (cases "intsetValueEncoding v \<le> encoding is")
    case False
    then show ?thesis using not_upgrade_in [OF ok v False] same by (simp add: intsetRemove_def)
  next
    case enc: True
    obtain pos where pos: "intsetSearch is v = Some (v \<in> set xs, pos)"
        "if v \<in> set xs then pos < length xs \<and> xs ! pos = v else splits_at xs v pos"
      using intsetSearch_ok [OF ok, of v] by blast
    show ?thesis
    proof (cases "v \<in> set xs")
      case False
      then show ?thesis using enc pos same by (simp add: intsetRemove_def)
    next
      case True
      then have p: "pos < length xs" "xs ! pos = v" using pos(2) by auto
      obtain is1 where is1: "(if pos < length xs - 1 then intsetMoveTail is (pos + 1) pos else Some is) = Some is1"
          "intset_ok ((intsetResize is1 (length xs - 1))\<lparr>ilength := length xs - 1\<rparr>) (take pos xs @ drop (pos + 1) xs)"
        using delete_ok [OF ok p(1) small] by blast
      have "distinct xs" using srt by (simp add: strict_sorted_iff)
      moreover have "xs = take pos xs @ v # drop (pos + 1) xs" using id_take_nth_drop [OF p(1)] p(2) by simp
      ultimately have "set (take pos xs @ drop (pos + 1) xs) = set xs - {v}"
        by (metis Diff_insert_absorb distinct.simps(2) distinct_append list.simps(15) not_distinct_conv_prefix
            set_append Un_insert_right disjoint_insert(2) Un_iff)
      then have "take pos xs @ drop (pos + 1) xs = sorted_list_of_set (set xs - {v})"
        using is1(2) by (intro sorted_unique) (simp_all add: intset_ok_def)
      then show ?thesis using True enc pos(1) is1 len by (auto simp: intsetRemove_def Let_def)
    qed
  qed
qed

lemma intsetFind_ok:
  assumes "intset_ok is xs" "in_ll v"
  shows "intsetFind is v = Some (v \<in> set xs)"
  using intsetSearch_ok [OF assms(1), of v] not_upgrade_in [OF assms] by (auto simp: intsetFind_def)

lemma intsetGet_ok:
  assumes "intset_ok is xs"
  shows "intsetGet is pos = Some (if pos < length xs then Some (xs ! pos) else None)"
  using get1_ok [OF assms] assms by (auto simp: intsetGet_def intset_ok_def)

lemma intsetNew_ok: "intset_ok intsetNew []"
  by (simp add: intset_ok_def intsetNew_def INTSET_ENC_INT16_def)

lemma intsetLen_ok: "intset_ok is xs \<Longrightarrow> intsetLen is = length xs"
  by (simp add: intsetLen_def intset_ok_def)

subsection \<open>The contract of a set\<close>

definition intset_holds :: "intset \<Rightarrow> int set \<Rightarrow> bool" where
  "intset_holds is A \<longleftrightarrow> finite A \<and> intset_ok is (sorted_list_of_set A)"

definition intset_cap :: nat where
  "intset_cap = 2 ^ 29 - 1"

lemma length_sorted_list [simp]: "finite A \<Longrightarrow> length (sorted_list_of_set A) = card A"
  by simp

interpretation ints: set_type intset_holds in_ll intset_cap intsetNew intsetAdd intsetRemove intsetFind
proof unfold_locales
  show "intset_holds intsetNew {}" by (simp add: intset_holds_def intsetNew_ok)
next
  fix s A v assume h: "intset_holds s A" "in_ll v" "card A < intset_cap"
  then have "(length (sorted_list_of_set A) + 1) * 8 < 2 ^ 32" by (simp add: intset_cap_def)
  with h show "\<exists>s'. intsetAdd s v = Some (s', v \<notin> A) \<and> intset_holds s' (insert v A)"
    using intsetAdd_ok [of s "sorted_list_of_set A" v] by (simp add: intset_holds_def)
next
  fix s A v assume h: "intset_holds s A" "in_ll v" "card A \<le> intset_cap"
  then have "length (sorted_list_of_set A) * 8 < 2 ^ 32" by (simp add: intset_cap_def)
  with h show "\<exists>s'. intsetRemove s v = Some (s', v \<in> A) \<and> intset_holds s' (A - {v})"
    using intsetRemove_ok [of s "sorted_list_of_set A" v] by (simp add: intset_holds_def)
qed (auto simp: intset_holds_def intsetFind_ok)

text \<open>
  C11. Starting from \<open>intsetNew\<close>, every sequence of \<open>intsetAdd\<close>, \<open>intsetRemove\<close> and \<open>intsetFind\<close> calls on
  64 bit integers succeeds, answers as the same sequence over a mathematical set does, and ends in an
  intset whose bytes are the encodings, at the width of its header, of exactly the members in ascending order.
  Fewer than \<open>2^29\<close> operations keep the 32 bit size computed by \<open>intsetResize\<close> from wrapping.
\<close>

theorem intset_refines_set:
  assumes "length ps < 2 ^ 29" "\<forall>p\<in>set ps. in_ll (sop_arg p)"
  shows "\<exists>is. run_sops intsetAdd intsetRemove intsetFind ps intsetNew = Some (is, snd (set_sops ps {})) \<and>
    intset_ok is (sorted_list_of_set (fst (set_sops ps {})))"
proof -
  have "card ({} :: int set) + length ps \<le> intset_cap" using assms(1) by (simp add: intset_cap_def)
  then show ?thesis
    using ints.run_correct [OF ints.holds_empty _ assms(2)] by (auto simp: intset_holds_def)
qed

theorem intset_refines_set_witness:
  "\<exists>is. run_sops intsetAdd intsetRemove intsetFind [SAdd 7, SAdd (-70000), SAdd 7, SFind 7, SAdd 5000000000, SRemove 7, SFind 7] intsetNew =
      Some (is, [True, True, False, True, True, True, False]) \<and>
    intset_ok is [-70000, 5000000000]"
  using intset_refines_set [of "[SAdd 7, SAdd (-70000), SAdd 7, SFind 7, SAdd 5000000000, SRemove 7, SFind 7]"]
  by (simp add: in_ll_def insert_commute)

text \<open>
  C37. In an intset that holds the ascending list \<open>xs\<close>, \<open>intsetGet\<close> returns the element at each position
  and refuses every position from the length on.
\<close>

theorem intsetGet_correct:
  assumes "intset_ok is xs"
  shows "intsetGet is pos = Some (if pos < intsetLen is then Some (xs ! pos) else None)"
  using intsetGet_ok [OF assms] intsetLen_ok [OF assms] by simp

theorem intsetGet_correct_witness:
  "intsetGet \<lparr>encoding = 2, ilength = 2, contents = map Some (encode 2 [-3, 258])\<rparr> 1 = Some (Some 258)"
  using intsetGet_correct [of "\<lparr>encoding = 2, ilength = 2, contents = map Some (encode 2 [-3, 258])\<rparr>" "[-3, 258]" 1]
  by (simp add: intset_ok_def fits_def intsetLen_def)

end
