(* ===== verification/State.thy ===== *)
theory State
  imports Prelude "HOL-Library.Monad_Syntax"
begin

text \<open>
  The state of the server (\<open>src/lib/src/redis.h\<close>): reference counted objects in a store, the databases, the
  clients with their output buffers, and the fields of the global \<open>server\<close> that the modelled code uses.

  An object is known by its address \<open>oid\<close>; the store maps the address of a live object to it, and using
  the address of an object that was freed is a failure. An sds is its bytes and a dict a finite map, as the
  theories of \<open>sds.c\<close> and \<open>dict.c\<close> justify. What an aggregate value (list, set, sorted set, hash) points to
  is opaque here. The LRU clock and the memory accounting are left out.
\<close>

datatype redisType = REDIS_STRING | REDIS_LIST | REDIS_SET | REDIS_ZSET | REDIS_HASH

datatype encoding =
    REDIS_ENCODING_RAW | REDIS_ENCODING_INT | REDIS_ENCODING_HT | REDIS_ENCODING_ZIPMAP
  | REDIS_ENCODING_LINKEDLIST | REDIS_ENCODING_ZIPLIST | REDIS_ENCODING_INTSET
  | REDIS_ENCODING_SKIPLIST | REDIS_ENCODING_EMBSTR

datatype ptr = Null | Sds bytes | Long int | Aggregate nat

record redisObject =
  ob_type :: redisType
  ob_enc :: encoding
  refcount :: int
  ob_ptr :: ptr

text \<open>The objects created once by \<open>createSharedObjects\<close>.\<close>

datatype shared =
    S_crlf | S_ok | S_err | S_emptybulk | S_czero | S_cone | S_cnegone | S_nullbulk | S_nullmultibulk
  | S_emptymultibulk | S_pong | S_queued | S_emptyscan | S_wrongtypeerr | S_nokeyerr | S_syntaxerr
  | S_sameobjecterr | S_outofrangeerr | S_noscripterr | S_loadingerr | S_slowscripterr | S_masterdownerr
  | S_bgsaveerr | S_roslaveerr | S_noautherr | S_oomerr | S_execaborterr | S_noreplicaserr | S_space
  | S_colon | S_plus | S_select nat | S_messagebulk | S_pmessagebulk | S_subscribebulk | S_unsubscribebulk
  | S_psubscribebulk | S_punsubscribebulk | S_del | S_rpop | S_lpop | S_lpush
  | S_integers nat | S_mbulkhdr nat | S_bulkhdr nat

datatype oid = Shared shared | Dyn nat

datatype cflag =
    REDIS_SLAVE | REDIS_MASTER | REDIS_MONITOR | REDIS_MULTI | REDIS_BLOCKED | REDIS_DIRTY_CAS
  | REDIS_CLOSE_AFTER_REPLY | REDIS_UNBLOCKED | REDIS_LUA_CLIENT | REDIS_ASKING | REDIS_CLOSE_ASAP
  | REDIS_DIRTY_EXEC | REDIS_MASTER_FORCE_REPLY | REDIS_FORCE_AOF | REDIS_FORCE_REPL | REDIS_PRE_PSYNC_SLAVE

text \<open>The number of a client and the number of a database stand for their addresses.\<close>

type_synonym cid = nat
type_synonym dbid = nat

record multiCmd =
  mc_argv :: "oid list"
  mc_cmd :: bytes

text \<open>
  \<open>c_buf\<close> is the used part of the static buffer, so that \<open>bufpos\<close> is its length. \<open>c_ae_ok\<close> says whether the
  event loop accepts the write handler of the client, \<open>c_repl_idle\<close> whether its \<open>replstate\<close> is
  \<open>REDIS_REPL_NONE\<close> or \<open>REDIS_REPL_ONLINE\<close>.
\<close>

record redisClient =
  c_fd :: int
  c_db :: dbid
  c_flags :: "cflag set"
  c_repl_idle :: bool
  c_ae_ok :: bool
  c_argv :: "oid list"
  c_cmd :: bytes
  c_buf :: bytes
  c_reply :: "oid list"
  c_mstate :: "multiCmd list"
  c_watched_keys :: "(oid \<times> dbid) list"
  c_pubsub_channels :: "(bytes \<times> oid) list"
  c_pubsub_patterns :: "oid list"

record redisDb =
  db_dict :: "bytes \<Rightarrow> oid option"
  db_expires :: "bytes \<Rightarrow> int option"
  db_watched_keys :: "bytes \<Rightarrow> (oid \<times> cid list) option"

record slowlogEntry =
  se_argv :: "oid list"
  se_id :: int
  se_duration :: int
  se_time :: int

text \<open>\<open>propagated\<close> collects the commands fed to the append only file and to the slaves.\<close>

record redisServer =
  objs :: "oid \<Rightarrow> redisObject option"
  fresh :: nat
  clients :: "cid \<Rightarrow> redisClient"
  nclients :: nat
  dbs :: "dbid \<Rightarrow> redisDb"
  dbnum :: nat
  mstime :: int
  loading :: bool
  masterhost :: bool
  maxmemory :: nat
  dirty :: int
  stat_expiredkeys :: nat
  stat_keyspace_hits :: nat
  stat_keyspace_misses :: nat
  propagated :: "(dbid \<times> bytes list) list"
  pubsub_channels :: "(bytes \<times> oid \<times> cid list) list"
  pubsub_patterns :: "(cid \<times> oid) list"
  notify_keyspace_events :: nat
  slowlog :: "slowlogEntry list"
  slowlog_entry_id :: int
  slowlog_log_slower_than :: int
  slowlog_max_len :: nat

definition update_client :: "cid \<Rightarrow> (redisClient \<Rightarrow> redisClient) \<Rightarrow> redisServer \<Rightarrow> redisServer" where
  "update_client c f s = s\<lparr>clients := (clients s)(c := f (clients s c))\<rparr>"

definition update_db :: "dbid \<Rightarrow> (redisDb \<Rightarrow> redisDb) \<Rightarrow> redisServer \<Rightarrow> redisServer" where
  "update_db d f s = s\<lparr>dbs := (dbs s)(d := f (dbs s d))\<rparr>"

definition update_obj :: "oid \<Rightarrow> redisObject option \<Rightarrow> redisServer \<Rightarrow> redisServer" where
  "update_obj i v s = s\<lparr>objs := (objs s)(i := v)\<rparr>"

subsection \<open>Shared objects\<close>

definition REDIS_SHARED_INTEGERS :: nat where "REDIS_SHARED_INTEGERS = 10000"
definition REDIS_SHARED_BULKHDR_LEN :: nat where "REDIS_SHARED_BULKHDR_LEN = 32"
definition REDIS_SHARED_SELECT_CMDS :: nat where "REDIS_SHARED_SELECT_CMDS = 10"

fun shared_string :: "shared \<Rightarrow> bytes" where
  "shared_string S_crlf = CRLF"
| "shared_string S_ok = ''+OK'' @ CRLF"
| "shared_string S_err = ''-ERR'' @ CRLF"
| "shared_string S_emptybulk = ''$0'' @ CRLF @ CRLF"
| "shared_string S_czero = '':0'' @ CRLF"
| "shared_string S_cone = '':1'' @ CRLF"
| "shared_string S_cnegone = '':-1'' @ CRLF"
| "shared_string S_nullbulk = ''$-1'' @ CRLF"
| "shared_string S_nullmultibulk = ''*-1'' @ CRLF"
| "shared_string S_emptymultibulk = ''*0'' @ CRLF"
| "shared_string S_pong = ''+PONG'' @ CRLF"
| "shared_string S_queued = ''+QUEUED'' @ CRLF"
| "shared_string S_emptyscan = ''*2'' @ CRLF @ ''$1'' @ CRLF @ ''0'' @ CRLF @ ''*0'' @ CRLF"
| "shared_string S_wrongtypeerr = ''-WRONGTYPE Operation against a key holding the wrong kind of value'' @ CRLF"
| "shared_string S_nokeyerr = ''-ERR no such key'' @ CRLF"
| "shared_string S_syntaxerr = ''-ERR syntax error'' @ CRLF"
| "shared_string S_sameobjecterr = ''-ERR source and destination objects are the same'' @ CRLF"
| "shared_string S_outofrangeerr = ''-ERR index out of range'' @ CRLF"
| "shared_string S_noscripterr = ''-NOSCRIPT No matching script. Please use EVAL.'' @ CRLF"
| "shared_string S_loadingerr = ''-LOADING Redis is loading the dataset in memory'' @ CRLF"
| "shared_string S_slowscripterr = ''-BUSY Redis is busy running a script. You can only call SCRIPT KILL or SHUTDOWN NOSAVE.'' @ CRLF"
| "shared_string S_masterdownerr = ''-MASTERDOWN Link with MASTER is down and slave-serve-stale-data is set to 'no'.'' @ CRLF"
| "shared_string S_bgsaveerr = ''-MISCONF Redis is configured to save RDB snapshots, but is currently not able to persist on disk. Commands that may modify the data set are disabled. Please check Redis logs for details about the error.'' @ CRLF"
| "shared_string S_roslaveerr = ''-READONLY You can't write against a read only slave.'' @ CRLF"
| "shared_string S_noautherr = ''-NOAUTH Authentication required.'' @ CRLF"
| "shared_string S_oomerr = ''-OOM command not allowed when used memory > 'maxmemory'.'' @ CRLF"
| "shared_string S_execaborterr = ''-EXECABORT Transaction discarded because of previous errors.'' @ CRLF"
| "shared_string S_noreplicaserr = ''-NOREPLICAS Not enough good slaves to write.'' @ CRLF"
| "shared_string S_space = '' ''"
| "shared_string S_colon = '':''"
| "shared_string S_plus = ''+''"
| "shared_string (S_select j) =
     ''*2'' @ CRLF @ ''$6'' @ CRLF @ ''SELECT'' @ CRLF @ ''$'' @ dec (length (dec j)) @ CRLF @ dec j @ CRLF"
| "shared_string S_messagebulk = ''$7'' @ CRLF @ ''message'' @ CRLF"
| "shared_string S_pmessagebulk = ''$8'' @ CRLF @ ''pmessage'' @ CRLF"
| "shared_string S_subscribebulk = ''$9'' @ CRLF @ ''subscribe'' @ CRLF"
| "shared_string S_unsubscribebulk = ''$11'' @ CRLF @ ''unsubscribe'' @ CRLF"
| "shared_string S_psubscribebulk = ''$10'' @ CRLF @ ''psubscribe'' @ CRLF"
| "shared_string S_punsubscribebulk = ''$12'' @ CRLF @ ''punsubscribe'' @ CRLF"
| "shared_string S_del = ''DEL''"
| "shared_string S_rpop = ''RPOP''"
| "shared_string S_lpop = ''LPOP''"
| "shared_string S_lpush = ''LPUSH''"
| "shared_string (S_integers j) = dec j"
| "shared_string (S_mbulkhdr j) = ''*'' @ dec j @ CRLF"
| "shared_string (S_bulkhdr j) = ''$'' @ dec j @ CRLF"

definition embedded_shared :: "shared \<Rightarrow> bool" where
  "embedded_shared x \<longleftrightarrow> x \<in> {S_messagebulk, S_pmessagebulk, S_subscribebulk, S_unsubscribebulk,
     S_psubscribebulk, S_punsubscribebulk, S_del, S_rpop, S_lpop, S_lpush}"

text \<open>The object behind a shared name; an index outside its array has none.\<close>

fun createSharedObjects :: "shared \<Rightarrow> redisObject option" where
  "createSharedObjects (S_integers j) =
     (if j < REDIS_SHARED_INTEGERS
      then Some \<lparr>ob_type = REDIS_STRING, ob_enc = REDIS_ENCODING_INT, refcount = 1, ob_ptr = Long (int j)\<rparr> else None)"
| "createSharedObjects (S_mbulkhdr j) =
     (if j < REDIS_SHARED_BULKHDR_LEN
      then Some \<lparr>ob_type = REDIS_STRING, ob_enc = REDIS_ENCODING_RAW, refcount = 1, ob_ptr = Sds (shared_string (S_mbulkhdr j))\<rparr> else None)"
| "createSharedObjects (S_bulkhdr j) =
     (if j < REDIS_SHARED_BULKHDR_LEN
      then Some \<lparr>ob_type = REDIS_STRING, ob_enc = REDIS_ENCODING_RAW, refcount = 1, ob_ptr = Sds (shared_string (S_bulkhdr j))\<rparr> else None)"
| "createSharedObjects (S_select j) =
     (if j < REDIS_SHARED_SELECT_CMDS
      then Some \<lparr>ob_type = REDIS_STRING, ob_enc = REDIS_ENCODING_RAW, refcount = 1, ob_ptr = Sds (shared_string (S_select j))\<rparr> else None)"
| "createSharedObjects x =
     Some \<lparr>ob_type = REDIS_STRING, ob_enc = (if embedded_shared x then REDIS_ENCODING_EMBSTR else REDIS_ENCODING_RAW),
       refcount = 1, ob_ptr = Sds (shared_string x)\<rparr>"

end
