(* ===== verification/Object.thy ===== *)
theory Object
  imports State Util Sds
begin

text \<open>
  The objects of \<open>src/lib/src/object.c\<close>: creation, reference counts, the integer and embedded encodings of
  strings, their comparison and their reading as numbers. A failed assertion, a panic and the use of a freed
  object are \<open>None\<close>.
\<close>

subsection \<open>Creation\<close>

definition createObject :: "redisType \<Rightarrow> ptr \<Rightarrow> redisServer \<Rightarrow> oid \<times> redisServer" where
  "createObject ty p s =
     (let i = Dyn (fresh s)
      in (i, (update_obj i (Some \<lparr>ob_type = ty, ob_enc = REDIS_ENCODING_RAW, refcount = 1, ob_ptr = p\<rparr>) s)\<lparr>fresh := fresh s + 1\<rparr>))"

definition createRawStringObject :: "bytes \<Rightarrow> redisServer \<Rightarrow> oid \<times> redisServer" where
  "createRawStringObject b s = createObject REDIS_STRING (Sds b) s"

definition createEmbeddedStringObject :: "bytes \<Rightarrow> redisServer \<Rightarrow> oid \<times> redisServer" where
  "createEmbeddedStringObject b s =
     (let i = Dyn (fresh s)
      in (i, (update_obj i (Some \<lparr>ob_type = REDIS_STRING, ob_enc = REDIS_ENCODING_EMBSTR, refcount = 1, ob_ptr = Sds b\<rparr>) s)\<lparr>fresh := fresh s + 1\<rparr>))"

definition REDIS_ENCODING_EMBSTR_SIZE_LIMIT :: nat where
  "REDIS_ENCODING_EMBSTR_SIZE_LIMIT = 32"

definition createStringObject :: "bytes \<Rightarrow> redisServer \<Rightarrow> oid \<times> redisServer" where
  "createStringObject b s =
     (if length b \<le> REDIS_ENCODING_EMBSTR_SIZE_LIMIT then createEmbeddedStringObject b s
      else createRawStringObject b s)"

subsection \<open>Reference counts\<close>

definition incrRefCount :: "oid \<Rightarrow> redisServer \<Rightarrow> redisServer option" where
  "incrRefCount i s =
     (case objs s i of None \<Rightarrow> None | Some ob \<Rightarrow> Some (update_obj i (Some (ob\<lparr>refcount := refcount ob + 1\<rparr>)) s))"

definition decrRefCount :: "oid \<Rightarrow> redisServer \<Rightarrow> redisServer option" where
  "decrRefCount i s =
     (case objs s i of
        None \<Rightarrow> None
      | Some ob \<Rightarrow>
          if refcount ob \<le> 0 then None
          else if refcount ob = 1 then Some (update_obj i None s)
          else Some (update_obj i (Some (ob\<lparr>refcount := refcount ob - 1\<rparr>)) s))"

definition createStringObjectFromLongLong :: "int \<Rightarrow> redisServer \<Rightarrow> (oid \<times> redisServer) option" where
  "createStringObjectFromLongLong value s =
     (if value \<ge> 0 \<and> value < int REDIS_SHARED_INTEGERS
      then map_option (Pair (Shared (S_integers (nat value)))) (incrRefCount (Shared (S_integers (nat value))) s)
      else if value \<ge> LLONG_MIN \<and> value \<le> LLONG_MAX
      then let (i, s1) = createObject REDIS_STRING Null s
           in Some (i, update_obj i (Some \<lparr>ob_type = REDIS_STRING, ob_enc = REDIS_ENCODING_INT, refcount = 1, ob_ptr = Long value\<rparr>) s1)
      else Some (createObject REDIS_STRING (Sds (dec_int value)) s))"

subsection \<open>Encodings\<close>

definition sdsEncodedObject :: "redisObject \<Rightarrow> bool" where
  "sdsEncodedObject ob \<longleftrightarrow> ob_enc ob = REDIS_ENCODING_RAW \<or> ob_enc ob = REDIS_ENCODING_EMBSTR"

text \<open>The sds behind \<open>o->ptr\<close>, and the \<open>long\<close> stored in it.\<close>

definition obj_sds :: "redisObject \<Rightarrow> bytes option" where
  "obj_sds ob = (case ob_ptr ob of Sds b \<Rightarrow> Some b | _ \<Rightarrow> None)"

definition obj_long :: "redisObject \<Rightarrow> int option" where
  "obj_long ob = (case ob_ptr ob of Long n \<Rightarrow> Some n | _ \<Rightarrow> None)"

definition sds_at :: "redisServer \<Rightarrow> oid \<Rightarrow> bytes option" where
  "sds_at s i = Option.bind (objs s i) obj_sds"

definition dupStringObject :: "oid \<Rightarrow> redisServer \<Rightarrow> (oid \<times> redisServer) option" where
  "dupStringObject i s =
     do {
       ob \<leftarrow> objs s i;
       (if ob_type ob \<noteq> REDIS_STRING then None
        else if ob_enc ob = REDIS_ENCODING_RAW then do { b \<leftarrow> obj_sds ob; Some (createRawStringObject b s) }
        else if ob_enc ob = REDIS_ENCODING_EMBSTR then do { b \<leftarrow> obj_sds ob; Some (createEmbeddedStringObject b s) }
        else if ob_enc ob = REDIS_ENCODING_INT then
          let (d, s1) = createObject REDIS_STRING Null s
          in Some (d, update_obj d (Some \<lparr>ob_type = REDIS_STRING, ob_enc = REDIS_ENCODING_INT, refcount = 1, ob_ptr = ob_ptr ob\<rparr>) s1)
        else None)
     }"

definition isObjectRepresentableAsLongLong :: "redisObject \<Rightarrow> int option option" where
  "isObjectRepresentableAsLongLong ob =
     (if ob_type ob \<noteq> REDIS_STRING then None
      else if ob_enc ob = REDIS_ENCODING_INT then do { n \<leftarrow> obj_long ob; Some (Some n) }
      else do { b \<leftarrow> obj_sds ob; Some (string2ll b) })"

definition tryObjectEncoding :: "oid \<Rightarrow> redisServer \<Rightarrow> (oid \<times> redisServer) option" where
  "tryObjectEncoding i s =
     do {
       ob \<leftarrow> objs s i;
       (if ob_enc ob = REDIS_ENCODING_INT then Some (i, s)
        else if refcount ob > 1 then Some (i, s)
        else if ob_type ob \<noteq> REDIS_STRING then None
        else do {
          b \<leftarrow> obj_sds ob;
          (case (if length b > 21 then None else string2l b) of
             None \<Rightarrow>
               if length b \<le> REDIS_ENCODING_EMBSTR_SIZE_LIMIT then
                 let (emb, s1) = createEmbeddedStringObject b s
                 in do { s2 \<leftarrow> decrRefCount i s1; Some (emb, s2) }
               else Some (i, s)
           | Some value \<Rightarrow>
               if maxmemory s = 0 \<and> value \<ge> 0 \<and> value < int REDIS_SHARED_INTEGERS then do {
                 s1 \<leftarrow> decrRefCount i s;
                 s2 \<leftarrow> incrRefCount (Shared (S_integers (nat value))) s1;
                 Some (Shared (S_integers (nat value)), s2)
               }
               else Some (i, update_obj i (Some (ob\<lparr>ob_enc := REDIS_ENCODING_INT, ob_ptr := Long value\<rparr>)) s))
        })
     }"

definition getDecodedObject :: "oid \<Rightarrow> redisServer \<Rightarrow> (oid \<times> redisServer) option" where
  "getDecodedObject i s =
     do {
       ob \<leftarrow> objs s i;
       (if sdsEncodedObject ob then map_option (Pair i) (incrRefCount i s)
        else if ob_type ob = REDIS_STRING \<and> ob_enc ob = REDIS_ENCODING_INT then do {
          n \<leftarrow> obj_long ob;
          Some (createStringObject (ll2string 32 n) s)
        }
        else None)
     }"

text \<open>The characters of a string object, decoded into a buffer when it is integer encoded.\<close>

definition string_chars :: "nat \<Rightarrow> redisObject \<Rightarrow> bytes option" where
  "string_chars buflen ob =
     (if sdsEncodedObject ob then obj_sds ob else do { n \<leftarrow> obj_long ob; Some (ll2string buflen n) })"

definition compareStringObjects :: "redisServer \<Rightarrow> oid \<Rightarrow> oid \<Rightarrow> int option" where
  "compareStringObjects s a b =
     do {
       oa \<leftarrow> objs s a;
       ob \<leftarrow> objs s b;
       (if ob_type oa \<noteq> REDIS_STRING \<or> ob_type ob \<noteq> REDIS_STRING then None
        else if a = b then Some 0
        else do {
          astr \<leftarrow> string_chars 128 oa;
          bstr \<leftarrow> string_chars 128 ob;
          let minlen = min (length astr) (length bstr);
          let cmp = memcmp (take minlen astr) (take minlen bstr);
          Some (if cmp = 0 then int (length astr) - int (length bstr) else cmp)
        })
     }"

definition equalStringObjects :: "redisServer \<Rightarrow> oid \<Rightarrow> oid \<Rightarrow> bool option" where
  "equalStringObjects s a b =
     do {
       oa \<leftarrow> objs s a;
       ob \<leftarrow> objs s b;
       (if ob_enc oa = REDIS_ENCODING_INT \<and> ob_enc ob = REDIS_ENCODING_INT
        then Some (ob_ptr oa = ob_ptr ob)
        else map_option (\<lambda>r. r = 0) (compareStringObjects s a b))
     }"

definition stringObjectLen :: "redisObject \<Rightarrow> nat option" where
  "stringObjectLen ob =
     (if ob_type ob \<noteq> REDIS_STRING then None else map_option length (string_chars 32 ob))"

text \<open>\<open>strtoll(p,&eptr,10)\<close>: the value, what follows it, and whether it was out of range.\<close>

definition strtoll :: "bytes \<Rightarrow> int \<times> bytes \<times> bool" where
  "strtoll p =
     (let q = dropWhile isspace p;
          neg = (q \<noteq> [] \<and> hd q = CHR ''-'');
          r = (if q \<noteq> [] \<and> (hd q = CHR ''-'' \<or> hd q = CHR ''+'') then tl q else q);
          ds = takeWhile isdigit r;
          n = int (digits_val 0 ds);
          v = (if neg then - n else n)
      in if ds = [] then (0, p, False)
         else if in_ll v then (v, dropWhile isdigit r, False)
         else (if neg then LLONG_MIN else LLONG_MAX, dropWhile isdigit r, True))"

definition getLongLongFromObject :: "redisServer \<Rightarrow> oid option \<Rightarrow> int option option" where
  "getLongLongFromObject s oi =
     (case oi of
        None \<Rightarrow> Some (Some 0)
      | Some i \<Rightarrow>
          do {
            ob \<leftarrow> objs s i;
            (if ob_type ob \<noteq> REDIS_STRING then None
             else if sdsEncodedObject ob then do {
               b \<leftarrow> obj_sds ob;
               let (value, eptr, erange) = strtoll (c_str b);
               Some (if (b \<noteq> [] \<and> isspace (hd b)) \<or> eptr \<noteq> [] \<or> erange then None else Some value)
             }
             else if ob_enc ob = REDIS_ENCODING_INT then do { n \<leftarrow> obj_long ob; Some (Some n) }
             else None)
          })"

definition strEncoding :: "encoding \<Rightarrow> bytes" where
  "strEncoding e =
     (case e of
        REDIS_ENCODING_RAW \<Rightarrow> ''raw''
      | REDIS_ENCODING_INT \<Rightarrow> ''int''
      | REDIS_ENCODING_HT \<Rightarrow> ''hashtable''
      | REDIS_ENCODING_LINKEDLIST \<Rightarrow> ''linkedlist''
      | REDIS_ENCODING_ZIPLIST \<Rightarrow> ''ziplist''
      | REDIS_ENCODING_INTSET \<Rightarrow> ''intset''
      | REDIS_ENCODING_SKIPLIST \<Rightarrow> ''skiplist''
      | REDIS_ENCODING_EMBSTR \<Rightarrow> ''embstr''
      | REDIS_ENCODING_ZIPMAP \<Rightarrow> ''unknown'')"

end
