(* ===== verification/Refs.thy ===== *)
theory Refs
  imports Object
begin

text \<open>
  Who refers to an object, and the invariant that ties the reference counts to it: every reference from a
  database, an argument vector, an output list, a queued command, a watched key, a subscription, the slow log
  or the table of shared objects is to a live object that counts it. What an object shows to the outside is its \<open>value\<close>.
\<close>

subsection \<open>Values\<close>

datatype val = Str bytes | Agg redisType nat

definition content :: "redisObject \<Rightarrow> bytes" where
  "content ob = (case ob_ptr ob of Sds b \<Rightarrow> b | Long n \<Rightarrow> dec_int n | _ \<Rightarrow> [])"

definition value_of :: "redisObject \<Rightarrow> val" where
  "value_of ob =
     (if ob_type ob = REDIS_STRING then Str (content ob)
      else Agg (ob_type ob) (case ob_ptr ob of Aggregate x \<Rightarrow> x | _ \<Rightarrow> 0))"

definition obj_ok :: "redisObject \<Rightarrow> bool" where
  "obj_ok ob \<longleftrightarrow>
     (if ob_type ob = REDIS_STRING
      then (sdsEncodedObject ob \<and> (\<exists>b. ob_ptr ob = Sds b)) \<or>
           (ob_enc ob = REDIS_ENCODING_INT \<and> (\<exists>n. ob_ptr ob = Long n \<and> in_ll n))
      else \<not> sdsEncodedObject ob \<and> ob_enc ob \<noteq> REDIS_ENCODING_INT \<and> (\<exists>x. ob_ptr ob = Aggregate x))"

lemma refcount_irrelevant [simp]:
  "sdsEncodedObject (ob\<lparr>refcount := r\<rparr>) = sdsEncodedObject ob"
  "content (ob\<lparr>refcount := r\<rparr>) = content ob"
  "value_of (ob\<lparr>refcount := r\<rparr>) = value_of ob"
  "obj_ok (ob\<lparr>refcount := r\<rparr>) = obj_ok ob"
  "obj_sds (ob\<lparr>refcount := r\<rparr>) = obj_sds ob"
  "obj_long (ob\<lparr>refcount := r\<rparr>) = obj_long ob"
  by (simp_all add: sdsEncodedObject_def content_def value_of_def obj_ok_def obj_sds_def obj_long_def)

abbreviation is_str :: "redisObject \<Rightarrow> bool" where
  "is_str ob \<equiv> ob_type ob = REDIS_STRING"

definition vals :: "redisServer \<Rightarrow> oid \<Rightarrow> val option" where
  "vals s i = map_option value_of (objs s i)"

definition str_at :: "redisServer \<Rightarrow> oid \<Rightarrow> bytes" where
  "str_at s i = (case vals s i of Some (Str b) \<Rightarrow> b | _ \<Rightarrow> [])"

text \<open>What a client will receive, and what a database holds.\<close>

definition out :: "redisServer \<Rightarrow> cid \<Rightarrow> bytes" where
  "out s c = c_buf (clients s c) @ concat (map (str_at s) (c_reply (clients s c)))"

definition keyspace :: "redisServer \<Rightarrow> dbid \<Rightarrow> bytes \<Rightarrow> val option" where
  "keyspace s d k = Option.bind (db_dict (dbs s d) k) (vals s)"

subsection \<open>References\<close>

definition client_refs :: "redisClient \<Rightarrow> oid \<Rightarrow> nat" where
  "client_refs cl i =
     count_list (c_reply cl) i + count_list (c_argv cl) i + sum_list (map (\<lambda>m. count_list (mc_argv m) i) (c_mstate cl)) +
     count_list (map fst (c_watched_keys cl)) i + count_list (map snd (c_pubsub_channels cl)) i +
     count_list (c_pubsub_patterns cl) i"

definition dict_refs :: "(bytes \<Rightarrow> oid option) \<Rightarrow> oid \<Rightarrow> nat" where
  "dict_refs m i = card {k. m k = Some i}"

definition watch_refs :: "(bytes \<Rightarrow> (oid \<times> cid list) option) \<Rightarrow> oid \<Rightarrow> nat" where
  "watch_refs m i = dict_refs (\<lambda>k. map_option fst (m k)) i"

definition db_refs :: "redisDb \<Rightarrow> oid \<Rightarrow> nat" where
  "db_refs b i = dict_refs (db_dict b) i + watch_refs (db_watched_keys b) i"

definition slowlog_refs :: "slowlogEntry list \<Rightarrow> oid \<Rightarrow> nat" where
  "slowlog_refs l i = sum_list (map (\<lambda>e. count_list (se_argv e) i) l)"

definition pubsub_refs :: "redisServer \<Rightarrow> oid \<Rightarrow> nat" where
  "pubsub_refs s i =
     count_list (map (fst \<circ> snd) (pubsub_channels s)) i + count_list (map snd (pubsub_patterns s)) i"

definition shared_refs :: "oid \<Rightarrow> nat" where
  "shared_refs i = (case i of Shared x \<Rightarrow> if createSharedObjects x = None then 0 else 1 | Dyn n \<Rightarrow> 0)"

definition refs :: "redisServer \<Rightarrow> oid \<Rightarrow> nat" where
  "refs s i =
     shared_refs i + (\<Sum>c<nclients s. client_refs (clients s c) i) +
     (\<Sum>d<dbnum s. db_refs (dbs s d) i) + slowlog_refs (slowlog s) i + pubsub_refs s i"

definition shared_ok :: "redisServer \<Rightarrow> bool" where
  "shared_ok s \<longleftrightarrow>
     (\<forall>x ob. createSharedObjects x = Some ob \<longrightarrow> map_option (refcount_update (\<lambda>_. 1)) (objs s (Shared x)) = Some ob)"

definition counted :: "redisServer \<Rightarrow> oid \<Rightarrow> bool" where
  "counted s i \<longleftrightarrow>
     (objs s i = None \<longrightarrow> refs s i = 0) \<and>
     (\<forall>ob. objs s i = Some ob \<longrightarrow> obj_ok ob \<and> int (refs s i) \<le> refcount ob \<and> 0 < refcount ob)"

definition server_inv :: "redisServer \<Rightarrow> bool" where
  "server_inv s \<longleftrightarrow>
     (\<forall>n\<ge>fresh s. objs s (Dyn n) = None) \<and> (\<forall>i. counted s i) \<and> shared_ok s \<and>
     (\<forall>d<dbnum s. finite (dom (db_dict (dbs s d))) \<and> finite (dom (db_watched_keys (dbs s d))))"

subsection \<open>Sums\<close>

lemma sum_fun_upd:
  assumes "finite A" "a \<in> A"
  shows "(\<Sum>x\<in>A. g ((f(a := v)) x)) + g (f a) = (\<Sum>x\<in>A. g (f x)) + (g v :: nat)"
  using assms by (simp add: sum.remove [of A a])

lemma member_le_sum_nat: "finite A \<Longrightarrow> a \<in> A \<Longrightarrow> (f a :: nat) \<le> (\<Sum>x\<in>A. f x)"
  by (simp add: sum.remove [of A a])

lemma dict_refs_upd:
  assumes "finite (dom m)"
  shows "dict_refs (m(k \<mapsto> v)) i + (if m k = Some i then 1 else 0) = dict_refs m i + (if v = i then 1 else 0)"
proof -
  have fin: "finite {x. m x = Some i}" by (rule finite_subset [OF _ assms]) auto
  then have pos: "m k = Some i \<Longrightarrow> 0 < card {x. m x = Some i}" by (auto simp: card_gt_0_iff)
  have e: "{x. (m(k \<mapsto> v)) x = Some i} = (if v = i then insert k ({x. m x = Some i} - {k}) else {x. m x = Some i} - {k})"
    by auto
  show ?thesis
    unfolding dict_refs_def e using fin pos by (auto simp: card_insert_if card_Diff_singleton_if)
qed

lemma dict_refs_del:
  assumes "finite (dom m)"
  shows "dict_refs (m(k := None)) i + (if m k = Some i then 1 else 0) = dict_refs m i"
proof -
  have fin: "finite {x. m x = Some i}" by (rule finite_subset [OF _ assms]) auto
  then have pos: "m k = Some i \<Longrightarrow> 0 < card {x. m x = Some i}" by (auto simp: card_gt_0_iff)
  have e: "{x. (m(k := None)) x = Some i} = {x. m x = Some i} - {k}" by auto
  show ?thesis
    unfolding dict_refs_def e using fin pos by (auto simp: card_Diff_singleton_if)
qed

lemma dict_refs_pos: "finite (dom m) \<Longrightarrow> m k = Some i \<Longrightarrow> 0 < dict_refs m i"
  unfolding dict_refs_def by (rule card_gt_0_iff [THEN iffD2]) (auto intro: finite_subset [of _ "dom m"])

subsection \<open>References under updates\<close>

lemma refs_fields [simp]:
  "refs (s\<lparr>objs := a\<rparr>) = refs s" "refs (s\<lparr>fresh := b\<rparr>) = refs s" "refs (s\<lparr>dirty := e\<rparr>) = refs s"
  "refs (s\<lparr>stat_expiredkeys := n1\<rparr>) = refs s" "refs (s\<lparr>stat_keyspace_hits := n2\<rparr>) = refs s"
  "refs (s\<lparr>stat_keyspace_misses := n3\<rparr>) = refs s" "refs (s\<lparr>propagated := p\<rparr>) = refs s"
  by (simp_all add: refs_def pubsub_refs_def fun_eq_iff)

lemma refs_update_obj [simp]: "refs (update_obj i v s) = refs s"
  by (simp add: update_obj_def)

lemma refs_update_client:
  assumes "c < nclients s"
  shows "refs (update_client c f s) i + client_refs (clients s c) i = refs s i + client_refs (f (clients s c)) i"
  using sum_fun_upd [of "{..<nclients s}" c "\<lambda>cl. client_refs cl i" "clients s" "f (clients s c)"] assms
  by (simp add: refs_def update_client_def pubsub_refs_def)

lemma refs_update_db:
  assumes "d < dbnum s"
  shows "refs (update_db d f s) i + db_refs (dbs s d) i = refs s i + db_refs (f (dbs s d)) i"
  using sum_fun_upd [of "{..<dbnum s}" d "\<lambda>b. db_refs b i" "dbs s" "f (dbs s d)"] assms
  by (simp add: refs_def update_db_def pubsub_refs_def)

lemma client_refs_le: "c < nclients s \<Longrightarrow> client_refs (clients s c) i \<le> refs s i"
  using member_le_sum_nat [of "{..<nclients s}" c "\<lambda>x. client_refs (clients s x) i"] by (simp add: refs_def)

lemma two_clients_refs_le:
  assumes "c < nclients s" "c' < nclients s" "c \<noteq> c'"
  shows "client_refs (clients s c) i + client_refs (clients s c') i \<le> refs s i"
proof -
  have "(\<Sum>x\<in>{c, c'}. client_refs (clients s x) i) \<le> (\<Sum>x<nclients s. client_refs (clients s x) i)"
    using assms by (intro sum_mono2) auto
  then show ?thesis using assms by (simp add: refs_def)
qed

lemma db_refs_le: "d < dbnum s \<Longrightarrow> db_refs (dbs s d) i \<le> refs s i"
  using member_le_sum_nat [of "{..<dbnum s}" d "\<lambda>x. db_refs (dbs s x) i"] by (simp add: refs_def)

lemma dict_refs_le: "d < dbnum s \<Longrightarrow> dict_refs (db_dict (dbs s d)) i \<le> refs s i"
  using db_refs_le [of d s i] by (simp add: db_refs_def)

lemma client_db_refs_le:
  "c < nclients s \<Longrightarrow> d < dbnum s \<Longrightarrow> client_refs (clients s c) i + db_refs (dbs s d) i \<le> refs s i"
  using member_le_sum_nat [of "{..<nclients s}" c "\<lambda>x. client_refs (clients s x) i"]
    member_le_sum_nat [of "{..<dbnum s}" d "\<lambda>x. db_refs (dbs s x) i"]
  by (simp add: refs_def)

lemma client_dict_refs_le:
  "c < nclients s \<Longrightarrow> d < dbnum s \<Longrightarrow> client_refs (clients s c) i + dict_refs (db_dict (dbs s d)) i \<le> refs s i"
  using client_db_refs_le [of c s d i] by (simp add: db_refs_def)

lemma shared_client_refs_le: "c < nclients s \<Longrightarrow> shared_refs i + client_refs (clients s c) i \<le> refs s i"
  using member_le_sum_nat [of "{..<nclients s}" c "\<lambda>x. client_refs (clients s x) i"] by (simp add: refs_def)

lemma two_dbs_refs_le:
  assumes "d < dbnum s" "d' < dbnum s" "d \<noteq> d'"
  shows "db_refs (dbs s d) i + db_refs (dbs s d') i \<le> refs s i"
proof -
  have "(\<Sum>x\<in>{d, d'}. db_refs (dbs s x) i) \<le> (\<Sum>x<dbnum s. db_refs (dbs s x) i)"
    using assms by (intro sum_mono2) auto
  then show ?thesis using assms by (simp add: refs_def)
qed

lemma reply_refs_pos: "c < nclients s \<Longrightarrow> i \<in> set (c_reply (clients s c)) \<Longrightarrow> 0 < refs s i"
  using client_refs_le [of c s i] count_list_0_iff [of "c_reply (clients s c)" i] by (simp add: client_refs_def)

lemma argv_refs_pos: "c < nclients s \<Longrightarrow> i \<in> set (c_argv (clients s c)) \<Longrightarrow> 0 < refs s i"
  using client_refs_le [of c s i] count_list_0_iff [of "c_argv (clients s c)" i] by (simp add: client_refs_def)

subsection \<open>Objects under the invariant\<close>

lemma server_invD:
  assumes "server_inv s"
  shows "objs s (Dyn (fresh s)) = None" "counted s i" "shared_ok s" "d < dbnum s \<Longrightarrow> finite (dom (db_dict (dbs s d)))"
    "d < dbnum s \<Longrightarrow> finite (dom (db_watched_keys (dbs s d)))"
  using assms by (auto simp: server_inv_def)

lemma live:
  assumes "server_inv s" "objs s i = Some ob"
  shows "obj_ok ob" "int (refs s i) \<le> refcount ob" "0 < refcount ob"
  using server_invD(2) [OF assms(1), of i] assms(2) by (auto simp: counted_def)

lemma referenced:
  assumes "server_inv s" "0 < refs s i"
  obtains ob where "objs s i = Some ob"
  using server_invD(2) [OF assms(1), of i] assms(2) by (cases "objs s i") (auto simp: counted_def)

lemma fresh_refs: "server_inv s \<Longrightarrow> refs s (Dyn (fresh s)) = 0"
  using server_invD(1) [of s] server_invD(2) [of s "Dyn (fresh s)"] by (simp add: counted_def)

lemma shared_refs_0: "refs s i = 0 \<Longrightarrow> i = Shared x \<Longrightarrow> createSharedObjects x = None"
  by (simp add: refs_def shared_refs_def split: if_splits)

lemma counted_update_obj:
  "counted (update_obj i v s) j =
    (if j = i then (case v of None \<Rightarrow> refs s i = 0 | Some ob \<Rightarrow> obj_ok ob \<and> int (refs s i) \<le> refcount ob \<and> 0 < refcount ob)
     else counted s j)"
  by (cases v) (auto simp: counted_def update_obj_def)

lemma inv_update_obj:
  assumes "server_inv s" "objs s i = Some old" "obj_ok ob" "int (refs s i) \<le> refcount ob" "0 < refcount ob"
    "shared_refs i = 0 \<or> refcount_update (\<lambda>_. 1) ob = refcount_update (\<lambda>_. 1) old"
  shows "server_inv (update_obj i (Some ob) s)"
proof -
  have "shared_ok (update_obj i (Some ob) s)"
    unfolding shared_ok_def
  proof (intro allI impI)
    fix x ob0 assume x: "createSharedObjects x = Some ob0"
    then have "map_option (refcount_update (\<lambda>_. 1)) (objs s (Shared x)) = Some ob0"
      using server_invD(3) [OF assms(1)] by (simp add: shared_ok_def)
    then show "map_option (refcount_update (\<lambda>_. 1)) (objs (update_obj i (Some ob) s) (Shared x)) = Some ob0"
      using assms(2,6) x by (auto simp: update_obj_def shared_refs_def)
  qed
  then show ?thesis
    using assms unfolding server_inv_def counted_update_obj by (auto simp: update_obj_def)
qed

lemma inv_free:
  assumes "server_inv s" "refs s i = 0"
  shows "server_inv (update_obj i None s)"
  using assms shared_refs_0 [OF assms(2)] unfolding server_inv_def counted_update_obj
  by (auto simp: update_obj_def shared_ok_def)

lemma inv_new:
  assumes "server_inv s" "obj_ok ob" "0 < refcount ob"
  shows "server_inv ((update_obj (Dyn (fresh s)) (Some ob) s)\<lparr>fresh := fresh s + 1\<rparr>)"
proof -
  have r: "refs s (Dyn (fresh s)) = 0" by (rule fresh_refs [OF assms(1)])
  have c: "counted ((update_obj (Dyn (fresh s)) (Some ob) s)\<lparr>fresh := fresh s + 1\<rparr>) j" for j
    using assms server_invD(2) [OF assms(1), of j] r by (simp add: counted_def update_obj_def)
  show ?thesis
    using assms(1) c by (auto simp: server_inv_def update_obj_def shared_ok_def)
qed

lemma inv_incr:
  assumes "server_inv s" "objs s i = Some ob"
  shows "incrRefCount i s = Some (update_obj i (Some (ob\<lparr>refcount := refcount ob + 1\<rparr>)) s)"
    "server_inv (update_obj i (Some (ob\<lparr>refcount := refcount ob + 1\<rparr>)) s)"
proof -
  have "obj_ok (ob\<lparr>refcount := refcount ob + 1\<rparr>)" using live [OF assms] by simp
  then show "server_inv (update_obj i (Some (ob\<lparr>refcount := refcount ob + 1\<rparr>)) s)"
    using live [OF assms] by (intro inv_update_obj [OF assms]) auto
qed (simp add: incrRefCount_def assms)

text \<open>An object that has more counts than references can lose one.\<close>

lemma inv_decr:
  assumes "server_inv s" "objs s i = Some ob" "int (refs s i) < refcount ob"
  shows "\<exists>v. decrRefCount i s = Some (update_obj i v s) \<and> server_inv (update_obj i v s) \<and>
    v = (if refcount ob = 1 then None else Some (ob\<lparr>refcount := refcount ob - 1\<rparr>))"
proof (cases "refcount ob = 1")
  case True
  then show ?thesis using assms inv_free [OF assms(1), of i] by (simp add: decrRefCount_def)
next
  case False
  have "obj_ok (ob\<lparr>refcount := refcount ob - 1\<rparr>)" using live [OF assms(1,2)] by simp
  then have "server_inv (update_obj i (Some (ob\<lparr>refcount := refcount ob - 1\<rparr>)) s)"
    using live [OF assms(1,2)] assms(3) False by (intro inv_update_obj [OF assms(1,2)]) auto
  then show ?thesis using assms live [OF assms(1,2)] False by (simp add: decrRefCount_def)
qed

lemma shared_obj:
  assumes "server_inv s" "createSharedObjects x = Some ob0"
  shows "\<exists>r. objs s (Shared x) = Some (ob0\<lparr>refcount := r\<rparr>)"
proof -
  obtain ob where ob: "objs s (Shared x) = Some ob" "refcount_update (\<lambda>_. 1) ob = ob0"
    using server_invD(3) [OF assms(1)] assms(2) by (force simp: shared_ok_def)
  then have "ob = ob0\<lparr>refcount := refcount ob\<rparr>" by auto
  then show ?thesis using ob(1) by metis
qed

lemma createShared_string:
  assumes "createSharedObjects x = Some ob"
  shows "content ob = shared_string x" "is_str ob"
proof -
  have e: "dec_int (int n) = dec n" for n by (simp add: dec_int_def)
  show "content ob = shared_string x" using assms by (cases x) (auto simp: content_def e split: if_splits)
  show "is_str ob" using assms by (cases x) (auto split: if_splits)
qed

end
