(* ===== verification/Reply.thy ===== *)
theory Reply
  imports Refs
begin

text \<open>
  The output side of \<open>src/lib/src/networking.c\<close>: replies go to the static buffer of the client while they
  fit and then to a list of objects, in which short replies are glued to the last object unless somebody else
  refers to it. The limits on the output buffers (\<open>asyncCloseClientOnOutputBufferLimitReached\<close>), which are off
  for normal clients, are not modelled.
\<close>

definition REDIS_REPLY_CHUNK_BYTES :: nat where
  "REDIS_REPLY_CHUNK_BYTES = 16384"

definition prepareClientToWrite :: "redisClient \<Rightarrow> bool" where
  "prepareClientToWrite cl =
     (if REDIS_LUA_CLIENT \<in> c_flags cl then True
      else if REDIS_MASTER \<in> c_flags cl \<and> REDIS_MASTER_FORCE_REPLY \<notin> c_flags cl then False
      else if c_fd cl \<le> 0 then False
      else if c_buf cl = [] \<and> c_reply cl = [] \<and> c_repl_idle cl \<and> \<not> c_ae_ok cl then False
      else True)"

definition set_ptr :: "oid \<Rightarrow> ptr \<Rightarrow> redisServer \<Rightarrow> redisServer option" where
  "set_ptr i p s =
     (case objs s i of None \<Rightarrow> None | Some ob \<Rightarrow> Some (update_obj i (Some (ob\<lparr>ob_ptr := p\<rparr>)) s))"

definition push_reply :: "cid \<Rightarrow> oid \<Rightarrow> redisServer \<Rightarrow> redisServer" where
  "push_reply c i s = update_client c (\<lambda>cl. cl\<lparr>c_reply := c_reply cl @ [i]\<rparr>) s"

definition dupLastObjectIfNeeded :: "cid \<Rightarrow> redisServer \<Rightarrow> (oid \<times> redisServer) option" where
  "dupLastObjectIfNeeded c s =
     (let reply = c_reply (clients s c)
      in if reply = [] then None
         else let cur = last reply
              in do {
                ob \<leftarrow> objs s cur;
                (if refcount ob > 1 then do {
                   (n, s1) \<leftarrow> dupStringObject cur s;
                   s2 \<leftarrow> decrRefCount cur s1;
                   Some (n, update_client c (\<lambda>cl. cl\<lparr>c_reply := butlast (c_reply cl) @ [n]\<rparr>) s2)
                 }
                 else Some (cur, s))
              })"

definition addReplyToBuffer :: "cid \<Rightarrow> bytes \<Rightarrow> redisServer \<Rightarrow> bool \<times> redisServer" where
  "addReplyToBuffer c b s =
     (let cl = clients s c; available = REDIS_REPLY_CHUNK_BYTES - length (c_buf cl)
      in if REDIS_CLOSE_AFTER_REPLY \<in> c_flags cl then (True, s)
         else if c_reply cl \<noteq> [] then (False, s)
         else if length b > available then (False, s)
         else (True, update_client c (\<lambda>cl. cl\<lparr>c_buf := c_buf cl @ b\<rparr>) s))"

text \<open>
  Whether \<open>b\<close> can be glued to the last object of a non-empty list, and gluing it. The characters may not
  come from the object that is glued to (\<open>src\<close>), which \<open>sdscatlen\<close> may move.
\<close>

definition can_glue :: "cid \<Rightarrow> nat \<Rightarrow> redisServer \<Rightarrow> bool option" where
  "can_glue c len s =
     do {
       tail \<leftarrow> objs s (last (c_reply (clients s c)));
       (if ob_ptr tail \<noteq> Null \<and> ob_enc tail = REDIS_ENCODING_RAW then do {
          t \<leftarrow> obj_sds tail;
          Some (length t + len \<le> REDIS_REPLY_CHUNK_BYTES)
        }
        else Some False)
     }"

definition glue :: "cid \<Rightarrow> oid option \<Rightarrow> bytes \<Rightarrow> redisServer \<Rightarrow> redisServer option" where
  "glue c src b s =
     do {
       (tail, s1) \<leftarrow> dupLastObjectIfNeeded c s;
       t \<leftarrow> sds_at s1 tail;
       (if src = Some tail then None else set_ptr tail (Sds (t @ b)) s1)
     }"

definition addReplyObjectToList :: "cid \<Rightarrow> oid \<Rightarrow> redisServer \<Rightarrow> redisServer option" where
  "addReplyObjectToList c i s =
     (let cl = clients s c
      in if REDIS_CLOSE_AFTER_REPLY \<in> c_flags cl then Some s
         else if c_reply cl = [] then do { s1 \<leftarrow> incrRefCount i s; Some (push_reply c i s1) }
         else do {
           b \<leftarrow> sds_at s i;
           g \<leftarrow> can_glue c (length b) s;
           (if g then glue c (Some i) b s
            else do { s1 \<leftarrow> incrRefCount i s; Some (push_reply c i s1) })
         })"

definition addReplySdsToList :: "cid \<Rightarrow> bytes \<Rightarrow> redisServer \<Rightarrow> redisServer option" where
  "addReplySdsToList c b s =
     (let cl = clients s c
      in if REDIS_CLOSE_AFTER_REPLY \<in> c_flags cl then Some s
         else if c_reply cl = [] then let (i, s1) = createObject REDIS_STRING (Sds b) s in Some (push_reply c i s1)
         else do {
           g \<leftarrow> can_glue c (length b) s;
           (if g then glue c None b s
            else let (i, s1) = createObject REDIS_STRING (Sds b) s in Some (push_reply c i s1))
         })"

definition addReplyStringToList :: "cid \<Rightarrow> bytes \<Rightarrow> redisServer \<Rightarrow> redisServer option" where
  "addReplyStringToList c b s =
     (let cl = clients s c
      in if REDIS_CLOSE_AFTER_REPLY \<in> c_flags cl then Some s
         else if c_reply cl = [] then let (i, s1) = createStringObject b s in Some (push_reply c i s1)
         else do {
           g \<leftarrow> can_glue c (length b) s;
           (if g then glue c None b s
            else let (i, s1) = createStringObject b s in Some (push_reply c i s1))
         })"

definition addReply :: "cid \<Rightarrow> oid \<Rightarrow> redisServer \<Rightarrow> redisServer option" where
  "addReply c i s =
     (if \<not> prepareClientToWrite (clients s c) then Some s
      else do {
        ob \<leftarrow> objs s i;
        (if sdsEncodedObject ob then do {
           b \<leftarrow> obj_sds ob;
           let (done, s1) = addReplyToBuffer c b s;
           (if done then Some s1 else addReplyObjectToList c i s1)
         }
         else if ob_enc ob = REDIS_ENCODING_INT then do {
           n \<leftarrow> obj_long ob;
           let room = (c_reply (clients s c) = [] \<and> REDIS_REPLY_CHUNK_BYTES - length (c_buf (clients s c)) \<ge> 32);
           let (done, s1) = (if room then addReplyToBuffer c (ll2string 32 n) s else (False, s));
           (if done then Some s1
            else do {
              (d, s2) \<leftarrow> getDecodedObject i s1;
              b \<leftarrow> sds_at s2 d;
              let (done2, s3) = addReplyToBuffer c b s2;
              s4 \<leftarrow> (if done2 then Some s3 else addReplyObjectToList c d s3);
              decrRefCount d s4
            })
         }
         else None)
      })"

definition addReplySds :: "cid \<Rightarrow> bytes \<Rightarrow> redisServer \<Rightarrow> redisServer option" where
  "addReplySds c b s =
     (if \<not> prepareClientToWrite (clients s c) then Some s
      else let (done, s1) = addReplyToBuffer c b s in if done then Some s1 else addReplySdsToList c b s1)"

definition addReplyString :: "cid \<Rightarrow> bytes \<Rightarrow> redisServer \<Rightarrow> redisServer option" where
  "addReplyString c b s =
     (if \<not> prepareClientToWrite (clients s c) then Some s
      else let (done, s1) = addReplyToBuffer c b s in if done then Some s1 else addReplyStringToList c b s1)"

definition addReplyErrorLength :: "cid \<Rightarrow> bytes \<Rightarrow> redisServer \<Rightarrow> redisServer option" where
  "addReplyErrorLength c b s =
     do { s1 \<leftarrow> addReplyString c ''-ERR '' s; s2 \<leftarrow> addReplyString c b s1; addReplyString c CRLF s2 }"

definition addReplyError :: "cid \<Rightarrow> bytes \<Rightarrow> redisServer \<Rightarrow> redisServer option" where
  "addReplyError c err s = addReplyErrorLength c (c_str err) s"

text \<open>The formatted text is the argument.\<close>

definition addReplyErrorFormat :: "cid \<Rightarrow> bytes \<Rightarrow> redisServer \<Rightarrow> redisServer option" where
  "addReplyErrorFormat c b s =
     addReplyErrorLength c (map (\<lambda>x. if x = CHR 0x0D \<or> x = CHR 0x0A then CHR '' '' else x) b) s"

definition addReplyStatusLength :: "cid \<Rightarrow> bytes \<Rightarrow> redisServer \<Rightarrow> redisServer option" where
  "addReplyStatusLength c b s =
     do { s1 \<leftarrow> addReplyString c ''+'' s; s2 \<leftarrow> addReplyString c b s1; addReplyString c CRLF s2 }"

definition addReplyStatus :: "cid \<Rightarrow> bytes \<Rightarrow> redisServer \<Rightarrow> redisServer option" where
  "addReplyStatus c status s = addReplyStatusLength c (c_str status) s"

definition addReplyStatusFormat :: "cid \<Rightarrow> bytes \<Rightarrow> redisServer \<Rightarrow> redisServer option" where
  "addReplyStatusFormat c b s = addReplyStatusLength c b s"

text \<open>The node of a deferred length is its position in the list.\<close>

definition addDeferredMultiBulkLength :: "cid \<Rightarrow> redisServer \<Rightarrow> nat option \<times> redisServer" where
  "addDeferredMultiBulkLength c s =
     (if \<not> prepareClientToWrite (clients s c) then (None, s)
      else let (i, s1) = createObject REDIS_STRING Null s
           in (Some (length (c_reply (clients s c))), push_reply c i s1))"

definition setDeferredMultiBulkLength :: "cid \<Rightarrow> nat option \<Rightarrow> int \<Rightarrow> redisServer \<Rightarrow> redisServer option" where
  "setDeferredMultiBulkLength c node len s =
     (case node of
        None \<Rightarrow> Some s
      | Some n \<Rightarrow>
          let reply = c_reply (clients s c); hdr = ''*'' @ dec_int len @ CRLF
          in if n \<ge> length reply then None
             else do {
               ob \<leftarrow> objs s (reply ! n);
               let s1 = update_obj (reply ! n) (Some (ob\<lparr>ob_enc := REDIS_ENCODING_RAW, ob_ptr := Sds hdr\<rparr>)) s;
               (if n + 1 < length reply then do {
                  nx \<leftarrow> objs s1 (reply ! (n + 1));
                  (if ob_ptr nx \<noteq> Null then do {
                     t \<leftarrow> obj_sds nx;
                     s2 \<leftarrow> set_ptr (reply ! n) (Sds (hdr @ t)) s1;
                     s3 \<leftarrow> decrRefCount (reply ! (n + 1)) s2;
                     Some (update_client c (\<lambda>cl. cl\<lparr>c_reply := take (n + 1) reply @ drop (n + 2) reply\<rparr>) s3)
                   }
                   else Some s1)
                }
                else Some s1)
             })"

definition addReplyLongLongWithPrefix :: "cid \<Rightarrow> int \<Rightarrow> char \<Rightarrow> redisServer \<Rightarrow> redisServer option" where
  "addReplyLongLongWithPrefix c ll prefix s =
     (if prefix = CHR ''*'' \<and> ll < int REDIS_SHARED_BULKHDR_LEN
      then if ll < 0 then None else addReply c (Shared (S_mbulkhdr (nat ll))) s
      else if prefix = CHR ''$'' \<and> ll < int REDIS_SHARED_BULKHDR_LEN
      then if ll < 0 then None else addReply c (Shared (S_bulkhdr (nat ll))) s
      else addReplyString c ([prefix] @ ll2string 127 ll @ CRLF) s)"

definition addReplyLongLong :: "cid \<Rightarrow> int \<Rightarrow> redisServer \<Rightarrow> redisServer option" where
  "addReplyLongLong c ll s =
     (if ll = 0 then addReply c (Shared S_czero) s
      else if ll = 1 then addReply c (Shared S_cone) s
      else addReplyLongLongWithPrefix c ll (CHR '':'') s)"

definition addReplyMultiBulkLen :: "cid \<Rightarrow> int \<Rightarrow> redisServer \<Rightarrow> redisServer option" where
  "addReplyMultiBulkLen c len s =
     (if len < int REDIS_SHARED_BULKHDR_LEN
      then if len < 0 then None else addReply c (Shared (S_mbulkhdr (nat len))) s
      else addReplyLongLongWithPrefix c len (CHR ''*'') s)"

text \<open>The number of decimal digits; negating the least \<open>long\<close> overflows.\<close>

fun count_digits :: "nat \<Rightarrow> nat" where
  "count_digits n = (if n div 10 = 0 then 1 else 1 + count_digits (n div 10))"

declare count_digits.simps [simp del]

definition decimal_len :: "int \<Rightarrow> nat option" where
  "decimal_len n =
     (if n < 0 then if n = LLONG_MIN then None else Some (1 + count_digits (nat (- n)))
      else Some (count_digits (nat n)))"

definition addReplyBulkLen :: "cid \<Rightarrow> oid \<Rightarrow> redisServer \<Rightarrow> redisServer option" where
  "addReplyBulkLen c i s =
     do {
       ob \<leftarrow> objs s i;
       len \<leftarrow> (if sdsEncodedObject ob then map_option length (obj_sds ob)
               else do { n \<leftarrow> obj_long ob; decimal_len n });
       (if len < REDIS_SHARED_BULKHDR_LEN then addReply c (Shared (S_bulkhdr len)) s
        else addReplyLongLongWithPrefix c (int len) (CHR ''$'') s)
     }"

definition addReplyBulk :: "cid \<Rightarrow> oid \<Rightarrow> redisServer \<Rightarrow> redisServer option" where
  "addReplyBulk c i s =
     do { s1 \<leftarrow> addReplyBulkLen c i s; s2 \<leftarrow> addReply c i s1; addReply c (Shared S_crlf) s2 }"

definition addReplyBulkCBuffer :: "cid \<Rightarrow> bytes \<Rightarrow> redisServer \<Rightarrow> redisServer option" where
  "addReplyBulkCBuffer c b s =
     do { s1 \<leftarrow> addReplyLongLongWithPrefix c (int (length b)) (CHR ''$'') s;
          s2 \<leftarrow> addReplyString c b s1; addReply c (Shared S_crlf) s2 }"

definition addReplyBulkCString :: "cid \<Rightarrow> bytes option \<Rightarrow> redisServer \<Rightarrow> redisServer option" where
  "addReplyBulkCString c b s =
     (case b of None \<Rightarrow> addReply c (Shared S_nullbulk) s | Some t \<Rightarrow> addReplyBulkCBuffer c (c_str t) s)"

definition addReplyBulkLongLong :: "cid \<Rightarrow> int \<Rightarrow> redisServer \<Rightarrow> redisServer option" where
  "addReplyBulkLongLong c ll s = addReplyBulkCBuffer c (ll2string 64 ll) s"

definition checkType :: "cid \<Rightarrow> oid \<Rightarrow> redisType \<Rightarrow> redisServer \<Rightarrow> (bool \<times> redisServer) option" where
  "checkType c i ty s =
     do {
       ob \<leftarrow> objs s i;
       (if ob_type ob \<noteq> ty then map_option (Pair True) (addReply c (Shared S_wrongtypeerr) s)
        else Some (False, s))
     }"

text \<open>The reading of a number with an error reply; the result \<open>None\<close> of the inner option is \<open>REDIS_ERR\<close>.\<close>

definition getLongLongFromObjectOrReply :: "cid \<Rightarrow> oid option \<Rightarrow> bytes option \<Rightarrow> redisServer \<Rightarrow> (int option \<times> redisServer) option" where
  "getLongLongFromObjectOrReply c oi msg s =
     do {
       r \<leftarrow> getLongLongFromObject s oi;
       (case r of
          None \<Rightarrow> map_option (Pair None) (addReplyError c (case msg of Some m \<Rightarrow> m | None \<Rightarrow> ''value is not an integer or out of range'') s)
        | Some value \<Rightarrow> Some (Some value, s))
     }"

definition getLongFromObjectOrReply :: "cid \<Rightarrow> oid option \<Rightarrow> bytes option \<Rightarrow> redisServer \<Rightarrow> (int option \<times> redisServer) option" where
  "getLongFromObjectOrReply c oi msg s =
     do {
       (r, s1) \<leftarrow> getLongLongFromObjectOrReply c oi msg s;
       (case r of
          None \<Rightarrow> Some (None, s1)
        | Some value \<Rightarrow>
            if value < LLONG_MIN \<or> value > LLONG_MAX
            then map_option (Pair None) (addReplyError c (case msg of Some m \<Rightarrow> m | None \<Rightarrow> ''value is out of range'') s1)
            else Some (Some value, s1))
     }"

end
