(* ===== verification/ReplyStream.thy ===== *)
theory ReplyStream
  imports Reply
begin

text \<open>
  The replies of \<open>networking.c\<close> as a stream: every reply function appends its bytes to what the client will
  receive, and changes nothing that anybody else can see, although replies are sent by reference and glued
  together in place.
\<close>

definition rcount :: "redisServer \<Rightarrow> cid \<Rightarrow> oid \<Rightarrow> nat" where
  "rcount s c i = count_list (c_reply (clients s c)) i"

text \<open>
  An object is held when somebody other than the output list of \<open>c\<close> counts on it. Held objects keep their
  value, and their counts beyond that list.
\<close>

definition held :: "redisServer \<Rightarrow> cid \<Rightarrow> oid \<Rightarrow> redisObject \<Rightarrow> bool" where
  "held s c i ob \<longleftrightarrow> objs s i = Some ob \<and> int (rcount s c i) < refcount ob"

definition kept :: "cid \<Rightarrow> redisServer \<Rightarrow> redisServer \<Rightarrow> bool" where
  "kept c s s' \<longleftrightarrow>
     (\<forall>i ob. held s c i ob \<longrightarrow>
        (\<exists>r. objs s' i = Some (ob\<lparr>refcount := r\<rparr>) \<and> r - int (rcount s' c i) = refcount ob - int (rcount s c i)))"

definition io_only :: "cid \<Rightarrow> redisServer \<Rightarrow> redisServer \<Rightarrow> bool" where
  "io_only c s s' \<longleftrightarrow>
     (\<exists>os n b l. s' = s\<lparr>objs := os, fresh := n,
        clients := (clients s)(c := (clients s c)\<lparr>c_buf := b, c_reply := l\<rparr>)\<rparr>)"

definition sends :: "cid \<Rightarrow> bytes \<Rightarrow> redisServer \<Rightarrow> redisServer option \<Rightarrow> bool" where
  "sends c b s r \<longleftrightarrow>
     (\<exists>s'. r = Some s' \<and> server_inv s' \<and> out s' c = out s c @ b \<and> kept c s s' \<and> io_only c s s')"

text \<open>
  A reply that leaves 32 bytes of the static buffer of a client without an output list is stored there, and
  nothing else changes.
\<close>

definition put :: "cid \<Rightarrow> bytes \<Rightarrow> redisServer \<Rightarrow> redisServer" where
  "put c b s = update_client c (\<lambda>cl. cl\<lparr>c_buf := c_buf cl @ b\<rparr>) s"

definition fits :: "cid \<Rightarrow> bytes \<Rightarrow> redisServer \<Rightarrow> bool" where
  "fits c b s \<longleftrightarrow>
     c_reply (clients s c) = [] \<and> length (c_buf (clients s c)) + length b + 32 \<le> REDIS_REPLY_CHUNK_BYTES"

definition emits :: "cid \<Rightarrow> bytes \<Rightarrow> redisServer \<Rightarrow> redisServer option \<Rightarrow> bool" where
  "emits c b s r \<longleftrightarrow> sends c b s r \<and> (fits c b s \<longrightarrow> r = Some (put c b s))"

lemma put_put: "put c b (put c a s) = put c (a @ b) s"
  by (simp add: put_def update_client_def)

lemma put_Nil [simp]: "put c [] s = s"
  by (simp add: put_def update_client_def)

lemma fits_append: "fits c (a @ b) s \<Longrightarrow> fits c a s \<and> fits c b (put c a s)"
  by (simp add: fits_def put_def update_client_def)

lemma emits_sends: "emits c b s r \<Longrightarrow> sends c b s r"
  by (simp add: emits_def)

definition accepts :: "redisClient \<Rightarrow> bool" where
  "accepts cl \<longleftrightarrow>
     REDIS_CLOSE_AFTER_REPLY \<notin> c_flags cl \<and>
     (REDIS_LUA_CLIENT \<in> c_flags cl \<or>
      ((REDIS_MASTER \<in> c_flags cl \<longrightarrow> REDIS_MASTER_FORCE_REPLY \<in> c_flags cl) \<and> 0 < c_fd cl \<and> (c_repl_idle cl \<longrightarrow> c_ae_ok cl)))"

lemma acceptsD:
  assumes "accepts cl"
  shows "prepareClientToWrite cl" "REDIS_CLOSE_AFTER_REPLY \<notin> c_flags cl"
  using assms by (auto simp: accepts_def prepareClientToWrite_def)

lemma vals_fields [simp]:
  "vals (s\<lparr>clients := a\<rparr>) = vals s" "vals (s\<lparr>dbs := b\<rparr>) = vals s" "vals (s\<lparr>fresh := d\<rparr>) = vals s"
  "vals (s\<lparr>dirty := e\<rparr>) = vals s" "vals (s\<lparr>propagated := p\<rparr>) = vals s"
  "vals (s\<lparr>stat_expiredkeys := n1\<rparr>) = vals s" "vals (s\<lparr>stat_keyspace_hits := n2\<rparr>) = vals s"
  "vals (s\<lparr>stat_keyspace_misses := n3\<rparr>) = vals s"
  "vals (update_client c f s) = vals s" "vals (update_db i g s) = vals s"
  by (simp_all add: vals_def fun_eq_iff update_client_def update_db_def)

lemma str_at_vals: "vals s = vals s' \<Longrightarrow> str_at s = str_at s'"
  by (simp add: str_at_def fun_eq_iff)

lemma str_at_update_client [simp]: "str_at (update_client c f s) = str_at s"
  by (rule str_at_vals) simp

subsection \<open>Composition\<close>

lemma kept_refl: "kept c s s"
proof -
  have "ob = ob\<lparr>refcount := refcount ob\<rparr>" for ob :: redisObject by simp
  then show ?thesis unfolding kept_def held_def by metis
qed

lemma kept_trans:
  assumes "kept c s s1" "kept c s1 s2"
  shows "kept c s s2"
  unfolding kept_def
proof (intro allI impI)
  fix i ob assume h: "held s c i ob"
  then obtain r where r: "objs s1 i = Some (ob\<lparr>refcount := r\<rparr>)" "r - int (rcount s1 c i) = refcount ob - int (rcount s c i)"
    using assms(1) by (auto simp: kept_def)
  then have "held s1 c i (ob\<lparr>refcount := r\<rparr>)" using h by (simp add: held_def)
  then obtain r2 where "objs s2 i = Some (ob\<lparr>refcount := r2\<rparr>)" "r2 - int (rcount s2 c i) = r - int (rcount s1 c i)"
    using assms(2) unfolding kept_def by fastforce
  then show "\<exists>r. objs s2 i = Some (ob\<lparr>refcount := r\<rparr>) \<and> r - int (rcount s2 c i) = refcount ob - int (rcount s c i)"
    using r(2) by auto
qed

lemma io_only_refl: "io_only c s s"
proof -
  have "s = s\<lparr>objs := objs s, fresh := fresh s,
      clients := (clients s)(c := (clients s c)\<lparr>c_buf := c_buf (clients s c), c_reply := c_reply (clients s c)\<rparr>)\<rparr>" by simp
  then show ?thesis unfolding io_only_def by blast
qed

lemma io_only_trans:
  assumes "io_only c s s1" "io_only c s1 s2"
  shows "io_only c s s2"
proof -
  obtain o1 n1 b1 l1 where 1: "s1 = s\<lparr>objs := o1, fresh := n1,
      clients := (clients s)(c := (clients s c)\<lparr>c_buf := b1, c_reply := l1\<rparr>)\<rparr>"
    using assms(1) unfolding io_only_def by blast
  obtain o2 n2 b2 l2 where 2: "s2 = s1\<lparr>objs := o2, fresh := n2,
      clients := (clients s1)(c := (clients s1 c)\<lparr>c_buf := b2, c_reply := l2\<rparr>)\<rparr>"
    using assms(2) unfolding io_only_def by blast
  have "s2 = s\<lparr>objs := o2, fresh := n2, clients := (clients s)(c := (clients s c)\<lparr>c_buf := b2, c_reply := l2\<rparr>)\<rparr>"
    using 1 2 by simp
  then show ?thesis unfolding io_only_def by blast
qed

lemma io_only_fields:
  assumes "io_only c s s'"
  shows "nclients s' = nclients s" "dbs s' = dbs s" "dbnum s' = dbnum s" "mstime s' = mstime s" "loading s' = loading s"
    "masterhost s' = masterhost s" "maxmemory s' = maxmemory s" "dirty s' = dirty s" "slowlog s' = slowlog s"
    "notify_keyspace_events s' = notify_keyspace_events s" "propagated s' = propagated s"
    "c' \<noteq> c \<Longrightarrow> clients s' c' = clients s c'"
    "c_flags (clients s' c) = c_flags (clients s c)" "c_fd (clients s' c) = c_fd (clients s c)" "c_db (clients s' c) = c_db (clients s c)"
    "c_argv (clients s' c) = c_argv (clients s c)" "c_mstate (clients s' c) = c_mstate (clients s c)"
    "c_repl_idle (clients s' c) = c_repl_idle (clients s c)" "c_ae_ok (clients s' c) = c_ae_ok (clients s c)"
    "c_watched_keys (clients s' c) = c_watched_keys (clients s c)"
  using assms unfolding io_only_def by auto

lemma io_only_accepts: "io_only c s s' \<Longrightarrow> accepts (clients s' c) = accepts (clients s c)"
  by (simp add: accepts_def io_only_fields)

lemma sends_Some: "server_inv s \<Longrightarrow> sends c [] s (Some s)"
  by (simp add: sends_def kept_refl io_only_refl)

lemma sends_bind:
  assumes "sends c b1 s r" "\<And>s1. server_inv s1 \<Longrightarrow> kept c s s1 \<Longrightarrow> io_only c s s1 \<Longrightarrow> sends c b2 s1 (f s1)"
  shows "sends c (b1 @ b2) s (r \<bind> f)"
proof -
  obtain s1 where s1: "r = Some s1" "server_inv s1" "out s1 c = out s c @ b1" "kept c s s1" "io_only c s s1"
    using assms(1) by (auto simp: sends_def)
  then obtain s2 where "f s1 = Some s2" "server_inv s2" "out s2 c = out s1 c @ b2" "kept c s1 s2" "io_only c s1 s2"
    using assms(2) [OF s1(2,4,5)] by (auto simp: sends_def)
  then show ?thesis using s1 kept_trans io_only_trans by (auto simp: sends_def)
qed

lemma emits_Some: "server_inv s \<Longrightarrow> emits c [] s (Some s)"
  by (simp add: emits_def sends_Some)

lemma emits_bind:
  assumes "emits c b1 s r" "\<And>s1. server_inv s1 \<Longrightarrow> kept c s s1 \<Longrightarrow> io_only c s s1 \<Longrightarrow> emits c b2 s1 (f s1)"
  shows "emits c (b1 @ b2) s (r \<bind> f)"
proof -
  have "r \<bind> f = Some (put c (b1 @ b2) s)" if "fits c (b1 @ b2) s"
  proof -
    have 1: "r = Some (put c b1 s)" and 2: "fits c b2 (put c b1 s)" using fits_append [OF that] assms(1) by (auto simp: emits_def)
    then have "server_inv (put c b1 s)" "kept c s (put c b1 s)" "io_only c s (put c b1 s)"
      using assms(1) by (auto simp: emits_def sends_def)
    then have "f (put c b1 s) = Some (put c b2 (put c b1 s))" using assms(2) 2 by (auto simp: emits_def)
    then show ?thesis using 1 by (simp add: put_put)
  qed
  moreover have "sends c (b1 @ b2) s (r \<bind> f)"
    by (rule sends_bind) (use assms in \<open>auto simp: emits_def\<close>)
  ultimately show ?thesis by (simp add: emits_def)
qed

subsection \<open>Changing the references of a client\<close>

lemma inv_update_client:
  assumes s: "server_inv s" "c < nclients s"
    and le: "\<And>j. client_refs (f (clients s c)) j \<le> client_refs (clients s c) j + (if i = Some j then 1 else 0)"
    and i: "\<And>j. i = Some j \<Longrightarrow> \<exists>ob. objs s j = Some ob \<and> int (refs s j) < refcount ob"
  shows "server_inv (update_client c f s)"
proof -
  have same: "objs (update_client c f s) = objs s" "fresh (update_client c f s) = fresh s"
    "dbs (update_client c f s) = dbs s" "dbnum (update_client c f s) = dbnum s"
    by (simp_all add: update_client_def)
  have r: "refs (update_client c f s) j \<le> refs s j + (if i = Some j then 1 else 0)" for j
    using refs_update_client [OF s(2), of f j] le [of j] by linarith
  have "counted (update_client c f s) j" for j
  proof (cases "i = Some j")
    case True
    then obtain ob where "objs s j = Some ob" "int (refs s j) < refcount ob" using i by blast
    then show ?thesis using r [of j] True live [OF s(1)] by (auto simp: counted_def same)
  next
    case False
    then have "refs (update_client c f s) j \<le> refs s j" using r [of j] by simp
    then show ?thesis using server_invD(2) [OF s(1), of j] by (auto simp: counted_def same)
  qed
  then show ?thesis using s(1) by (simp add: server_inv_def shared_ok_def same)
qed

lemma client_refs_reply:
  "client_refs (cl\<lparr>c_reply := l\<rparr>) i + count_list (c_reply cl) i = client_refs cl i + count_list l i"
  by (simp add: client_refs_def)

lemma client_refs_buf [simp]: "client_refs (cl\<lparr>c_buf := b\<rparr>) i = client_refs cl i"
  by (simp add: client_refs_def)

lemma out_update_obj:
  assumes "\<And>i. i \<in> set (c_reply (clients s c)) \<Longrightarrow> vals s' i = vals s i"
    "c_reply (clients s' c) = c_reply (clients s c)" "c_buf (clients s' c) = c_buf (clients s c)"
  shows "out s' c = out s c"
proof -
  have "map (str_at s') (c_reply (clients s c)) = map (str_at s) (c_reply (clients s c))"
    using assms(1) by (simp add: str_at_def)
  then show ?thesis by (simp only: out_def assms(2,3))
qed

subsection \<open>The three ways a reply is stored\<close>

lemma sends_buffer:
  assumes "server_inv s" "c < nclients s" "c_reply (clients s c) = []"
  shows "sends c b s (Some (update_client c (\<lambda>cl. cl\<lparr>c_buf := c_buf cl @ b\<rparr>) s))"
proof -
  let ?s = "update_client c (\<lambda>cl. cl\<lparr>c_buf := c_buf cl @ b\<rparr>) s"
  have "server_inv ?s" by (rule inv_update_client [OF assms(1,2), where i = None]) auto
  moreover have "out ?s c = out s c @ b" using assms(3) by (simp add: out_def update_client_def)
  moreover have "kept c s ?s"
    unfolding kept_def
  proof (intro allI impI)
    fix i ob assume "held s c i ob"
    then have "objs ?s i = Some (ob\<lparr>refcount := refcount ob\<rparr>)" by (simp add: held_def update_client_def)
    moreover have "rcount ?s c i = rcount s c i" by (simp add: rcount_def update_client_def)
    ultimately show "\<exists>r. objs ?s i = Some (ob\<lparr>refcount := r\<rparr>) \<and> r - int (rcount ?s c i) = refcount ob - int (rcount s c i)"
      by (intro exI [of _ "refcount ob"]) simp
  qed
  moreover have "io_only c s ?s"
  proof -
    have "?s = s\<lparr>objs := objs s, fresh := fresh s,
        clients := (clients s)(c := (clients s c)\<lparr>c_buf := c_buf (clients s c) @ b, c_reply := c_reply (clients s c)\<rparr>)\<rparr>"
      by (simp add: update_client_def)
    then show ?thesis unfolding io_only_def by blast
  qed
  ultimately show ?thesis by (auto simp: sends_def)
qed

text \<open>Appending an object \<open>i\<close> of a state \<open>s1\<close> that differs from \<open>s\<close> in that \<open>i\<close> was counted once more, or is new.\<close>

lemma sends_push:
  assumes s: "c < nclients s" and s1: "server_inv s1" "s1 = s\<lparr>objs := os, fresh := n\<rparr>"
    and ob: "objs s1 i = Some ob" "int (refs s1 i) < refcount ob" "is_str ob"
    and others: "\<And>j. j \<noteq> i \<Longrightarrow> objs s1 j = objs s j"
    and old: "objs s i = None \<and> refs s i = 0 \<or> objs s i = Some (ob\<lparr>refcount := refcount ob - 1\<rparr>)"
  shows "sends c (content ob) s (Some (push_reply c i s1))"
proof -
  let ?s = "push_reply c i s1"
  have c1: "clients s1 = clients s" "nclients s1 = nclients s" using s1(2) by auto
  have inv: "server_inv ?s"
    unfolding push_reply_def
  proof (rule inv_update_client [OF s1(1), where i = "Some i"])
    fix j show "client_refs ((clients s1 c)\<lparr>c_reply := c_reply (clients s1 c) @ [i]\<rparr>) j
        \<le> client_refs (clients s1 c) j + (if Some i = Some j then 1 else 0)"
      using client_refs_reply [of "c_reply (clients s1 c) @ [i]" "clients s1 c" j] by auto
  qed (use s c1 ob in auto)
  have v: "vals s1 j = vals s j" if "j \<in> set (c_reply (clients s c))" for j
  proof (cases "j = i")
    case True
    then have "0 < refs s i" using that s reply_refs_pos by blast
    then show ?thesis using old ob(1) True by (auto simp: vals_def)
  qed (use others in \<open>simp add: vals_def\<close>)
  have "out s1 c = out s c" by (rule out_update_obj [OF v]) (simp_all add: c1)
  then have out: "out ?s c = out s c @ content ob"
    using ob(1,3) by (simp add: out_def push_reply_def) (simp add: update_client_def str_at_def vals_def value_of_def)
  have rc: "rcount ?s c j = rcount s c j + (if j = i then 1 else 0)" for j
    by (simp add: rcount_def push_reply_def update_client_def c1)
  have obs: "objs ?s = objs s1" by (simp add: push_reply_def update_client_def)
  have "kept c s ?s"
    unfolding kept_def
  proof (intro allI impI)
    fix j ob' assume h: "held s c j ob'"
    show "\<exists>r. objs ?s j = Some (ob'\<lparr>refcount := r\<rparr>) \<and> r - int (rcount ?s c j) = refcount ob' - int (rcount s c j)"
    proof (cases "j = i")
      case True
      then have "ob' = ob\<lparr>refcount := refcount ob - 1\<rparr>" using h old by (auto simp: held_def)
      then have "objs ?s j = Some (ob'\<lparr>refcount := refcount ob\<rparr>)" using True ob(1) obs by simp
      then show ?thesis using True rc \<open>ob' = ob\<lparr>refcount := refcount ob - 1\<rparr>\<close> by (intro exI [of _ "refcount ob"]) simp
    next
      case False
      then have "objs ?s j = Some (ob'\<lparr>refcount := refcount ob'\<rparr>)" using h others obs by (simp add: held_def)
      then show ?thesis using False rc by (intro exI [of _ "refcount ob'"]) simp
    qed
  qed
  moreover have "io_only c s ?s"
  proof -
    have "?s = s\<lparr>objs := os, fresh := n, clients := (clients s)(c := (clients s c)
        \<lparr>c_buf := c_buf (clients s c), c_reply := c_reply (clients s c) @ [i]\<rparr>)\<rparr>"
      by (simp add: push_reply_def update_client_def s1(2))
    then show ?thesis unfolding io_only_def by blast
  qed
  ultimately show ?thesis using inv out by (auto simp: sends_def)
qed

lemma sends_push_incr:
  assumes "server_inv s" "c < nclients s" "objs s i = Some ob" "is_str ob"
  shows "sends c (content ob) s (incrRefCount i s \<bind> (\<lambda>s1. Some (push_reply c i s1)))"
proof -
  let ?ob = "ob\<lparr>refcount := refcount ob + 1\<rparr>"
  have r: "int (refs s i) < refcount ?ob" using live(2) [OF assms(1,3)] by simp
  have "sends c (content ?ob) s (Some (push_reply c i (update_obj i (Some ?ob) s)))"
    by (rule sends_push [where os = "(objs s)(i := Some ?ob)" and n = "fresh s"])
      (use assms inv_incr(2) [OF assms(1,3)] r in \<open>auto simp: update_obj_def\<close>)
  then show ?thesis by (simp add: inv_incr(1) [OF assms(1,3)])
qed

lemma sends_push_new:
  assumes "server_inv s" "c < nclients s" "obj_ok ob" "refcount ob = 1" "is_str ob"
  shows "sends c (content ob) s (Some (push_reply c (Dyn (fresh s)) ((update_obj (Dyn (fresh s)) (Some ob) s)\<lparr>fresh := fresh s + 1\<rparr>)))"
  by (rule sends_push [where os = "(objs s)(Dyn (fresh s) := Some ob)" and n = "fresh s + 1"])
    (use assms inv_new [OF assms(1,3)] fresh_refs [OF assms(1)] server_invD(1) [OF assms(1)] in \<open>auto simp: update_obj_def\<close>)

lemma reply_last_count:
  assumes "l \<noteq> []"
  shows "count_list l i = count_list (butlast l) i + (if last l = i then 1 else 0)"
proof -
  have "count_list l i = count_list (butlast l @ [last l]) i" using assms by simp
  then show ?thesis by (simp only: count_list_append) simp
qed

lemma concat_butlast_last:
  assumes "l \<noteq> []"
  shows "concat (map f l) = concat (map f (butlast l)) @ f (last l)"
proof -
  have "concat (map f l) = concat (map f (butlast l @ [last l]))" using assms by simp
  then show ?thesis by (simp only: map_append concat_append) simp
qed

lemma raw_is_str: "obj_ok ob \<Longrightarrow> ob_enc ob = REDIS_ENCODING_RAW \<Longrightarrow> is_str ob"
  by (auto simp: obj_ok_def sdsEncodedObject_def split: if_splits)

lemma str_at_Some: "objs s i = Some ob \<Longrightarrow> is_str ob \<Longrightarrow> str_at s i = content ob"
  by (simp add: str_at_def vals_def value_of_def)

lemma sends_glue_unshared:
  assumes s: "server_inv s" "c < nclients s" and l: "c_reply (clients s c) \<noteq> []" "last (c_reply (clients s c)) = t"
    and ob: "objs s t = Some ob" "ob_enc ob = REDIS_ENCODING_RAW" "ob_ptr ob = Sds tb" "refcount ob \<le> 1"
  shows "sends c b s (Some (update_obj t (Some (ob\<lparr>ob_ptr := Sds (tb @ b)\<rparr>)) s))"
proof -
  let ?l = "c_reply (clients s c)" and ?ob = "ob\<lparr>ob_ptr := Sds (tb @ b)\<rparr>"
  let ?s = "update_obj t (Some ?ob) s"
  have str: "is_str ob" using live(1) [OF s(1) ob(1)] ob(2) by (rule raw_is_str)
  have one: "refs s t \<le> 1" "refcount ob = 1" using live [OF s(1) ob(1)] ob(4) by auto
  have cnt: "count_list ?l t = count_list (butlast ?l) t + 1" using reply_last_count [OF l(1), of t] l(2) by simp
  have "shared_refs t + client_refs (clients s c) t \<le> 1" using shared_client_refs_le [OF s(2), of t] one(1) by linarith
  then have z: "count_list (butlast ?l) t = 0" "shared_refs t = 0" using cnt by (auto simp: client_refs_def)
  then have nt: "t \<notin> set (butlast ?l)" by (simp add: count_list_0_iff)
  have "obj_ok ?ob" using live(1) [OF s(1) ob(1)] ob(2) str by (simp add: obj_ok_def sdsEncodedObject_def)
  then have inv: "server_inv ?s" using one z(2) by (intro inv_update_obj [OF s(1) ob(1)]) auto
  have same: "clients ?s = clients s" "objs ?s = (objs s)(t := Some ?ob)" by (simp_all add: update_obj_def)
  have "map (str_at ?s) (butlast ?l) = map (str_at s) (butlast ?l)"
    using nt by (auto simp: str_at_def vals_def same)
  moreover have "str_at ?s t = str_at s t @ b"
    using ob str by (simp add: str_at_def vals_def same value_of_def content_def)
  ultimately have "out ?s c = out s c @ b"
    using l by (simp add: out_def same concat_butlast_last del: map_eq_conv)
  moreover have "kept c s ?s"
    unfolding kept_def
  proof (intro allI impI)
    fix i ob' assume h: "held s c i ob'"
    have "i \<noteq> t" using h ob(1) one cnt by (auto simp: held_def rcount_def)
    then have "objs ?s i = Some (ob'\<lparr>refcount := refcount ob'\<rparr>)" using h by (simp add: held_def same)
    then show "\<exists>r. objs ?s i = Some (ob'\<lparr>refcount := r\<rparr>) \<and> r - int (rcount ?s c i) = refcount ob' - int (rcount s c i)"
      by (intro exI [of _ "refcount ob'"]) (simp add: rcount_def same)
  qed
  moreover have "io_only c s ?s"
  proof -
    have "?s = s\<lparr>objs := (objs s)(t := Some ?ob), fresh := fresh s,
        clients := (clients s)(c := (clients s c)\<lparr>c_buf := c_buf (clients s c), c_reply := ?l\<rparr>)\<rparr>"
      by (simp add: update_obj_def)
    then show ?thesis unfolding io_only_def by blast
  qed
  ultimately show ?thesis using inv by (auto simp: sends_def)
qed

text \<open>When the last object is shared, a copy takes its place in the list.\<close>

lemma sends_glue_shared:
  assumes s: "server_inv s" "c < nclients s" and l: "c_reply (clients s c) \<noteq> []" "last (c_reply (clients s c)) = t"
    and ob: "objs s t = Some ob" "ob_enc ob = REDIS_ENCODING_RAW" "ob_ptr ob = Sds tb" "1 < refcount ob"
    and n: "n = Dyn (fresh s)"
    and nob: "nob = \<lparr>ob_type = REDIS_STRING, ob_enc = REDIS_ENCODING_RAW, refcount = 1, ob_ptr = Sds (tb @ b)\<rparr>"
    and s': "s' = s\<lparr>fresh := fresh s + 1,
      clients := (clients s)(c := (clients s c)\<lparr>c_reply := butlast (c_reply (clients s c)) @ [n]\<rparr>),
      objs := (objs s)(t := Some (ob\<lparr>refcount := refcount ob - 1\<rparr>), n := Some nob)\<rparr>"
  shows "sends c b s (Some s')"
proof -
  let ?l = "c_reply (clients s c)"
  let ?f = "\<lambda>cl. cl\<lparr>c_reply := butlast (c_reply cl) @ [n]\<rparr>"
  have str: "is_str ob" using live(1) [OF s(1) ob(1)] ob(2) by (rule raw_is_str)
  have nt: "n \<noteq> t" and nl: "n \<notin> set ?l"
    using n server_invD(1) [OF s(1)] ob(1) reply_refs_pos [OF s(2), of n] fresh_refs [OF s(1)] by auto
  define sA where "sA = (update_obj n (Some nob) s)\<lparr>fresh := fresh s + 1\<rparr>"
  have iA: "server_inv sA" unfolding sA_def n
    by (rule inv_new [OF s(1)]) (auto simp: nob obj_ok_def sdsEncodedObject_def)
  have A: "clients sA = clients s" "nclients sA = nclients s" "objs sA n = Some nob" "refs sA n = 0" "objs sA t = Some ob"
    using nt fresh_refs [OF s(1)] ob(1) by (auto simp: sA_def update_obj_def n)
  have cnt: "count_list ?l j = count_list (butlast ?l) j + (if t = j then 1 else 0)" for j
    using reply_last_count [OF l(1), of j] l(2) by simp
  have cr: "client_refs (?f (clients sA c)) j + (if t = j then 1 else 0) = client_refs (clients sA c) j + (if n = j then 1 else 0)" for j
    using client_refs_reply [of "butlast ?l @ [n]" "clients s c" j] cnt [of j] by (auto simp: A(1))
  define sB where "sB = update_client c ?f sA"
  have iB: "server_inv sB" unfolding sB_def
  proof (rule inv_update_client [OF iA, where i = "Some n"])
    fix j show "client_refs (?f (clients sA c)) j \<le> client_refs (clients sA c) j + (if Some n = Some j then 1 else 0)"
      using cr [of j] by (auto split: if_splits)
  qed (use A s(2) nob in auto)
  have B: "objs sB t = Some ob" "refs sB t + 1 = refs sA t"
    using A(5) refs_update_client [of c sA ?f t] cr [of t] A(2) s(2) nt by (auto simp: sB_def update_client_def)
  have "refs sA t = refs s t" by (simp add: sA_def)
  then have "int (refs sB t) < refcount ob" using B(2) live(2) [OF s(1) ob(1)] by linarith
  then have "server_inv (update_obj t (Some (ob\<lparr>refcount := refcount ob - 1\<rparr>)) sB)"
    using inv_decr [OF iB B(1)] ob(4) by auto
  moreover have "update_obj t (Some (ob\<lparr>refcount := refcount ob - 1\<rparr>)) sB = s'"
    using nt by (simp add: s' sB_def sA_def update_client_def update_obj_def fun_upd_twist)
  ultimately have inv: "server_inv s'" by simp
  have v: "vals s' j = vals s j" if "j \<in> set ?l" for j
    using that nl ob(1) by (auto simp: vals_def s')
  have "map (str_at s') (butlast ?l) = map (str_at s) (butlast ?l)"
    using v by (auto simp: str_at_def dest: in_set_butlastD)
  moreover have "str_at s' n = str_at s t @ b"
    using ob str by (simp add: str_at_def vals_def s' nob value_of_def content_def)
  ultimately have out: "out s' c = out s c @ b"
    using l by (simp add: out_def s' concat_butlast_last del: map_eq_conv)
  have "kept c s s'"
    unfolding kept_def
  proof (intro allI impI)
    fix i ob' assume h: "held s c i ob'"
    have "i \<noteq> n" using h n server_invD(1) [OF s(1)] by (auto simp: held_def)
    moreover have "ob'\<lparr>refcount := refcount ob'\<rparr> = ob'" by simp
    moreover have "rcount s' c i + (if t = i then 1 else 0) = rcount s c i"
      using cnt [of i] \<open>i \<noteq> n\<close> by (simp add: rcount_def s')
    ultimately show "\<exists>r. objs s' i = Some (ob'\<lparr>refcount := r\<rparr>) \<and> r - int (rcount s' c i) = refcount ob' - int (rcount s c i)"
      using h ob(1)
      by (intro exI [of _ "if i = t then refcount ob' - 1 else refcount ob'"]) (auto simp: held_def s' split: if_splits)
  qed
  moreover have "io_only c s s'"
  proof -
    have "s' = s\<lparr>objs := objs s', fresh := fresh s + 1,
        clients := (clients s)(c := (clients s c)\<lparr>c_buf := c_buf (clients s c), c_reply := butlast ?l @ [n]\<rparr>)\<rparr>"
      by (simp add: s')
    then show ?thesis unfolding io_only_def by blast
  qed
  ultimately show ?thesis using inv out by (auto simp: sends_def)
qed

lemma raw_tail:
  assumes "server_inv s" "objs s t = Some ob" "ob_enc ob = REDIS_ENCODING_RAW"
  obtains tb where "ob_ptr ob = Sds tb"
proof -
  have "is_str ob" using live(1) [OF assms(1,2)] assms(3) by (rule raw_is_str)
  then show ?thesis using live(1) [OF assms(1,2)] assms(3) that by (auto simp: obj_ok_def)
qed

lemma sends_glue:
  assumes s: "server_inv s" "c < nclients s" and l: "c_reply (clients s c) \<noteq> []" "last (c_reply (clients s c)) = t"
    and ob: "objs s t = Some ob" "ob_enc ob = REDIS_ENCODING_RAW"
    and src: "\<And>i. src = Some i \<Longrightarrow> \<exists>ob. held s c i ob"
  shows "sends c b s (glue c src b s)"
proof -
  obtain tb where tb: "ob_ptr ob = Sds tb" using raw_tail [OF s(1) ob] .
  have str: "is_str ob" using live(1) [OF s(1) ob(1)] ob(2) by (rule raw_is_str)
  show ?thesis
  proof (cases "refcount ob > 1")
    case True
    have nt: "Dyn (fresh s) \<noteq> t" using server_invD(1) [OF s(1)] ob(1) by auto
    have "src \<noteq> Some (Dyn (fresh s))" using src server_invD(1) [OF s(1)] by (auto simp: held_def)
    then show ?thesis
      using sends_glue_shared [OF s l ob tb True refl refl refl, of b] True l ob tb str nt
      by (simp add: glue_def dupLastObjectIfNeeded_def dupStringObject_def createRawStringObject_def createObject_def
          obj_sds_def decrRefCount_def update_obj_def update_client_def sds_at_def set_ptr_def fun_upd_twist Let_def)
  next
    case False
    have "int (rcount s c t) \<ge> 1"
      using reply_last_count [OF l(1), of t] l(2) by (simp add: rcount_def)
    then have "src \<noteq> Some t" using src ob(1) False by (force simp: held_def)
    then show ?thesis
      using sends_glue_unshared [OF s l ob tb, of b] False l ob tb
      by (simp add: glue_def dupLastObjectIfNeeded_def sds_at_def obj_sds_def set_ptr_def Let_def)
  qed
qed

lemma can_glue_cases:
  assumes s: "server_inv s" "c < nclients s" and l: "c_reply (clients s c) \<noteq> []"
  obtains "can_glue c n s = Some False"
  | ob where "can_glue c n s = Some True" "objs s (last (c_reply (clients s c))) = Some ob" "ob_enc ob = REDIS_ENCODING_RAW"
proof -
  let ?t = "last (c_reply (clients s c))"
  have "0 < refs s ?t" using reply_refs_pos [OF s(2), of ?t] l by simp
  then obtain ob where ob: "objs s ?t = Some ob" using referenced [OF s(1)] by blast
  show ?thesis
  proof (cases "ob_enc ob = REDIS_ENCODING_RAW")
    case True
    then obtain tb where "ob_ptr ob = Sds tb" using raw_tail [OF s(1) ob] by blast
    then show ?thesis using that ob True by (cases "length tb + n \<le> REDIS_REPLY_CHUNK_BYTES") (auto simp: can_glue_def obj_sds_def)
  next
    case False
    then show ?thesis using that(1) ob by (simp add: can_glue_def)
  qed
qed

lemma sends_addReplyObjectToList:
  assumes s: "server_inv s" "c < nclients s" "accepts (clients s c)" and h: "held s c i ob" and b: "ob_ptr ob = Sds b" "is_str ob"
  shows "sends c b s (addReplyObjectToList c i s)"
proof -
  have ob: "objs s i = Some ob" using h by (simp add: held_def)
  have cb: "content ob = b" using b by (simp add: content_def)
  have push: "sends c b s (incrRefCount i s \<bind> (\<lambda>s1. Some (push_reply c i s1)))"
    using sends_push_incr [OF s(1,2) ob b(2)] by (simp add: cb)
  note d = addReplyObjectToList_def acceptsD(2) [OF s(3)] sds_at_def ob obj_sds_def b(1) Let_def
  show ?thesis
  proof (cases "c_reply (clients s c) = []")
    case True
    then show ?thesis using push by (simp add: d)
  next
    case False
    show ?thesis
    proof (rule can_glue_cases [OF s(1,2) False, of "length b"])
      assume "can_glue c (length b) s = Some False"
      then show ?thesis using push False by (simp add: d)
    next
      fix tob assume t: "can_glue c (length b) s = Some True" "objs s (last (c_reply (clients s c))) = Some tob"
        "ob_enc tob = REDIS_ENCODING_RAW"
      show ?thesis using sends_glue [OF s(1,2) False refl t(2,3), of "Some i" b] h t(1) False by (auto simp: d)
    qed
  qed
qed

lemma sends_new_string:
  assumes "server_inv s" "c < nclients s"
  shows "sends c b s (let (i, s1) = createObject REDIS_STRING (Sds b) s in Some (push_reply c i s1))"
    "sends c b s (let (i, s1) = createStringObject b s in Some (push_reply c i s1))"
proof -
  have *: "sends c b s (Some (push_reply c (Dyn (fresh s)) ((update_obj (Dyn (fresh s))
      (Some \<lparr>ob_type = REDIS_STRING, ob_enc = e, refcount = 1, ob_ptr = Sds b\<rparr>) s)\<lparr>fresh := fresh s + 1\<rparr>)))"
    if "e = REDIS_ENCODING_RAW \<or> e = REDIS_ENCODING_EMBSTR" for e
    using that sends_push_new [OF assms, of "\<lparr>ob_type = REDIS_STRING, ob_enc = e, refcount = 1, ob_ptr = Sds b\<rparr>"]
    by (simp add: obj_ok_def sdsEncodedObject_def content_def)
  show "sends c b s (let (i, s1) = createObject REDIS_STRING (Sds b) s in Some (push_reply c i s1))"
    using * by (simp add: createObject_def Let_def)
  show "sends c b s (let (i, s1) = createStringObject b s in Some (push_reply c i s1))"
    using * by (simp add: createStringObject_def createEmbeddedStringObject_def createRawStringObject_def createObject_def Let_def)
qed

lemma sends_to_list:
  assumes s: "server_inv s" "c < nclients s" "accepts (clients s c)"
  shows "sends c b s (addReplySdsToList c b s)" "sends c b s (addReplyStringToList c b s)"
proof -
  have "sends c b s (addReplySdsToList c b s) \<and> sends c b s (addReplyStringToList c b s)"
  proof (cases "c_reply (clients s c) = []")
    case True
    then show ?thesis
      using sends_new_string [OF s(1,2), of b] acceptsD(2) [OF s(3)]
      by (simp add: addReplySdsToList_def addReplyStringToList_def)
  next
    case False
    show ?thesis
    proof (rule can_glue_cases [OF s(1,2) False, of "length b"])
      assume "can_glue c (length b) s = Some False"
      then show ?thesis
        using sends_new_string [OF s(1,2), of b] acceptsD(2) [OF s(3)] False
        by (simp add: addReplySdsToList_def addReplyStringToList_def)
    next
      fix tob assume t: "can_glue c (length b) s = Some True" "objs s (last (c_reply (clients s c))) = Some tob"
        "ob_enc tob = REDIS_ENCODING_RAW"
      show ?thesis
        using sends_glue [OF s(1,2) False refl t(2,3), of None b] t(1) acceptsD(2) [OF s(3)] False
        by (simp add: addReplySdsToList_def addReplyStringToList_def)
    qed
  qed
  then show "sends c b s (addReplySdsToList c b s)" "sends c b s (addReplyStringToList c b s)" by auto
qed

text \<open>The static buffer either takes the reply or leaves the state alone.\<close>

lemma addReplyToBuffer_cases:
  assumes "server_inv s" "c < nclients s" "accepts (clients s c)"
  obtains "addReplyToBuffer c b s = (True, put c b s)" "sends c b s (Some (put c b s))"
  | "addReplyToBuffer c b s = (False, s)" "\<not> fits c b s"
proof (cases "c_reply (clients s c) = [] \<and> length b \<le> REDIS_REPLY_CHUNK_BYTES - length (c_buf (clients s c))")
  case True
  then show ?thesis
    using that(1) sends_buffer [OF assms(1,2)] acceptsD(2) [OF assms(3)] by (simp add: addReplyToBuffer_def put_def Let_def)
next
  case False
  then have "\<not> fits c b s" by (auto simp: fits_def)
  then show ?thesis using False that(2) acceptsD(2) [OF assms(3)] by (auto simp: addReplyToBuffer_def Let_def)
qed

lemma emits_addReplyString:
  assumes s: "server_inv s" "c < nclients s" "accepts (clients s c)"
  shows "emits c b s (addReplyString c b s)" "emits c b s (addReplySds c b s)"
  by (rule addReplyToBuffer_cases [OF s, of b];
      simp add: addReplyString_def addReplySds_def acceptsD(1) [OF s(3)] sends_to_list [OF s] emits_def)+

subsection \<open>Objects that are held\<close>

lemma held_refs:
  assumes "server_inv s" "rcount s c i < refs s i"
  shows "\<exists>ob. held s c i ob"
proof -
  obtain ob where "objs s i = Some ob" using referenced [OF assms(1), of i] assms(2) by auto
  then show ?thesis using live(2) [OF assms(1)] assms(2) by (fastforce simp: held_def)
qed

lemma rcount_le: "rcount s c i \<le> client_refs (clients s c) i"
  by (simp add: rcount_def client_refs_def)

lemma held_shared:
  assumes "server_inv s" "c < nclients s" "createSharedObjects x = Some ob0"
  shows "\<exists>r. held s c (Shared x) (ob0\<lparr>refcount := r\<rparr>)"
proof -
  have "rcount s c (Shared x) < refs s (Shared x)"
    using shared_client_refs_le [OF assms(2), of "Shared x"] rcount_le [of s c "Shared x"] assms(3) by (simp add: shared_refs_def)
  then obtain ob where "held s c (Shared x) ob" using held_refs [OF assms(1)] by blast
  moreover obtain r where "objs s (Shared x) = Some (ob0\<lparr>refcount := r\<rparr>)" using shared_obj [OF assms(1,3)] by blast
  ultimately show ?thesis by (metis held_def option.inject)
qed

lemma held_dict:
  assumes "server_inv s" "c < nclients s" "d < dbnum s" "db_dict (dbs s d) k = Some i"
  shows "\<exists>ob. held s c i ob"
proof (rule held_refs [OF assms(1)])
  have "0 < dict_refs (db_dict (dbs s d)) i" using server_invD(4) [OF assms(1,3)] assms(4) by (rule dict_refs_pos)
  then show "rcount s c i < refs s i"
    using client_dict_refs_le [OF assms(2,3), of i] rcount_le [of s c i] by linarith
qed

lemma held_argv:
  assumes "server_inv s" "c < nclients s" "i \<in> set (c_argv (clients s c))"
  shows "\<exists>ob. held s c i ob"
proof (rule held_refs [OF assms(1)])
  have "0 < count_list (c_argv (clients s c)) i" using assms(3) count_list_0_iff [of "c_argv (clients s c)" i] by simp
  then show "rcount s c i < refs s i"
    using client_refs_le [OF assms(2), of i] by (simp add: client_refs_def rcount_def)
qed

lemma held_other_reply:
  assumes "server_inv s" "c < nclients s" "c' < nclients s" "c' \<noteq> c" "i \<in> set (c_reply (clients s c'))"
  shows "\<exists>ob. held s c i ob"
proof (rule held_refs [OF assms(1)])
  have "0 < client_refs (clients s c') i" using assms(5) count_list_0_iff [of "c_reply (clients s c')" i] by (simp add: client_refs_def)
  then show "rcount s c i < refs s i"
    using two_clients_refs_le [OF assms(2,3), of i] assms(4) rcount_le [of s c i] by linarith
qed

lemma kept_held: "kept c s s' \<Longrightarrow> held s c i ob \<Longrightarrow> \<exists>r. held s' c i (ob\<lparr>refcount := r\<rparr>)"
  unfolding kept_def held_def by fastforce

lemma kept_vals: "kept c s s' \<Longrightarrow> held s c i ob \<Longrightarrow> vals s' i = vals s i"
  unfolding kept_def by (force simp: held_def vals_def)

lemma io_only_refs:
  assumes "io_only c s s'" "c < nclients s"
  shows "refs s' i + rcount s c i = refs s i + rcount s' c i"
proof -
  obtain os n b l where s': "s' = s\<lparr>objs := os, fresh := n, clients := (clients s)(c := (clients s c)\<lparr>c_buf := b, c_reply := l\<rparr>)\<rparr>"
    using assms(1) unfolding io_only_def by blast
  have "refs s' i = refs (update_client c (\<lambda>cl. cl\<lparr>c_buf := b, c_reply := l\<rparr>) s) i"
    by (simp add: s' refs_def update_client_def pubsub_refs_def)
  moreover have "client_refs ((clients s c)\<lparr>c_buf := b, c_reply := l\<rparr>) i + rcount s c i = client_refs (clients s c) i + rcount s' c i"
    by (simp add: client_refs_def rcount_def s')
  ultimately show ?thesis
    using refs_update_client [OF assms(2), of "\<lambda>cl. cl\<lparr>c_buf := b, c_reply := l\<rparr>" i] by linarith
qed

text \<open>Nobody but the client sees a reply.\<close>

lemma emits_isolated:
  assumes "server_inv s" "c < nclients s" "kept c s s'" "io_only c s s'"
  shows "c' < nclients s \<Longrightarrow> c' \<noteq> c \<Longrightarrow> out s' c' = out s c'" "d < dbnum s \<Longrightarrow> keyspace s' d = keyspace s d"
proof -
  assume c': "c' < nclients s" "c' \<noteq> c"
  show "out s' c' = out s c'"
  proof (rule out_update_obj)
    fix i assume "i \<in> set (c_reply (clients s c'))"
    then show "vals s' i = vals s i" using held_other_reply [OF assms(1,2) c'] kept_vals [OF assms(3)] by blast
  qed (simp_all add: io_only_fields [OF assms(4)] c')
next
  assume d: "d < dbnum s"
  show "keyspace s' d = keyspace s d"
  proof
    fix k show "keyspace s' d k = keyspace s d k"
      using held_dict [OF assms(1,2) d, of k] kept_vals [OF assms(3)]
      by (cases "db_dict (dbs s d) k") (auto simp: keyspace_def io_only_fields [OF assms(4)])
  qed
qed

subsection \<open>The reply functions\<close>

text \<open>An object made for one reply and released after it.\<close>

lemma sends_temp:
  assumes s: "server_inv s" "c < nclients s" and ob: "obj_ok ob" "refcount ob = 1"
    and d: "d = Dyn (fresh s)" and s2: "s2 = (update_obj d (Some ob) s)\<lparr>fresh := fresh s + 1\<rparr>" and r: "sends c b s2 r"
  shows "sends c b s (r \<bind> decrRefCount d)"
proof -
  obtain s4 where s4: "r = Some s4" "server_inv s4" "out s4 c = out s2 c @ b" "kept c s2 s4" "io_only c s2 s4"
    using r by (auto simp: sends_def)
  have same: "clients s2 = clients s" "nclients s2 = nclients s" "refs s2 = refs s" "objs s2 = (objs s)(d := Some ob)"
    by (simp_all add: s2 update_obj_def)
  have none: "objs s d = None" and r0: "refs s d = 0" using server_invD(1) [OF s(1)] fresh_refs [OF s(1)] d by auto
  have rc0: "rcount s2 c d = 0" using client_refs_le [OF s(2), of d] r0 by (simp add: rcount_def client_refs_def same)
  have "held s2 c d ob" using ob(2) rc0 by (simp add: held_def same)
  then obtain k where k: "objs s4 d = Some (ob\<lparr>refcount := k\<rparr>)" "k - int (rcount s4 c d) = 1"
    using s4(4) rc0 ob(2) unfolding kept_def by fastforce
  have "refs s4 d = rcount s4 c d" using io_only_refs [OF s4(5), of d] s(2) r0 rc0 by (simp add: same)
  then obtain v where v: "decrRefCount d s4 = Some (update_obj d v s4)" "server_inv (update_obj d v s4)"
      "v = (if k = 1 then None else Some (ob\<lparr>refcount := k - 1\<rparr>))"
    using inv_decr [OF s4(2) k(1)] k(2) by (auto cong: if_cong)
  let ?s = "update_obj d v s4"
  have same5: "clients ?s = clients s4" "objs ?s = (objs s4)(d := v)" by (simp_all add: update_obj_def)
  have "out ?s c = out s4 c"
  proof (rule out_update_obj)
    fix i assume "i \<in> set (c_reply (clients s4 c))"
    then have "i = d \<Longrightarrow> rcount s4 c d \<noteq> 0" by (simp add: rcount_def count_list_0_iff)
    then show "vals ?s i = vals s4 i" using k v(3) by (auto simp: vals_def update_obj_def)
  qed (simp_all add: same5)
  moreover have "out s2 c = out s c"
  proof (rule out_update_obj)
    fix i assume "i \<in> set (c_reply (clients s c))"
    then have "i \<noteq> d" using reply_refs_pos [OF s(2)] r0 by fastforce
    then show "vals s2 i = vals s i" by (simp add: vals_def same)
  qed (simp_all add: same)
  ultimately have out: "out ?s c = out s c @ b" using s4(3) by simp
  have "kept c s ?s"
    unfolding kept_def
  proof (intro allI impI)
    fix i ob' assume h: "held s c i ob'"
    then have nd: "i \<noteq> d" using none by (auto simp: held_def)
    then have "held s2 c i ob'" using h by (simp add: held_def same rcount_def)
    then obtain q where "objs s4 i = Some (ob'\<lparr>refcount := q\<rparr>)" "q - int (rcount s4 c i) = refcount ob' - int (rcount s2 c i)"
      using s4(4) unfolding kept_def by blast
    then show "\<exists>q. objs ?s i = Some (ob'\<lparr>refcount := q\<rparr>) \<and> q - int (rcount ?s c i) = refcount ob' - int (rcount s c i)"
      using nd by (intro exI [of _ q]) (simp add: same same5 rcount_def)
  qed
  moreover have "io_only c s ?s"
  proof -
    obtain os n bf l where "s4 = s2\<lparr>objs := os, fresh := n, clients := (clients s2)(c := (clients s2 c)\<lparr>c_buf := bf, c_reply := l\<rparr>)\<rparr>"
      using s4(5) unfolding io_only_def by blast
    then have "?s = s\<lparr>objs := os(d := v), fresh := n, clients := (clients s)(c := (clients s c)\<lparr>c_buf := bf, c_reply := l\<rparr>)\<rparr>"
      by (simp add: update_obj_def s2)
    then show ?thesis unfolding io_only_def by blast
  qed
  ultimately show ?thesis using v(1,2) out s4(1) by (auto simp: sends_def)
qed

lemma ll2string_dec: "in_ll n \<Longrightarrow> 21 \<le> len \<Longrightarrow> ll2string len n = dec_int n"
  using dec_int_length [of n] by (simp add: ll2string_def ll2string_buf_dec Let_def)

lemma emits_addReply_int:
  assumes s: "server_inv s" "c < nclients s" "accepts (clients s c)"
    and ob: "objs s i = Some ob" "is_str ob" "ob_enc ob = REDIS_ENCODING_INT" "ob_ptr ob = Long n" "in_ll n"
  shows "emits c (dec_int n) s (addReply c i s)"
proof -
  let ?t = "dec_int n"
  have ll: "ll2string 32 n = ?t" using ob(5) by (intro ll2string_dec) auto
  define e where "e = (if length ?t \<le> REDIS_ENCODING_EMBSTR_SIZE_LIMIT then REDIS_ENCODING_EMBSTR else REDIS_ENCODING_RAW)"
  define dob where "dob = \<lparr>ob_type = REDIS_STRING, ob_enc = e, refcount = 1, ob_ptr = Sds ?t\<rparr>"
  let ?d = "Dyn (fresh s)"
  define s2 where "s2 = (update_obj ?d (Some dob) s)\<lparr>fresh := fresh s + 1\<rparr>"
  have ok: "obj_ok dob" by (simp add: dob_def obj_ok_def sdsEncodedObject_def e_def)
  have inv2: "server_inv s2" unfolding s2_def by (rule inv_new [OF s(1) ok]) (simp add: dob_def)
  have c2: "clients s2 = clients s" "nclients s2 = nclients s" by (simp_all add: s2_def update_obj_def)
  have rc0: "rcount s2 c ?d = 0"
    using client_refs_le [OF s(2), of ?d] fresh_refs [OF s(1)] by (simp add: rcount_def client_refs_def c2)
  have h2: "held s2 c ?d dob" using rc0 by (simp add: held_def s2_def update_obj_def dob_def)
  have s2': "c < nclients s2" "accepts (clients s2 c)" using s by (simp_all add: c2)
  have dec: "getDecodedObject i s = Some (?d, s2)" "sds_at s2 ?d = Some ?t"
    using ob ll by (auto simp: getDecodedObject_def sdsEncodedObject_def obj_long_def createStringObject_def
        createEmbeddedStringObject_def createRawStringObject_def createObject_def s2_def dob_def e_def Let_def
        sds_at_def update_obj_def obj_sds_def)
  have list: "sends c ?t s2 (addReplyObjectToList c ?d s2)"
    by (rule sends_addReplyObjectToList [OF inv2 s2' h2]) (simp_all add: dob_def)
  have slow: "sends c ?t s (case addReplyToBuffer c ?t s2 of (done2, s3) \<Rightarrow>
      (if done2 then Some s3 else addReplyObjectToList c ?d s3) \<bind> decrRefCount ?d)"
  proof (rule addReplyToBuffer_cases [OF inv2 s2', of ?t])
    assume "addReplyToBuffer c ?t s2 = (True, put c ?t s2)" "sends c ?t s2 (Some (put c ?t s2))"
    then show ?thesis
      using sends_temp [OF s(1,2) ok _ refl s2_def, where r = "Some (put c ?t s2)"] by (simp add: dob_def)
  next
    assume "addReplyToBuffer c ?t s2 = (False, s2)"
    then show ?thesis using sends_temp [OF s(1,2) ok _ refl s2_def list] by (simp add: dob_def)
  qed
  have p: "prepareClientToWrite (clients s c)" by (rule acceptsD(1) [OF s(3)])
  note d = addReply_def p ob sdsEncodedObject_def obj_long_def ll Let_def dec
  show ?thesis
  proof (rule addReplyToBuffer_cases [OF s, of ?t])
    assume "addReplyToBuffer c ?t s = (True, put c ?t s)" "sends c ?t s (Some (put c ?t s))"
    then show ?thesis using slow by (auto simp: d emits_def fits_def)
  next
    assume "addReplyToBuffer c ?t s = (False, s)" "\<not> fits c ?t s"
    then show ?thesis using slow by (simp add: d emits_def)
  qed
qed

lemma emits_addReply:
  assumes s: "server_inv s" "c < nclients s" "accepts (clients s c)" and h: "held s c i ob" "is_str ob"
  shows "emits c (content ob) s (addReply c i s)"
proof -
  have ob: "objs s i = Some ob" using h by (simp add: held_def)
  show ?thesis
  proof (cases "sdsEncodedObject ob")
    case True
    then obtain b where b: "ob_ptr ob = Sds b" using live(1) [OF s(1) ob] h(2) by (auto simp: obj_ok_def sdsEncodedObject_def)
    have cb: "content ob = b" using b by (simp add: content_def)
    note d = addReply_def acceptsD(1) [OF s(3)] ob True obj_sds_def b cb
    show ?thesis
      by (rule addReplyToBuffer_cases [OF s, of b])
        (use sends_addReplyObjectToList [OF s h(1) b h(2)] in \<open>simp_all add: d emits_def\<close>)
  next
    case False
    then obtain n where n: "ob_enc ob = REDIS_ENCODING_INT" "ob_ptr ob = Long n" "in_ll n"
      using live(1) [OF s(1) ob] h(2) by (auto simp: obj_ok_def)
    then show ?thesis using emits_addReply_int [OF s ob h(2) n] by (simp add: content_def)
  qed
qed

text \<open>A client that takes replies; the conditions are kept by every reply.\<close>

definition ready :: "cid \<Rightarrow> redisServer \<Rightarrow> bool" where
  "ready c s \<longleftrightarrow> server_inv s \<and> c < nclients s \<and> accepts (clients s c)"

lemma readyD: "ready c s \<Longrightarrow> server_inv s" "ready c s \<Longrightarrow> c < nclients s" "ready c s \<Longrightarrow> accepts (clients s c)"
  by (simp_all add: ready_def)

lemma ready_io: "ready c s \<Longrightarrow> server_inv s' \<Longrightarrow> io_only c s s' \<Longrightarrow> ready c s'"
  by (simp add: ready_def io_only_accepts io_only_fields)

lemma emits_seq:
  assumes "ready c s" "emits c b1 s r" "\<And>s1. ready c s1 \<Longrightarrow> kept c s s1 \<Longrightarrow> emits c b2 s1 (f s1)" "b = b1 @ b2"
  shows "emits c b s (r \<bind> f)"
  using assms emits_bind ready_io by blast

lemma emits_string: "ready c s \<Longrightarrow> emits c b s (addReplyString c b s)" "ready c s \<Longrightarrow> emits c b s (addReplySds c b s)"
  by (simp_all add: emits_addReplyString ready_def)

lemma emits_obj: "ready c s \<Longrightarrow> held s c i ob \<Longrightarrow> is_str ob \<Longrightarrow> emits c (content ob) s (addReply c i s)"
  by (simp add: emits_addReply ready_def)

lemma emits_shared:
  assumes "ready c s" "createSharedObjects x = Some ob0"
  shows "emits c (shared_string x) s (addReply c (Shared x) s)"
proof -
  obtain r where h: "held s c (Shared x) (ob0\<lparr>refcount := r\<rparr>)"
    using held_shared [OF readyD(1) [OF assms(1)] readyD(2) [OF assms(1)] assms(2)] by blast
  show ?thesis
    using emits_obj [OF assms(1) h] createShared_string [OF assms(2)] by simp
qed

definition client_stream :: "cid \<Rightarrow> redisServer \<Rightarrow> bytes \<Rightarrow> bool" where
  "client_stream c s v \<longleftrightarrow> ready c s \<and> out s c = v"

interpretation client_out: append_buffer "client_stream c" "\<lambda>s t. addReplyString c t s" for c
proof unfold_locales
  fix s v t assume "client_stream c s v"
  then show "\<exists>s'. addReplyString c t s = Some s' \<and> client_stream c s' (v @ t)"
    using emits_sends [OF emits_string(1) [of c s t]] ready_io by (auto simp: client_stream_def sends_def)
qed

lemma emits_three:
  assumes "ready c s"
  shows "emits c (a @ b @ d) s (do { s1 \<leftarrow> addReplyString c a s; s2 \<leftarrow> addReplyString c b s1; addReplyString c d s2 })"
proof (rule emits_seq [OF assms emits_string(1) [OF assms] _ refl])
  fix s1 assume 1: "ready c s1"
  show "emits c (b @ d) s1 (addReplyString c b s1 \<bind> addReplyString c d)"
    by (rule emits_seq [OF 1 emits_string(1) [OF 1] _ refl]) (rule emits_string(1))
qed

lemma emits_error: "ready c s \<Longrightarrow> emits c (''-ERR '' @ c_str t @ CRLF) s (addReplyError c t s)"
  unfolding addReplyError_def addReplyErrorLength_def by (rule emits_three)

lemma emits_status: "ready c s \<Longrightarrow> emits c (''+'' @ c_str t @ CRLF) s (addReplyStatus c t s)"
  unfolding addReplyStatus_def addReplyStatusLength_def by (rule emits_three)

lemma dec_int_nat [simp]: "dec_int (int n) = dec n"
  by (simp add: dec_int_def)

lemma emits_prefix:
  assumes "ready c s" "in_ll n" "p = CHR '':'' \<or> (p = CHR ''$'' \<or> p = CHR ''*'') \<and> 0 \<le> n"
  shows "emits c ([p] @ dec_int n @ CRLF) s (addReplyLongLongWithPrefix c n p s)"
proof -
  have str: "emits c ([p] @ dec_int n @ CRLF) s (addReplyString c ([p] @ ll2string 127 n @ CRLF) s)"
    using emits_string(1) [OF assms(1)] ll2string_dec [OF assms(2), of 127] by simp
  show ?thesis
  proof (cases "p = CHR '':'' \<or> int REDIS_SHARED_BULKHDR_LEN \<le> n")
    case True
    then show ?thesis using str by (auto simp: addReplyLongLongWithPrefix_def)
  next
    case False
    then have n: "0 \<le> n" "nat n < REDIS_SHARED_BULKHDR_LEN" and p: "p = CHR ''$'' \<or> p = CHR ''*''" using assms(3) by auto
    have d: "dec_int n = dec (nat n)" using n by (simp add: dec_int_def)
    show ?thesis
      using p n False d emits_shared [OF assms(1), of "S_mbulkhdr (nat n)"] emits_shared [OF assms(1), of "S_bulkhdr (nat n)"]
      by (auto simp: addReplyLongLongWithPrefix_def)
  qed
qed

lemma emits_longlong:
  assumes "ready c s" "in_ll n"
  shows "emits c ('':'' @ dec_int n @ CRLF) s (addReplyLongLong c n s)"
proof -
  have "dec_int 0 = ''0''" "dec_int 1 = ''1''" by code_simp+
  then show ?thesis
    using emits_prefix [OF assms, of "CHR '':''"] emits_shared [OF assms(1), of S_czero] emits_shared [OF assms(1), of S_cone]
    by (auto simp: addReplyLongLong_def)
qed

lemma emits_multibulklen:
  assumes "ready c s" "in_ll (int n)"
  shows "emits c (''*'' @ dec n @ CRLF) s (addReplyMultiBulkLen c (int n) s)"
  using emits_prefix [OF assms, of "CHR ''*''"] emits_shared [OF assms(1), of "S_mbulkhdr n"]
  by (auto simp: addReplyMultiBulkLen_def)

lemma count_digits_dec: "count_digits n = length (dec n)"
proof (induction n rule: count_digits.induct)
  case (1 n)
  then show ?case by (subst count_digits.simps) (cases "n < 10"; simp add: dec_small dec_step)
qed

definition bulk :: "bytes \<Rightarrow> bytes" where
  "bulk b = ''$'' @ dec (length b) @ CRLF @ b @ CRLF"

text \<open>The one integer whose length \<open>addReplyBulkLen\<close> cannot compute.\<close>

definition bulkable :: "redisObject \<Rightarrow> bool" where
  "bulkable ob \<longleftrightarrow> is_str ob \<and> ob_ptr ob \<noteq> Long LLONG_MIN \<and> length (content ob) < 2 ^ 63"

lemma emits_bulk_len:
  assumes "ready c s" "objs s i = Some ob" "bulkable ob"
  shows "emits c (''$'' @ dec (length (content ob)) @ CRLF) s (addReplyBulkLen c i s)"
proof -
  let ?n = "length (content ob)"
  have "in_ll (int ?n)" using assms(3) by (simp add: bulkable_def in_ll_def)
  then have e: "emits c (''$'' @ dec ?n @ CRLF) s (if ?n < REDIS_SHARED_BULKHDR_LEN then addReply c (Shared (S_bulkhdr ?n)) s
      else addReplyLongLongWithPrefix c (int ?n) (CHR ''$'') s)"
    using emits_prefix [OF assms(1), of "int ?n" "CHR ''$''"] emits_shared [OF assms(1), of "S_bulkhdr ?n"] by auto
  have "(if sdsEncodedObject ob then map_option length (obj_sds ob) else do { n \<leftarrow> obj_long ob; decimal_len n }) = Some ?n"
    using live(1) [OF readyD(1) [OF assms(1)] assms(2)] assms(3)
    by (auto simp: obj_ok_def bulkable_def content_def obj_sds_def obj_long_def decimal_len_def count_digits_dec dec_int_def
        sdsEncodedObject_def)
  then show ?thesis using e assms(2) by (simp add: addReplyBulkLen_def)
qed

lemma emits_bulk:
  assumes "ready c s" "held s c i ob" "bulkable ob"
  shows "emits c (bulk (content ob)) s (addReplyBulk c i s)"
  unfolding addReplyBulk_def bulk_def
proof (rule emits_seq [OF assms(1) emits_bulk_len [OF assms(1) _ assms(3)]])
  show "objs s i = Some ob" using assms(2) by (simp add: held_def)
next
  fix s1 assume 1: "ready c s1" "kept c s s1"
  obtain r where h: "held s1 c i (ob\<lparr>refcount := r\<rparr>)" using kept_held [OF 1(2) assms(2)] by blast
  show "emits c (content ob @ CRLF) s1 (addReply c i s1 \<bind> addReply c (Shared S_crlf))"
  proof (rule emits_seq [OF 1(1) _ _ refl])
    show "emits c (content ob) s1 (addReply c i s1)"
      using emits_obj [OF 1(1) h] assms(3) by (simp add: bulkable_def)
  next
    fix s2 assume 2: "ready c s2"
    show "emits c CRLF s2 (addReply c (Shared S_crlf) s2)" using emits_shared [OF 2, of S_crlf] by simp
  qed
qed simp

lemma emits_bulk_cbuffer:
  assumes "ready c s" "length b < 2 ^ 63"
  shows "emits c (bulk b) s (addReplyBulkCBuffer c b s)"
  unfolding addReplyBulkCBuffer_def bulk_def
proof (rule emits_seq [OF assms(1) emits_prefix [OF assms(1)]])
  fix s1 assume 1: "ready c s1"
  show "emits c (b @ CRLF) s1 (addReplyString c b s1 \<bind> addReply c (Shared S_crlf))"
  proof (rule emits_seq [OF 1 emits_string(1) [OF 1] _ refl])
    fix s2 assume 2: "ready c s2"
    show "emits c CRLF s2 (addReply c (Shared S_crlf) s2)" using emits_shared [OF 2, of S_crlf] by simp
  qed
qed (use assms(2) in \<open>auto simp: in_ll_def\<close>)

subsection \<open>A server without keys\<close>

definition createClient :: "int \<Rightarrow> bool \<Rightarrow> redisClient" where
  "createClient fd ae_ok =
     \<lparr>c_fd = fd, c_db = 0, c_flags = {}, c_repl_idle = True, c_ae_ok = ae_ok, c_argv = [], c_cmd = [], c_buf = [],
      c_reply = [], c_mstate = [], c_watched_keys = [], c_pubsub_channels = [], c_pubsub_patterns = []\<rparr>"

definition idle_client :: "redisClient \<Rightarrow> bool" where
  "idle_client cl \<longleftrightarrow>
     c_argv cl = [] \<and> c_reply cl = [] \<and> c_mstate cl = [] \<and> c_watched_keys cl = [] \<and> c_pubsub_channels cl = [] \<and>
     c_pubsub_patterns cl = []"

definition initServer :: "redisClient list \<Rightarrow> redisServer" where
  "initServer cls =
     \<lparr>objs = (\<lambda>i. case i of Shared x \<Rightarrow> createSharedObjects x | Dyn n \<Rightarrow> None), fresh = 0,
      clients = (\<lambda>c. if c < length cls then cls ! c else createClient (-1) False), nclients = length cls,
      dbs = (\<lambda>d. \<lparr>db_dict = (\<lambda>k. None), db_expires = (\<lambda>k. None), db_watched_keys = (\<lambda>k. None)\<rparr>), dbnum = 16,
      mstime = 0, loading = False, masterhost = False, maxmemory = 0, dirty = 0, stat_expiredkeys = 0,
      stat_keyspace_hits = 0, stat_keyspace_misses = 0, propagated = [], pubsub_channels = [], pubsub_patterns = [],
      notify_keyspace_events = 0, slowlog = [], slowlog_entry_id = 0, slowlog_log_slower_than = 10000, slowlog_max_len = 128\<rparr>"

lemma shared_obj_ok: "createSharedObjects x = Some ob \<Longrightarrow> obj_ok ob \<and> refcount ob = 1"
  by (cases x) (auto simp: obj_ok_def sdsEncodedObject_def in_ll_def REDIS_SHARED_INTEGERS_def
      simp del: shared_string.simps split: if_splits)

lemma initServer_inv:
  assumes "\<forall>cl\<in>set cls. idle_client cl"
  shows "server_inv (initServer cls)"
proof -
  let ?s = "initServer cls"
  have "client_refs (clients ?s c) i = 0" for c i
    using assms by (auto simp: client_refs_def initServer_def createClient_def idle_client_def)
  then have r: "refs ?s i = shared_refs i" for i
    by (simp add: refs_def) (simp add: initServer_def db_refs_def watch_refs_def dict_refs_def slowlog_refs_def pubsub_refs_def)
  have ob: "objs ?s i = (case i of Shared x \<Rightarrow> createSharedObjects x | Dyn n \<Rightarrow> None)" for i by (simp add: initServer_def)
  have "counted ?s i" for i
    by (cases i) (auto simp: counted_def r shared_refs_def ob dest: shared_obj_ok)
  moreover have "shared_ok ?s"
    using shared_obj_ok by (force simp: shared_ok_def ob)
  ultimately show ?thesis by (simp add: server_inv_def) (simp add: initServer_def)
qed

lemma initServer_ready:
  assumes "\<forall>cl\<in>set cls. idle_client cl" "c < length cls" "accepts (cls ! c)"
  shows "ready c (initServer cls)"
  using assms initServer_inv [OF assms(1)] by (simp add: ready_def initServer_def)

definition demo :: redisServer where
  "demo = initServer [createClient 7 True, createClient 8 True]"

lemma demo_ready: "ready 0 demo" "ready (Suc 0) demo"
  unfolding demo_def by (rule initServer_ready; simp add: createClient_def accepts_def idle_client_def)+

text \<open>
  C6. Every reply function appends exactly its bytes to what its client will receive, whether they go to the
  static buffer, are glued to the last object of the output list or are sent by reference, and for an integer
  encoded object too. Nothing else changes: not what other clients will receive, and not the value of any key,
  even when the key's own object is in the output list.
\<close>

theorem replies_extend_the_stream:
  assumes s: "ready c s" and ob: "held s c i ob" "bulkable ob" and n: "in_ll n" and b: "length b < 2 ^ 63"
    and r: "(r, t) \<in> {(addReply c i s, content ob), (addReplyBulk c i s, bulk (content ob)),
      (addReplyString c b s, b), (addReplySds c b s, b), (addReplyBulkCBuffer c b s, bulk b),
      (addReplyError c b s, ''-ERR '' @ c_str b @ CRLF), (addReplyStatus c b s, ''+'' @ c_str b @ CRLF),
      (addReplyLongLong c n s, '':'' @ dec_int n @ CRLF)}"
  shows "\<exists>s'. r = Some s' \<and> server_inv s' \<and> out s' c = out s c @ t \<and>
    (\<forall>c'<nclients s. c' \<noteq> c \<longrightarrow> out s' c' = out s c') \<and> (\<forall>d<dbnum s. keyspace s' d = keyspace s d)"
proof -
  have "is_str ob" using ob(2) by (simp add: bulkable_def)
  then have "emits c t s r"
    using r emits_obj [OF s ob(1)] emits_bulk [OF s ob] emits_string [OF s, of b] emits_bulk_cbuffer [OF s b]
      emits_error [OF s, of b] emits_status [OF s, of b] emits_longlong [OF s n] by blast
  then have "sends c t s r" by (rule emits_sends)
  then show ?thesis using emits_isolated [OF readyD(1) [OF s] readyD(2) [OF s]] by (auto simp: sends_def)
qed

theorem replies_extend_the_stream_witness:
  "\<exists>s'. addReplyBulk 0 (Shared S_pong) demo = Some s' \<and> out s' 0 = bulk (''+PONG'' @ CRLF) \<and> out s' 1 = []"
proof -
  let ?ob = "\<lparr>ob_type = REDIS_STRING, ob_enc = REDIS_ENCODING_RAW, refcount = 1, ob_ptr = Sds (''+PONG'' @ CRLF)\<rparr>"
  have h: "held demo 0 (Shared S_pong) ?ob"
    by (simp add: held_def demo_def initServer_def rcount_def createClient_def embedded_shared_def)
  have b: "bulkable ?ob" by (simp add: bulkable_def content_def)
  have "out demo 0 = []" "out demo 1 = []" "nclients demo = 2"
    by (simp_all add: out_def demo_def initServer_def createClient_def)
  then show ?thesis
    using replies_extend_the_stream [OF demo_ready(1) h b, of 0 "[]" "addReplyBulk 0 (Shared S_pong) demo" "bulk (content ?ob)"]
    by (auto simp: in_ll_def content_def)
qed

end
