(* ===== verification/Pubsub.thy ===== *)
theory Pubsub
  imports ReplyStream Glob
begin

text \<open>
  Publish/subscribe (\<open>src/lib/src/pubsub.c\<close>) and the notifications of keyspace events
  (\<open>src/lib/src/notify.c\<close>). The dicts that are keyed by string objects are association lists from the
  characters of the key to the key object and its value; the order of the list stands for the order in which
  the iterator of the dict visits its entries.
\<close>

definition obj_str :: "redisServer \<Rightarrow> oid \<Rightarrow> bytes option" where
  "obj_str s i = do { ob \<leftarrow> objs s i; (if ob_type ob = REDIS_STRING then string_chars 32 ob else None) }"

definition subscriptions :: "redisClient \<Rightarrow> int" where
  "subscriptions cl = int (length (c_pubsub_channels cl)) + int (length (c_pubsub_patterns cl))"

text \<open>The confirmation that every (un)subscription sends.\<close>

definition notify_subscription :: "cid \<Rightarrow> shared \<Rightarrow> oid \<Rightarrow> redisServer \<Rightarrow> redisServer option" where
  "notify_subscription c kind channel s =
     do {
       s1 \<leftarrow> addReply c (Shared (S_mbulkhdr 3)) s;
       s2 \<leftarrow> addReply c (Shared kind) s1;
       s3 \<leftarrow> addReplyBulk c channel s2;
       addReplyLongLong c (subscriptions (clients s3 c)) s3
     }"

definition notify_nothing :: "cid \<Rightarrow> shared \<Rightarrow> redisServer \<Rightarrow> redisServer option" where
  "notify_nothing c kind s =
     do {
       s1 \<leftarrow> addReply c (Shared (S_mbulkhdr 3)) s;
       s2 \<leftarrow> addReply c (Shared kind) s1;
       s3 \<leftarrow> addReply c (Shared S_nullbulk) s2;
       addReplyLongLong c (subscriptions (clients s3 c)) s3
     }"

definition pubsubSubscribeChannel :: "cid \<Rightarrow> oid \<Rightarrow> redisServer \<Rightarrow> (bool \<times> redisServer) option" where
  "pubsubSubscribeChannel c channel s =
     do {
       k \<leftarrow> obj_str s channel;
       let isnew = (map_of (c_pubsub_channels (clients s c)) k = None);
       s3 \<leftarrow> (if isnew then do {
           let s1 = update_client c (\<lambda>cl. cl\<lparr>c_pubsub_channels := c_pubsub_channels cl @ [(k, channel)]\<rparr>) s;
           s2 \<leftarrow> incrRefCount channel s1;
           (case map_of (pubsub_channels s2) k of
              None \<Rightarrow> incrRefCount channel (s2\<lparr>pubsub_channels := pubsub_channels s2 @ [(k, channel, [c])]\<rparr>)
            | Some e \<Rightarrow> Some (s2\<lparr>pubsub_channels :=
                map (\<lambda>(k', o', cs). if k' = k then (k', o', cs @ [c]) else (k', o', cs)) (pubsub_channels s2)\<rparr>))
         }
         else Some s);
       s4 \<leftarrow> notify_subscription c S_subscribebulk channel s3;
       Some (isnew, s4)
     }"

definition pubsubUnsubscribeChannel :: "cid \<Rightarrow> oid \<Rightarrow> bool \<Rightarrow> redisServer \<Rightarrow> (bool \<times> redisServer) option" where
  "pubsubUnsubscribeChannel c channel notify s =
     do {
       k \<leftarrow> obj_str s channel;
       s0 \<leftarrow> incrRefCount channel s;
       let found = map_of (c_pubsub_channels (clients s0 c)) k;
       s4 \<leftarrow> (case found of
           None \<Rightarrow> Some s0
         | Some keyobj \<Rightarrow>
             do {
               s1 \<leftarrow> decrRefCount keyobj
                 (update_client c (\<lambda>cl. cl\<lparr>c_pubsub_channels := filter (\<lambda>(k', o'). k' \<noteq> k) (c_pubsub_channels cl)\<rparr>) s0);
               (ko, cs) \<leftarrow> map_of (pubsub_channels s1) k;
               (if c \<notin> set cs then None
                else let cs' = remove1 c cs
                     in if cs' = []
                        then decrRefCount ko (s1\<lparr>pubsub_channels := filter (\<lambda>(k', e). k' \<noteq> k) (pubsub_channels s1)\<rparr>)
                        else Some (s1\<lparr>pubsub_channels :=
                          map (\<lambda>(k', o', l). if k' = k then (k', o', cs') else (k', o', l)) (pubsub_channels s1)\<rparr>))
             });
       s5 \<leftarrow> (if notify then notify_subscription c S_unsubscribebulk channel s4 else Some s4);
       s6 \<leftarrow> decrRefCount channel s5;
       Some (found \<noteq> None, s6)
     }"

fun search_object :: "redisServer \<Rightarrow> oid list \<Rightarrow> oid \<Rightarrow> nat option option" where
  "search_object s [] i = Some None"
| "search_object s (x # xs) i =
     do {
       e \<leftarrow> equalStringObjects s x i;
       (if e then Some (Some 0) else map_option (map_option Suc) (search_object s xs i))
     }"

fun search_pattern :: "redisServer \<Rightarrow> (cid \<times> oid) list \<Rightarrow> cid \<Rightarrow> oid \<Rightarrow> nat option option" where
  "search_pattern s [] c i = Some None"
| "search_pattern s ((c', x) # xs) c i =
     do {
       e \<leftarrow> (if c' = c then equalStringObjects s x i else Some False);
       (if e then Some (Some 0) else map_option (map_option Suc) (search_pattern s xs c i))
     }"

definition remove_nth :: "nat \<Rightarrow> 'a list \<Rightarrow> 'a list" where
  "remove_nth n xs = take n xs @ drop (Suc n) xs"

definition pubsubSubscribePattern :: "cid \<Rightarrow> oid \<Rightarrow> redisServer \<Rightarrow> (bool \<times> redisServer) option" where
  "pubsubSubscribePattern c pattern s =
     do {
       found \<leftarrow> search_object s (c_pubsub_patterns (clients s c)) pattern;
       s3 \<leftarrow> (case found of
           Some n \<Rightarrow> Some s
         | None \<Rightarrow>
             do {
               s1 \<leftarrow> incrRefCount pattern (update_client c (\<lambda>cl. cl\<lparr>c_pubsub_patterns := c_pubsub_patterns cl @ [pattern]\<rparr>) s);
               (p, s2) \<leftarrow> getDecodedObject pattern s1;
               Some (s2\<lparr>pubsub_patterns := pubsub_patterns s2 @ [(c, p)]\<rparr>)
             });
       s4 \<leftarrow> notify_subscription c S_psubscribebulk pattern s3;
       Some (found = None, s4)
     }"

definition pubsubUnsubscribePattern :: "cid \<Rightarrow> oid \<Rightarrow> bool \<Rightarrow> redisServer \<Rightarrow> (bool \<times> redisServer) option" where
  "pubsubUnsubscribePattern c pattern notify s =
     do {
       s0 \<leftarrow> incrRefCount pattern s;
       found \<leftarrow> search_object s0 (c_pubsub_patterns (clients s0 c)) pattern;
       s3 \<leftarrow> (case found of
           None \<Rightarrow> Some s0
         | Some n \<Rightarrow>
             do {
               let old = c_pubsub_patterns (clients s0 c) ! n;
               s1 \<leftarrow> decrRefCount old (update_client c (\<lambda>cl. cl\<lparr>c_pubsub_patterns := remove_nth n (c_pubsub_patterns cl)\<rparr>) s0);
               f \<leftarrow> search_pattern s1 (pubsub_patterns s1) c pattern;
               m \<leftarrow> f;
               decrRefCount (snd (pubsub_patterns s1 ! m)) (s1\<lparr>pubsub_patterns := remove_nth m (pubsub_patterns s1)\<rparr>)
             });
       s4 \<leftarrow> (if notify then notify_subscription c S_punsubscribebulk pattern s3 else Some s3);
       s5 \<leftarrow> decrRefCount pattern s4;
       Some (found \<noteq> None, s5)
     }"

fun unsubscribe_loop :: "cid \<Rightarrow> oid list \<Rightarrow> bool \<Rightarrow> redisServer \<Rightarrow> (nat \<times> redisServer) option" where
  "unsubscribe_loop c [] notify s = Some (0, s)"
| "unsubscribe_loop c (ch # chs) notify s =
     do {
       (b, s1) \<leftarrow> pubsubUnsubscribeChannel c ch notify s;
       (n, s2) \<leftarrow> unsubscribe_loop c chs notify s1;
       Some (n + (if b then 1 else 0), s2)
     }"

definition pubsubUnsubscribeAllChannels :: "cid \<Rightarrow> bool \<Rightarrow> redisServer \<Rightarrow> (nat \<times> redisServer) option" where
  "pubsubUnsubscribeAllChannels c notify s =
     do {
       (n, s1) \<leftarrow> unsubscribe_loop c (map snd (c_pubsub_channels (clients s c))) notify s;
       s2 \<leftarrow> (if notify \<and> n = 0 then notify_nothing c S_unsubscribebulk s1 else Some s1);
       Some (n, s2)
     }"

fun punsubscribe_loop :: "cid \<Rightarrow> oid list \<Rightarrow> bool \<Rightarrow> redisServer \<Rightarrow> (nat \<times> redisServer) option" where
  "punsubscribe_loop c [] notify s = Some (0, s)"
| "punsubscribe_loop c (p # ps) notify s =
     do {
       (b, s1) \<leftarrow> pubsubUnsubscribePattern c p notify s;
       (n, s2) \<leftarrow> punsubscribe_loop c ps notify s1;
       Some (n + (if b then 1 else 0), s2)
     }"

definition pubsubUnsubscribeAllPatterns :: "cid \<Rightarrow> bool \<Rightarrow> redisServer \<Rightarrow> (nat \<times> redisServer) option" where
  "pubsubUnsubscribeAllPatterns c notify s =
     do {
       (n, s1) \<leftarrow> punsubscribe_loop c (c_pubsub_patterns (clients s c)) notify s;
       s2 \<leftarrow> (if notify \<and> n = 0 then notify_nothing c S_punsubscribebulk s1 else Some s1);
       Some (n, s2)
     }"

subsection \<open>Publishing\<close>

definition send_message :: "cid \<Rightarrow> oid \<Rightarrow> oid \<Rightarrow> redisServer \<Rightarrow> redisServer option" where
  "send_message c channel message s =
     do {
       s1 \<leftarrow> addReply c (Shared (S_mbulkhdr 3)) s;
       s2 \<leftarrow> addReply c (Shared S_messagebulk) s1;
       s3 \<leftarrow> addReplyBulk c channel s2;
       addReplyBulk c message s3
     }"

definition send_pmessage :: "cid \<Rightarrow> oid \<Rightarrow> oid \<Rightarrow> oid \<Rightarrow> redisServer \<Rightarrow> redisServer option" where
  "send_pmessage c pattern channel message s =
     do {
       s1 \<leftarrow> addReply c (Shared (S_mbulkhdr 4)) s;
       s2 \<leftarrow> addReply c (Shared S_pmessagebulk) s1;
       s3 \<leftarrow> addReplyBulk c pattern s2;
       s4 \<leftarrow> addReplyBulk c channel s3;
       addReplyBulk c message s4
     }"

fun channel_loop :: "cid list \<Rightarrow> oid \<Rightarrow> oid \<Rightarrow> redisServer \<Rightarrow> redisServer option" where
  "channel_loop [] channel message s = Some s"
| "channel_loop (c # cs) channel message s =
     do { s1 \<leftarrow> send_message c channel message s; channel_loop cs channel message s1 }"

fun pattern_loop :: "(cid \<times> oid) list \<Rightarrow> oid \<Rightarrow> oid \<Rightarrow> redisServer \<Rightarrow> (nat \<times> redisServer) option" where
  "pattern_loop [] channel message s = Some (0, s)"
| "pattern_loop ((c, p) # ps) channel message s =
     do {
       pat \<leftarrow> sds_at s p;
       ch \<leftarrow> sds_at s channel;
       m \<leftarrow> stringmatchlen False pat (In ch);
       (if m then do {
          s1 \<leftarrow> send_pmessage c p channel message s;
          (n, s2) \<leftarrow> pattern_loop ps channel message s1;
          Some (n + 1, s2)
        }
        else pattern_loop ps channel message s)
     }"

definition pubsubPublishMessage :: "oid \<Rightarrow> oid \<Rightarrow> redisServer \<Rightarrow> (nat \<times> redisServer) option" where
  "pubsubPublishMessage channel message s =
     do {
       k \<leftarrow> obj_str s channel;
       let cs = (case map_of (pubsub_channels s) k of None \<Rightarrow> [] | Some (o', cs) \<Rightarrow> cs);
       s1 \<leftarrow> channel_loop cs channel message s;
       (if pubsub_patterns s1 \<noteq> [] then do {
          (ch, s2) \<leftarrow> getDecodedObject channel s1;
          (n, s3) \<leftarrow> pattern_loop (pubsub_patterns s2) ch message s2;
          s4 \<leftarrow> decrRefCount ch s3;
          Some (length cs + n, s4)
        }
        else Some (length cs, s1))
     }"

subsection \<open>Commands\<close>

fun for_args :: "(oid \<Rightarrow> redisServer \<Rightarrow> (bool \<times> redisServer) option) \<Rightarrow> oid list \<Rightarrow> redisServer \<Rightarrow> redisServer option" where
  "for_args f [] s = Some s"
| "for_args f (a # as) s = do { (b, s1) \<leftarrow> f a s; for_args f as s1 }"

definition subscribeCommand :: "cid \<Rightarrow> redisServer \<Rightarrow> redisServer option" where
  "subscribeCommand c s = for_args (pubsubSubscribeChannel c) (tl (c_argv (clients s c))) s"

definition unsubscribeCommand :: "cid \<Rightarrow> redisServer \<Rightarrow> redisServer option" where
  "unsubscribeCommand c s =
     (if length (c_argv (clients s c)) = 1 then map_option snd (pubsubUnsubscribeAllChannels c True s)
      else for_args (\<lambda>a. pubsubUnsubscribeChannel c a True) (tl (c_argv (clients s c))) s)"

definition psubscribeCommand :: "cid \<Rightarrow> redisServer \<Rightarrow> redisServer option" where
  "psubscribeCommand c s = for_args (pubsubSubscribePattern c) (tl (c_argv (clients s c))) s"

definition punsubscribeCommand :: "cid \<Rightarrow> redisServer \<Rightarrow> redisServer option" where
  "punsubscribeCommand c s =
     (if length (c_argv (clients s c)) = 1 then map_option snd (pubsubUnsubscribeAllPatterns c True s)
      else for_args (\<lambda>a. pubsubUnsubscribePattern c a True) (tl (c_argv (clients s c))) s)"

definition arg :: "cid \<Rightarrow> nat \<Rightarrow> redisServer \<Rightarrow> oid option" where
  "arg c n s = (let as = c_argv (clients s c) in if n < length as then Some (as ! n) else None)"

definition publishCommand :: "cid \<Rightarrow> redisServer \<Rightarrow> redisServer option" where
  "publishCommand c s =
     do {
       channel \<leftarrow> arg c 1 s;
       message \<leftarrow> arg c 2 s;
       (receivers, s1) \<leftarrow> pubsubPublishMessage channel message s;
       addReplyLongLong c (int receivers)
         (update_client c (\<lambda>cl. cl\<lparr>c_flags := insert REDIS_FORCE_REPL (c_flags cl)\<rparr>) s1)
     }"

subsection \<open>Keyspace events\<close>

definition REDIS_NOTIFY_KEYSPACE :: nat where "REDIS_NOTIFY_KEYSPACE = 1"
definition REDIS_NOTIFY_KEYEVENT :: nat where "REDIS_NOTIFY_KEYEVENT = 2"
definition REDIS_NOTIFY_GENERIC :: nat where "REDIS_NOTIFY_GENERIC = 4"
definition REDIS_NOTIFY_STRING :: nat where "REDIS_NOTIFY_STRING = 8"
definition REDIS_NOTIFY_LIST :: nat where "REDIS_NOTIFY_LIST = 16"
definition REDIS_NOTIFY_SET :: nat where "REDIS_NOTIFY_SET = 32"
definition REDIS_NOTIFY_HASH :: nat where "REDIS_NOTIFY_HASH = 64"
definition REDIS_NOTIFY_ZSET :: nat where "REDIS_NOTIFY_ZSET = 128"
definition REDIS_NOTIFY_EXPIRED :: nat where "REDIS_NOTIFY_EXPIRED = 256"
definition REDIS_NOTIFY_EVICTED :: nat where "REDIS_NOTIFY_EVICTED = 512"

definition REDIS_NOTIFY_ALL :: nat where
  "REDIS_NOTIFY_ALL = REDIS_NOTIFY_GENERIC OR REDIS_NOTIFY_STRING OR REDIS_NOTIFY_LIST OR REDIS_NOTIFY_SET OR
     REDIS_NOTIFY_HASH OR REDIS_NOTIFY_ZSET OR REDIS_NOTIFY_EXPIRED OR REDIS_NOTIFY_EVICTED"

fun string_to_flags_loop :: "bytes \<Rightarrow> nat \<Rightarrow> nat option" where
  "string_to_flags_loop [] flags = Some flags"
| "string_to_flags_loop (c # cs) flags =
     (if c = CHR ''A'' then string_to_flags_loop cs (flags OR REDIS_NOTIFY_ALL)
      else if c = CHR ''g'' then string_to_flags_loop cs (flags OR REDIS_NOTIFY_GENERIC)
      else if c = CHR ''$'' then string_to_flags_loop cs (flags OR REDIS_NOTIFY_STRING)
      else if c = CHR ''l'' then string_to_flags_loop cs (flags OR REDIS_NOTIFY_LIST)
      else if c = CHR ''s'' then string_to_flags_loop cs (flags OR REDIS_NOTIFY_SET)
      else if c = CHR ''h'' then string_to_flags_loop cs (flags OR REDIS_NOTIFY_HASH)
      else if c = CHR ''z'' then string_to_flags_loop cs (flags OR REDIS_NOTIFY_ZSET)
      else if c = CHR ''x'' then string_to_flags_loop cs (flags OR REDIS_NOTIFY_EXPIRED)
      else if c = CHR ''e'' then string_to_flags_loop cs (flags OR REDIS_NOTIFY_EVICTED)
      else if c = CHR ''K'' then string_to_flags_loop cs (flags OR REDIS_NOTIFY_KEYSPACE)
      else if c = CHR ''E'' then string_to_flags_loop cs (flags OR REDIS_NOTIFY_KEYEVENT)
      else None)"

definition keyspaceEventsStringToFlags :: "bytes \<Rightarrow> int" where
  "keyspaceEventsStringToFlags classes =
     (case string_to_flags_loop (c_str classes) 0 of None \<Rightarrow> -1 | Some flags \<Rightarrow> int flags)"

definition keyspaceEventsFlagsToString :: "nat \<Rightarrow> bytes" where
  "keyspaceEventsFlagsToString flags =
     (if flags AND REDIS_NOTIFY_ALL = REDIS_NOTIFY_ALL then ''A''
      else
        (if flags AND REDIS_NOTIFY_GENERIC \<noteq> 0 then ''g'' else []) @
        (if flags AND REDIS_NOTIFY_STRING \<noteq> 0 then ''$'' else []) @
        (if flags AND REDIS_NOTIFY_LIST \<noteq> 0 then ''l'' else []) @
        (if flags AND REDIS_NOTIFY_SET \<noteq> 0 then ''s'' else []) @
        (if flags AND REDIS_NOTIFY_HASH \<noteq> 0 then ''h'' else []) @
        (if flags AND REDIS_NOTIFY_ZSET \<noteq> 0 then ''z'' else []) @
        (if flags AND REDIS_NOTIFY_EXPIRED \<noteq> 0 then ''x'' else []) @
        (if flags AND REDIS_NOTIFY_EVICTED \<noteq> 0 then ''e'' else []) @
        (if flags AND REDIS_NOTIFY_KEYSPACE \<noteq> 0 then ''K'' else []) @
        (if flags AND REDIS_NOTIFY_KEYEVENT \<noteq> 0 then ''E'' else []))"

definition notifyKeyspaceEvent :: "nat \<Rightarrow> bytes \<Rightarrow> oid \<Rightarrow> dbid \<Rightarrow> redisServer \<Rightarrow> redisServer option" where
  "notifyKeyspaceEvent type event key d s =
     (if notify_keyspace_events s AND type = 0 then Some s
      else do {
        let (eventobj, s1) = createStringObject event s;
        let dbname = ll2string 24 (int d);
        k \<leftarrow> sds_at s1 key;
        s3 \<leftarrow> (if notify_keyspace_events s1 AND REDIS_NOTIFY_KEYSPACE \<noteq> 0 then do {
            let (chanobj, s2) = createObject REDIS_STRING (Sds (''__keyspace@'' @ dbname @ ''__:'' @ k)) s1;
            (n, s3) \<leftarrow> pubsubPublishMessage chanobj eventobj s2;
            decrRefCount chanobj s3
          }
          else Some s1);
        s5 \<leftarrow> (if notify_keyspace_events s3 AND REDIS_NOTIFY_KEYEVENT \<noteq> 0 then do {
            let (chanobj, s4) = createObject REDIS_STRING (Sds (''__keyevent@'' @ dbname @ ''__:'' @ event)) s3;
            (n, s5) \<leftarrow> pubsubPublishMessage chanobj key s4;
            decrRefCount chanobj s5
          }
          else Some s3);
        decrRefCount eventobj s5
      })"

end
