(* ===== verification/Watch.thy ===== *)
theory Watch
  imports Pubsub
begin

text \<open>
  The keys that clients watch (\<open>src/lib/src/multi.c\<close>): every database maps a watched key to its clients, and
  every client has the list of its watched keys, both with references to key objects.
\<close>

fun key_watched :: "redisServer \<Rightarrow> dbid \<Rightarrow> oid \<Rightarrow> (oid \<times> dbid) list \<Rightarrow> bool option" where
  "key_watched s d i [] = Some False"
| "key_watched s d i ((k, d') # wks) =
     do {
       e \<leftarrow> (if d' = d then equalStringObjects s i k else Some False);
       (if e then Some True else key_watched s d i wks)
     }"

definition watchForKey :: "cid \<Rightarrow> oid \<Rightarrow> redisServer \<Rightarrow> redisServer option" where
  "watchForKey c i s =
     (let d = c_db (clients s c)
      in do {
        w \<leftarrow> key_watched s d i (c_watched_keys (clients s c));
        (if w then Some s
         else do {
           k \<leftarrow> sds_at s i;
           s1 \<leftarrow> (case db_watched_keys (dbs s d) k of
               None \<Rightarrow> incrRefCount i (update_db d (\<lambda>b. b\<lparr>db_watched_keys := (db_watched_keys b)(k \<mapsto> (i, [c]))\<rparr>) s)
             | Some (ko, cs) \<Rightarrow>
                 Some (update_db d (\<lambda>b. b\<lparr>db_watched_keys := (db_watched_keys b)(k \<mapsto> (ko, cs @ [c]))\<rparr>) s));
           s2 \<leftarrow> incrRefCount i s1;
           Some (update_client c (\<lambda>cl. cl\<lparr>c_watched_keys := c_watched_keys cl @ [(i, d)]\<rparr>) s2)
         })
      })"

definition unwatch_key :: "cid \<Rightarrow> oid \<Rightarrow> dbid \<Rightarrow> redisServer \<Rightarrow> redisServer option" where
  "unwatch_key c i d s =
     do {
       k \<leftarrow> sds_at s i;
       (ko, cs) \<leftarrow> db_watched_keys (dbs s d) k;
       s1 \<leftarrow> (if c \<notin> set cs then None
              else if remove1 c cs = []
              then decrRefCount ko (update_db d (\<lambda>b. b\<lparr>db_watched_keys := (db_watched_keys b)(k := None)\<rparr>) s)
              else Some (update_db d (\<lambda>b. b\<lparr>db_watched_keys := (db_watched_keys b)(k \<mapsto> (ko, remove1 c cs))\<rparr>) s));
       decrRefCount i (update_client c (\<lambda>cl. cl\<lparr>c_watched_keys := tl (c_watched_keys cl)\<rparr>) s1)
     }"

fun unwatch_loop :: "cid \<Rightarrow> (oid \<times> dbid) list \<Rightarrow> redisServer \<Rightarrow> redisServer option" where
  "unwatch_loop c [] s = Some s"
| "unwatch_loop c ((i, d) # wks) s = do { s1 \<leftarrow> unwatch_key c i d s; unwatch_loop c wks s1 }"

definition unwatchAllKeys :: "cid \<Rightarrow> redisServer \<Rightarrow> redisServer option" where
  "unwatchAllKeys c s = unwatch_loop c (c_watched_keys (clients s c)) s"

definition set_dirty_cas :: "cid \<Rightarrow> redisServer \<Rightarrow> redisServer" where
  "set_dirty_cas c s = update_client c (\<lambda>cl. cl\<lparr>c_flags := insert REDIS_DIRTY_CAS (c_flags cl)\<rparr>) s"

definition touchWatchedKey :: "dbid \<Rightarrow> oid \<Rightarrow> redisServer \<Rightarrow> redisServer option" where
  "touchWatchedKey d i s =
     do {
       k \<leftarrow> sds_at s i;
       (case db_watched_keys (dbs s d) k of
          None \<Rightarrow> Some s
        | Some (ko, cs) \<Rightarrow> Some (fold set_dirty_cas cs s))
     }"

fun flush_touches :: "redisServer \<Rightarrow> int \<Rightarrow> (oid \<times> dbid) list \<Rightarrow> bool option" where
  "flush_touches s d [] = Some False"
| "flush_touches s d ((i, d') # wks) =
     do {
       t \<leftarrow> (if d = -1 \<or> int d' = d then do { k \<leftarrow> sds_at s i; Some (db_dict (dbs s d') k \<noteq> None) } else Some False);
       r \<leftarrow> flush_touches s d wks;
       Some (t \<or> r)
     }"

fun touch_clients :: "cid list \<Rightarrow> int \<Rightarrow> redisServer \<Rightarrow> redisServer option" where
  "touch_clients [] d s = Some s"
| "touch_clients (c # cs) d s =
     do {
       t \<leftarrow> flush_touches s d (c_watched_keys (clients s c));
       touch_clients cs d (if t then set_dirty_cas c s else s)
     }"

definition touchWatchedKeysOnFlush :: "int \<Rightarrow> redisServer \<Rightarrow> redisServer option" where
  "touchWatchedKeysOnFlush d s = touch_clients [0..<nclients s] d s"

end
