(* ===== verification/Db.thy ===== *)
theory Db
  imports Watch
begin

text \<open>
  The keyspace (\<open>src/lib/src/db.c\<close>): lookups, insertion, deletion, expiration, and the commands that work on
  keys of any type. The server is not a node of a cluster. Where the code walks over a dict, the argument
  \<open>order\<close> lists its keys in the order of the walk. A signed overflow is \<open>None\<close>.
\<close>

text \<open>The implicit conversion of a \<open>long\<close> to an \<open>int\<close>.\<close>

definition to_int32 :: "int \<Rightarrow> int" where
  "to_int32 n = (n + 2 ^ 31) mod 2 ^ 32 - 2 ^ 31"

definition checked :: "int \<Rightarrow> int option" where
  "checked n = (if in_ll n then Some n else None)"

subsection \<open>Hooks\<close>

definition signalModifiedKey :: "dbid \<Rightarrow> oid \<Rightarrow> redisServer \<Rightarrow> redisServer option" where
  "signalModifiedKey d i s = touchWatchedKey d i s"

definition signalFlushedDb :: "int \<Rightarrow> redisServer \<Rightarrow> redisServer option" where
  "signalFlushedDb d s = touchWatchedKeysOnFlush d s"

subsection \<open>The dicts of a database\<close>

definition set_dict :: "dbid \<Rightarrow> bytes \<Rightarrow> oid option \<Rightarrow> redisServer \<Rightarrow> redisServer" where
  "set_dict d k v s = update_db d (\<lambda>b. b\<lparr>db_dict := (db_dict b)(k := v)\<rparr>) s"

definition set_expires :: "dbid \<Rightarrow> bytes \<Rightarrow> int option \<Rightarrow> redisServer \<Rightarrow> redisServer" where
  "set_expires d k w s = update_db d (\<lambda>b. b\<lparr>db_expires := (db_expires b)(k := w)\<rparr>) s"

definition lookupKey :: "dbid \<Rightarrow> oid \<Rightarrow> redisServer \<Rightarrow> oid option option" where
  "lookupKey d i s = do { k \<leftarrow> sds_at s i; Some (db_dict (dbs s d) k) }"

definition dbAdd :: "dbid \<Rightarrow> oid \<Rightarrow> oid \<Rightarrow> redisServer \<Rightarrow> redisServer option" where
  "dbAdd d i v s =
     do {
       k \<leftarrow> sds_at s i;
       (case db_dict (dbs s d) k of Some old \<Rightarrow> None | None \<Rightarrow> Some (set_dict d k (Some v) s))
     }"

definition dbOverwrite :: "dbid \<Rightarrow> oid \<Rightarrow> oid \<Rightarrow> redisServer \<Rightarrow> redisServer option" where
  "dbOverwrite d i v s =
     do {
       k \<leftarrow> sds_at s i;
       old \<leftarrow> db_dict (dbs s d) k;
       decrRefCount old (set_dict d k (Some v) s)
     }"

definition dbExists :: "dbid \<Rightarrow> oid \<Rightarrow> redisServer \<Rightarrow> bool option" where
  "dbExists d i s = do { k \<leftarrow> sds_at s i; Some (db_dict (dbs s d) k \<noteq> None) }"

definition dbDelete :: "dbid \<Rightarrow> oid \<Rightarrow> redisServer \<Rightarrow> (bool \<times> redisServer) option" where
  "dbDelete d i s =
     do {
       k \<leftarrow> sds_at s i;
       let s1 = set_expires d k None s;
       (case db_dict (dbs s1 d) k of
          None \<Rightarrow> Some (False, s1)
        | Some old \<Rightarrow> map_option (Pair True) (decrRefCount old (set_dict d k None s1)))
     }"

subsection \<open>Expires\<close>

definition removeExpire :: "dbid \<Rightarrow> oid \<Rightarrow> redisServer \<Rightarrow> (bool \<times> redisServer) option" where
  "removeExpire d i s =
     do {
       k \<leftarrow> sds_at s i;
       (if db_dict (dbs s d) k = None then None
        else Some (db_expires (dbs s d) k \<noteq> None, set_expires d k None s))
     }"

definition setExpire :: "dbid \<Rightarrow> oid \<Rightarrow> int \<Rightarrow> redisServer \<Rightarrow> redisServer option" where
  "setExpire d i when s =
     do {
       k \<leftarrow> sds_at s i;
       (if db_dict (dbs s d) k = None then None else Some (set_expires d k (Some when) s))
     }"

definition getExpire :: "dbid \<Rightarrow> oid \<Rightarrow> redisServer \<Rightarrow> int option" where
  "getExpire d i s =
     do {
       k \<leftarrow> sds_at s i;
       (case db_expires (dbs s d) k of
          None \<Rightarrow> Some (-1)
        | Some when \<Rightarrow> if db_dict (dbs s d) k = None then None else Some when)
     }"

definition propagateExpire :: "dbid \<Rightarrow> oid \<Rightarrow> redisServer \<Rightarrow> redisServer option" where
  "propagateExpire d i s =
     do {
       s1 \<leftarrow> incrRefCount (Shared S_del) s;
       s2 \<leftarrow> incrRefCount i s1;
       a \<leftarrow> obj_str s2 (Shared S_del);
       k \<leftarrow> obj_str s2 i;
       s3 \<leftarrow> decrRefCount (Shared S_del) (s2\<lparr>propagated := propagated s2 @ [(d, [a, k])]\<rparr>);
       decrRefCount i s3
     }"

definition expireIfNeeded :: "dbid \<Rightarrow> oid \<Rightarrow> redisServer \<Rightarrow> (bool \<times> redisServer) option" where
  "expireIfNeeded d i s =
     do {
       when \<leftarrow> getExpire d i s;
       (if when < 0 then Some (False, s)
        else if loading s then Some (False, s)
        else if masterhost s then Some (mstime s > when, s)
        else if mstime s \<le> when then Some (False, s)
        else do {
          s1 \<leftarrow> propagateExpire d i (s\<lparr>stat_expiredkeys := stat_expiredkeys s + 1\<rparr>);
          s2 \<leftarrow> notifyKeyspaceEvent REDIS_NOTIFY_EXPIRED ''expired'' i d s1;
          dbDelete d i s2
        })
     }"

subsection \<open>Lookups that expire keys\<close>

definition lookupKeyRead :: "dbid \<Rightarrow> oid \<Rightarrow> redisServer \<Rightarrow> (oid option \<times> redisServer) option" where
  "lookupKeyRead d i s =
     do {
       (x, s1) \<leftarrow> expireIfNeeded d i s;
       v \<leftarrow> lookupKey d i s1;
       Some (v, if v = None then s1\<lparr>stat_keyspace_misses := stat_keyspace_misses s1 + 1\<rparr>
                else s1\<lparr>stat_keyspace_hits := stat_keyspace_hits s1 + 1\<rparr>)
     }"

definition lookupKeyWrite :: "dbid \<Rightarrow> oid \<Rightarrow> redisServer \<Rightarrow> (oid option \<times> redisServer) option" where
  "lookupKeyWrite d i s = do { (x, s1) \<leftarrow> expireIfNeeded d i s; v \<leftarrow> lookupKey d i s1; Some (v, s1) }"

definition lookupKeyReadOrReply :: "cid \<Rightarrow> oid \<Rightarrow> shared \<Rightarrow> redisServer \<Rightarrow> (oid option \<times> redisServer) option" where
  "lookupKeyReadOrReply c i reply s =
     do {
       (v, s1) \<leftarrow> lookupKeyRead (c_db (clients s c)) i s;
       s2 \<leftarrow> (if v = None then addReply c (Shared reply) s1 else Some s1);
       Some (v, s2)
     }"

definition lookupKeyWriteOrReply :: "cid \<Rightarrow> oid \<Rightarrow> shared \<Rightarrow> redisServer \<Rightarrow> (oid option \<times> redisServer) option" where
  "lookupKeyWriteOrReply c i reply s =
     do {
       (v, s1) \<leftarrow> lookupKeyWrite (c_db (clients s c)) i s;
       s2 \<leftarrow> (if v = None then addReply c (Shared reply) s1 else Some s1);
       Some (v, s2)
     }"

definition setKey :: "dbid \<Rightarrow> oid \<Rightarrow> oid \<Rightarrow> redisServer \<Rightarrow> redisServer option" where
  "setKey d i v s =
     do {
       (old, s1) \<leftarrow> lookupKeyWrite d i s;
       s2 \<leftarrow> (if old = None then dbAdd d i v s1 else dbOverwrite d i v s1);
       s3 \<leftarrow> incrRefCount v s2;
       (b, s4) \<leftarrow> removeExpire d i s3;
       signalModifiedKey d i s4
     }"

subsection \<open>Emptying and selecting databases\<close>

fun release_values :: "(bytes \<Rightarrow> oid option) \<Rightarrow> bytes list \<Rightarrow> redisServer \<Rightarrow> redisServer option" where
  "release_values m [] s = Some s"
| "release_values m (k # ks) s = do { i \<leftarrow> m k; s1 \<leftarrow> decrRefCount i s; release_values m ks s1 }"

definition empty_dicts :: "dbid \<Rightarrow> bytes list \<Rightarrow> redisServer \<Rightarrow> redisServer option" where
  "empty_dicts d order s =
     release_values (db_dict (dbs s d)) order
       (update_db d (\<lambda>b. b\<lparr>db_dict := (\<lambda>k. None), db_expires := (\<lambda>k. None)\<rparr>) s)"

fun emptyDb :: "bytes list list \<Rightarrow> dbid \<Rightarrow> redisServer \<Rightarrow> (nat \<times> redisServer) option" where
  "emptyDb [] d s = Some (0, s)"
| "emptyDb (order # orders) d s =
     do {
       s1 \<leftarrow> empty_dicts d order s;
       (n, s2) \<leftarrow> emptyDb orders (d + 1) s1;
       Some (length order + n, s2)
     }"

definition selectDb :: "cid \<Rightarrow> int \<Rightarrow> redisServer \<Rightarrow> redisServer option" where
  "selectDb c n s =
     (let i = to_int32 n
      in if i < 0 \<or> i \<ge> int (dbnum s) then None else Some (update_client c (\<lambda>cl. cl\<lparr>c_db := nat i\<rparr>) s))"

definition flushdbCommand :: "bytes list \<Rightarrow> cid \<Rightarrow> redisServer \<Rightarrow> redisServer option" where
  "flushdbCommand order c s =
     (let d = c_db (clients s c)
      in do {
        s1 \<leftarrow> signalFlushedDb (int d) (s\<lparr>dirty := dirty s + int (length order)\<rparr>);
        s2 \<leftarrow> empty_dicts d order s1;
        addReply c (Shared S_ok) s2
      })"

subsection \<open>Commands on keys\<close>

fun del_loop :: "dbid \<Rightarrow> oid list \<Rightarrow> nat \<Rightarrow> redisServer \<Rightarrow> (nat \<times> redisServer) option" where
  "del_loop d [] deleted s = Some (deleted, s)"
| "del_loop d (i # is) deleted s =
     do {
       (b, s1) \<leftarrow> dbDelete d i s;
       (if b then do {
          s2 \<leftarrow> signalModifiedKey d i s1;
          s3 \<leftarrow> notifyKeyspaceEvent REDIS_NOTIFY_GENERIC ''del'' i d s2;
          del_loop d is (deleted + 1) (s3\<lparr>dirty := dirty s3 + 1\<rparr>)
        }
        else del_loop d is deleted s1)
     }"

definition delCommand :: "cid \<Rightarrow> redisServer \<Rightarrow> redisServer option" where
  "delCommand c s =
     do {
       (deleted, s1) \<leftarrow> del_loop (c_db (clients s c)) (tl (c_argv (clients s c))) 0 s;
       addReplyLongLong c (int deleted) s1
     }"

definition existsCommand :: "cid \<Rightarrow> redisServer \<Rightarrow> redisServer option" where
  "existsCommand c s =
     do {
       k \<leftarrow> arg c 1 s;
       (x, s1) \<leftarrow> expireIfNeeded (c_db (clients s c)) k s;
       e \<leftarrow> dbExists (c_db (clients s c)) k s1;
       (if e then addReply c (Shared S_cone) s1 else addReply c (Shared S_czero) s1)
     }"

definition selectCommand :: "cid \<Rightarrow> redisServer \<Rightarrow> redisServer option" where
  "selectCommand c s =
     do {
       a \<leftarrow> arg c 1 s;
       (r, s1) \<leftarrow> getLongFromObjectOrReply c (Some a) (Some ''invalid DB index'') s;
       (case r of
          None \<Rightarrow> Some s1
        | Some n \<Rightarrow>
            (case selectDb c n s1 of
               None \<Rightarrow> addReplyError c ''invalid DB index'' s1
             | Some s2 \<Rightarrow> addReply c (Shared S_ok) s2))
     }"

fun keys_loop :: "cid \<Rightarrow> bytes \<Rightarrow> bytes list \<Rightarrow> nat \<Rightarrow> redisServer \<Rightarrow> (nat \<times> redisServer) option" where
  "keys_loop c pattern [] numkeys s = Some (numkeys, s)"
| "keys_loop c pattern (k # ks) numkeys s =
     do {
       m \<leftarrow> (if c_str pattern = ''*'' then Some True else stringmatchlen False pattern (In k));
       (if m then do {
          let (keyobj, s1) = createStringObject k s;
          (x, s2) \<leftarrow> expireIfNeeded (c_db (clients s c)) keyobj s1;
          s3 \<leftarrow> (if x then Some s2 else addReplyBulk c keyobj s2);
          s4 \<leftarrow> decrRefCount keyobj s3;
          keys_loop c pattern ks (if x then numkeys else numkeys + 1) s4
        }
        else keys_loop c pattern ks numkeys s)
     }"

definition keysCommand :: "bytes list \<Rightarrow> cid \<Rightarrow> redisServer \<Rightarrow> redisServer option" where
  "keysCommand order c s =
     do {
       a \<leftarrow> arg c 1 s;
       pattern \<leftarrow> sds_at s a;
       let (replylen, s1) = addDeferredMultiBulkLength c s;
       (numkeys, s2) \<leftarrow> keys_loop c pattern order 0 s1;
       setDeferredMultiBulkLength c replylen (int numkeys) s2
     }"

definition dbsizeCommand :: "bytes list \<Rightarrow> cid \<Rightarrow> redisServer \<Rightarrow> redisServer option" where
  "dbsizeCommand order c s = addReplyLongLong c (int (length order)) s"

fun type_name :: "redisType \<Rightarrow> bytes" where
  "type_name REDIS_STRING = ''string''"
| "type_name REDIS_LIST = ''list''"
| "type_name REDIS_SET = ''set''"
| "type_name REDIS_ZSET = ''zset''"
| "type_name REDIS_HASH = ''hash''"

definition typeCommand :: "cid \<Rightarrow> redisServer \<Rightarrow> redisServer option" where
  "typeCommand c s =
     do {
       k \<leftarrow> arg c 1 s;
       (v, s1) \<leftarrow> lookupKeyRead (c_db (clients s c)) k s;
       (case v of
          None \<Rightarrow> addReplyStatus c ''none'' s1
        | Some i \<Rightarrow> do { ob \<leftarrow> objs s1 i; addReplyStatus c (type_name (ob_type ob)) s1 })
     }"

definition renameGenericCommand :: "cid \<Rightarrow> bool \<Rightarrow> redisServer \<Rightarrow> redisServer option" where
  "renameGenericCommand c nx s =
     (let d = c_db (clients s c)
      in do {
        a1 \<leftarrow> arg c 1 s;
        a2 \<leftarrow> arg c 2 s;
        k1 \<leftarrow> sds_at s a1;
        k2 \<leftarrow> sds_at s a2;
        (if k1 = k2 then addReply c (Shared S_sameobjecterr) s
         else do {
           (v, s1) \<leftarrow> lookupKeyWriteOrReply c a1 S_nokeyerr s;
           (case v of
              None \<Rightarrow> Some s1
            | Some v \<Rightarrow> do {
                s2 \<leftarrow> incrRefCount v s1;
                expire \<leftarrow> getExpire d a1 s2;
                (w, s3) \<leftarrow> lookupKeyWrite d a2 s2;
                (if w \<noteq> None \<and> nx then do { s4 \<leftarrow> decrRefCount v s3; addReply c (Shared S_czero) s4 }
                 else do {
                   s4 \<leftarrow> (if w \<noteq> None then map_option snd (dbDelete d a2 s3) else Some s3);
                   s5 \<leftarrow> dbAdd d a2 v s4;
                   s6 \<leftarrow> (if expire \<noteq> -1 then setExpire d a2 expire s5 else Some s5);
                   (b, s7) \<leftarrow> dbDelete d a1 s6;
                   s8 \<leftarrow> signalModifiedKey d a1 s7;
                   s9 \<leftarrow> signalModifiedKey d a2 s8;
                   s10 \<leftarrow> notifyKeyspaceEvent REDIS_NOTIFY_GENERIC ''rename_from'' a1 d s9;
                   s11 \<leftarrow> notifyKeyspaceEvent REDIS_NOTIFY_GENERIC ''rename_to'' a2 d s10;
                   addReply c (Shared (if nx then S_cone else S_ok)) (s11\<lparr>dirty := dirty s11 + 1\<rparr>)
                 })
              })
         })
      })"

definition renameCommand :: "cid \<Rightarrow> redisServer \<Rightarrow> redisServer option" where
  "renameCommand c s = renameGenericCommand c False s"

definition renamenxCommand :: "cid \<Rightarrow> redisServer \<Rightarrow> redisServer option" where
  "renamenxCommand c s = renameGenericCommand c True s"

definition moveCommand :: "cid \<Rightarrow> redisServer \<Rightarrow> redisServer option" where
  "moveCommand c s =
     (let src = c_db (clients s c)
      in do {
        a1 \<leftarrow> arg c 1 s;
        a2 \<leftarrow> arg c 2 s;
        b \<leftarrow> sds_at s a2;
        n \<leftarrow> atoi (c_str b);
        (case selectDb c n s of
           None \<Rightarrow> addReply c (Shared S_outofrangeerr) s
         | Some s1 \<Rightarrow>
             let dst = c_db (clients s1 c); s2 = update_client c (\<lambda>cl. cl\<lparr>c_db := src\<rparr>) s1
             in if src = dst then addReply c (Shared S_sameobjecterr) s2
                else do {
                  (v, s3) \<leftarrow> lookupKeyWrite src a1 s2;
                  (case v of
                     None \<Rightarrow> addReply c (Shared S_czero) s3
                   | Some v \<Rightarrow> do {
                       (w, s4) \<leftarrow> lookupKeyWrite dst a1 s3;
                       (if w \<noteq> None then addReply c (Shared S_czero) s4
                        else do {
                          s5 \<leftarrow> dbAdd dst a1 v s4;
                          s6 \<leftarrow> incrRefCount v s5;
                          (b, s7) \<leftarrow> dbDelete src a1 s6;
                          addReply c (Shared S_cone) (s7\<lparr>dirty := dirty s7 + 1\<rparr>)
                        })
                     })
                })
      })"

subsection \<open>Commands on expires\<close>

datatype time_unit = UNIT_SECONDS | UNIT_MILLISECONDS

fun release_all :: "oid list \<Rightarrow> redisServer \<Rightarrow> redisServer option" where
  "release_all [] s = Some s"
| "release_all (i # is) s = do { s1 \<leftarrow> decrRefCount i s; release_all is s1 }"

fun retain_all :: "oid list \<Rightarrow> redisServer \<Rightarrow> redisServer option" where
  "retain_all [] s = Some s"
| "retain_all (i # is) s = do { s1 \<leftarrow> incrRefCount i s; retain_all is s1 }"

definition rewriteClientCommandVector :: "cid \<Rightarrow> oid list \<Rightarrow> redisServer \<Rightarrow> redisServer option" where
  "rewriteClientCommandVector c argv s =
     do {
       s1 \<leftarrow> retain_all argv s;
       s2 \<leftarrow> release_all (c_argv (clients s c)) s1;
       cmd \<leftarrow> (if argv = [] then None else sds_at s2 (hd argv));
       Some (update_client c (\<lambda>cl. cl\<lparr>c_argv := argv, c_cmd := map tolower cmd\<rparr>) s2)
     }"

definition expireGenericCommand :: "cid \<Rightarrow> int \<Rightarrow> time_unit \<Rightarrow> redisServer \<Rightarrow> redisServer option" where
  "expireGenericCommand c basetime unit s =
     (let d = c_db (clients s c)
      in do {
        key \<leftarrow> arg c 1 s;
        param \<leftarrow> arg c 2 s;
        (r, s1) \<leftarrow> getLongLongFromObjectOrReply c (Some param) None s;
        (case r of
           None \<Rightarrow> Some s1
         | Some n \<Rightarrow> do {
             ms \<leftarrow> checked (if unit = UNIT_SECONDS then n * 1000 else n);
             when \<leftarrow> checked (ms + basetime);
             (v, s2) \<leftarrow> lookupKeyRead d key s1;
             (if v = None then addReply c (Shared S_czero) s2
              else if when \<le> mstime s2 \<and> \<not> loading s2 \<and> \<not> masterhost s2 then do {
                (b, s3) \<leftarrow> dbDelete d key s2;
                s4 \<leftarrow> (if b then Some (s3\<lparr>dirty := dirty s3 + 1\<rparr>) else None);
                let (aux, s5) = createStringObject ''DEL'' s4;
                s6 \<leftarrow> rewriteClientCommandVector c [aux, key] s5;
                s7 \<leftarrow> decrRefCount aux s6;
                s8 \<leftarrow> signalModifiedKey d key s7;
                s9 \<leftarrow> notifyKeyspaceEvent REDIS_NOTIFY_GENERIC ''del'' key d s8;
                addReply c (Shared S_cone) s9
              }
              else do {
                s3 \<leftarrow> setExpire d key when s2;
                s4 \<leftarrow> addReply c (Shared S_cone) s3;
                s5 \<leftarrow> signalModifiedKey d key s4;
                s6 \<leftarrow> notifyKeyspaceEvent REDIS_NOTIFY_GENERIC ''expire'' key d s5;
                Some (s6\<lparr>dirty := dirty s6 + 1\<rparr>)
              })
           })
      })"

definition expireCommand :: "cid \<Rightarrow> redisServer \<Rightarrow> redisServer option" where
  "expireCommand c s = expireGenericCommand c (mstime s) UNIT_SECONDS s"

definition expireatCommand :: "cid \<Rightarrow> redisServer \<Rightarrow> redisServer option" where
  "expireatCommand c s = expireGenericCommand c 0 UNIT_SECONDS s"

definition pexpireCommand :: "cid \<Rightarrow> redisServer \<Rightarrow> redisServer option" where
  "pexpireCommand c s = expireGenericCommand c (mstime s) UNIT_MILLISECONDS s"

definition pexpireatCommand :: "cid \<Rightarrow> redisServer \<Rightarrow> redisServer option" where
  "pexpireatCommand c s = expireGenericCommand c 0 UNIT_MILLISECONDS s"

definition ttlGenericCommand :: "cid \<Rightarrow> bool \<Rightarrow> redisServer \<Rightarrow> redisServer option" where
  "ttlGenericCommand c output_ms s =
     do {
       key \<leftarrow> arg c 1 s;
       (v, s1) \<leftarrow> lookupKeyRead (c_db (clients s c)) key s;
       (if v = None then addReplyLongLong c (-2) s1
        else do {
          expire \<leftarrow> getExpire (c_db (clients s c)) key s1;
          (if expire = -1 then addReplyLongLong c (-1) s1
           else do {
             left \<leftarrow> checked (expire - mstime s1);
             let ttl = (if left < 0 then 0 else left);
             up \<leftarrow> (if output_ms then Some ttl else checked (ttl + 500));
             addReplyLongLong c (if output_ms then ttl else up div 1000) s1
           })
        })
     }"

definition ttlCommand :: "cid \<Rightarrow> redisServer \<Rightarrow> redisServer option" where
  "ttlCommand c s = ttlGenericCommand c False s"

definition pttlCommand :: "cid \<Rightarrow> redisServer \<Rightarrow> redisServer option" where
  "pttlCommand c s = ttlGenericCommand c True s"

definition persistCommand :: "cid \<Rightarrow> redisServer \<Rightarrow> redisServer option" where
  "persistCommand c s =
     do {
       key \<leftarrow> arg c 1 s;
       e \<leftarrow> dbExists (c_db (clients s c)) key s;
       (if \<not> e then addReply c (Shared S_czero) s
        else do {
          (b, s1) \<leftarrow> removeExpire (c_db (clients s c)) key s;
          (if b then do { s2 \<leftarrow> addReply c (Shared S_cone) s1; Some (s2\<lparr>dirty := dirty s2 + 1\<rparr>) }
           else addReply c (Shared S_czero) s1)
        })
     }"

end
