(* ===== verification/Keyspace.thy ===== *)
theory Keyspace
  imports Db
begin

text \<open>
  What the functions of \<open>db.c\<close> do to the keyspace. The \<open>store\<close> of a database is what clients see of it: keys
  with their values and expires, without the keys that have expired but are not yet deleted. The relation
  \<open>changes\<close> says what a step on the keyspace leaves alone: clients and their objects, settings and watchers.
\<close>

subsection \<open>Views of the state\<close>

definition db_total :: "redisServer \<Rightarrow> oid \<Rightarrow> nat" where
  "db_total s i = (\<Sum>d<dbnum s. db_refs (dbs s d) i)"

definition other_refs :: "redisServer \<Rightarrow> oid \<Rightarrow> nat" where
  "other_refs s i =
     shared_refs i + (\<Sum>c<nclients s. client_refs (clients s c) i) + slowlog_refs (slowlog s) i + pubsub_refs s i"

text \<open>The counts of an object that do not belong to a database.\<close>

definition ext :: "redisServer \<Rightarrow> oid \<Rightarrow> int" where
  "ext s i = (case objs s i of None \<Rightarrow> 0 | Some ob \<Rightarrow> refcount ob - int (db_total s i))"

definition oview :: "redisServer \<Rightarrow> oid \<Rightarrow> val option \<times> bytes option" where
  "oview s i = (vals s i, sds_at s i)"

definition owned :: "redisServer \<Rightarrow> oid \<Rightarrow> bool" where
  "owned s i \<longleftrightarrow> int (other_refs s i) < ext s i"

definition settings :: "redisServer \<Rightarrow> _" where
  "settings s = (nclients s, dbnum s, mstime s, loading s, masterhost s, maxmemory s, notify_keyspace_events s, slowlog s,
     slowlog_entry_id s, slowlog_log_slower_than s, slowlog_max_len s, pubsub_channels s, pubsub_patterns s)"

definition unflag :: "redisClient \<Rightarrow> redisClient" where
  "unflag cl = cl\<lparr>c_flags := c_flags cl - {REDIS_DIRTY_CAS}\<rparr>"

definition db_ok :: "redisServer \<Rightarrow> bool" where
  "db_ok s \<longleftrightarrow> (\<forall>d<dbnum s. dom (db_expires (dbs s d)) \<subseteq> dom (db_dict (dbs s d)))"

definition good :: "redisServer \<Rightarrow> bool" where
  "good s \<longleftrightarrow> server_inv s \<and> db_ok s \<and> notify_keyspace_events s = 0"

definition frame :: "redisServer \<Rightarrow> redisServer \<Rightarrow> bool" where
  "frame s s' \<longleftrightarrow>
     settings s' = settings s \<and> (\<forall>d. db_watched_keys (dbs s' d) = db_watched_keys (dbs s d)) \<and>
     (\<forall>c. unflag (clients s' c) = unflag (clients s c) \<and> c_flags (clients s c) \<subseteq> c_flags (clients s' c))"

definition changes :: "(oid \<Rightarrow> int) \<Rightarrow> redisServer \<Rightarrow> redisServer \<Rightarrow> bool" where
  "changes \<delta> s s' \<longleftrightarrow>
     good s' \<and> frame s s' \<and>
     (\<forall>i. 0 < ext s i \<longrightarrow> 0 < ext s i + \<delta> i \<longrightarrow> ext s' i = ext s i + \<delta> i \<and> oview s' i = oview s i)"

abbreviation step :: "redisServer \<Rightarrow> redisServer \<Rightarrow> bool" where
  "step \<equiv> changes (\<lambda>i. 0)"

definition at :: "oid \<Rightarrow> int \<Rightarrow> oid \<Rightarrow> int" where
  "at j n i = (if i = j then n else 0)"

lemma refs_split: "refs s i = other_refs s i + db_total s i"
  by (simp add: refs_def other_refs_def db_total_def)

lemma unflagD:
  assumes "unflag a = unflag b"
  shows "c_fd a = c_fd b" "c_db a = c_db b" "c_repl_idle a = c_repl_idle b" "c_ae_ok a = c_ae_ok b" "c_argv a = c_argv b"
    "c_cmd a = c_cmd b" "c_buf a = c_buf b" "c_reply a = c_reply b" "c_mstate a = c_mstate b"
    "c_watched_keys a = c_watched_keys b" "c_pubsub_channels a = c_pubsub_channels b" "c_pubsub_patterns a = c_pubsub_patterns b"
    "client_refs a = client_refs b" "accepts a = accepts b" "f \<noteq> REDIS_DIRTY_CAS \<Longrightarrow> f \<in> c_flags a \<longleftrightarrow> f \<in> c_flags b"
proof -
  have e: "c_flags a - {REDIS_DIRTY_CAS} = c_flags b - {REDIS_DIRTY_CAS}"
    using assms by (metis redisClient.select_convs(3) redisClient.surjective redisClient.update_convs(3) unflag_def)
  show fs: "c_fd a = c_fd b" "c_db a = c_db b" "c_repl_idle a = c_repl_idle b" "c_ae_ok a = c_ae_ok b" "c_argv a = c_argv b"
    "c_cmd a = c_cmd b" "c_buf a = c_buf b" "c_reply a = c_reply b" "c_mstate a = c_mstate b"
    "c_watched_keys a = c_watched_keys b" "c_pubsub_channels a = c_pubsub_channels b" "c_pubsub_patterns a = c_pubsub_patterns b"
    using assms by (cases a; cases b; simp add: unflag_def)+
  show f: "f \<noteq> REDIS_DIRTY_CAS \<Longrightarrow> f \<in> c_flags a \<longleftrightarrow> f \<in> c_flags b" for f using e by auto
  show "client_refs a = client_refs b" by (simp add: fun_eq_iff client_refs_def fs)
  show "accepts a = accepts b" by (simp add: accepts_def fs f)
qed

lemma frameD:
  assumes "frame s s'"
  shows "nclients s' = nclients s" "dbnum s' = dbnum s" "mstime s' = mstime s" "loading s' = loading s"
    "masterhost s' = masterhost s" "maxmemory s' = maxmemory s" "notify_keyspace_events s' = notify_keyspace_events s"
    "slowlog s' = slowlog s" "pubsub_channels s' = pubsub_channels s" "pubsub_patterns s' = pubsub_patterns s"
    "db_watched_keys (dbs s' d) = db_watched_keys (dbs s d)" "unflag (clients s' c) = unflag (clients s c)"
    "c_flags (clients s c) \<subseteq> c_flags (clients s' c)"
  using assms by (auto simp: frame_def settings_def)

lemmas frame_client = unflagD [OF frameD(12)]

lemma frame_refl: "frame s s"
  by (simp add: frame_def)

lemma frame_trans: "frame s s1 \<Longrightarrow> frame s1 s2 \<Longrightarrow> frame s s2"
  unfolding frame_def by (metis order_trans)

lemma frame_other_refs: "frame s s' \<Longrightarrow> other_refs s' i = other_refs s i"
  by (simp add: other_refs_def frameD frame_client(13) [of s s'] pubsub_refs_def)

lemma changes_trans:
  assumes "changes \<delta> s s1" "changes \<epsilon> s1 s2" "\<And>i. 0 \<le> \<delta> i \<or> \<epsilon> i \<le> 0" "\<And>i. \<delta> i + \<epsilon> i = \<gamma> i"
  shows "changes \<gamma> s s2"
proof -
  have f: "frame s s2" using assms(1,2) frame_trans unfolding changes_def by blast
  have "ext s2 i = ext s i + \<gamma> i \<and> oview s2 i = oview s i" if "0 < ext s i" "0 < ext s i + \<gamma> i" for i
  proof -
    have "0 < ext s i + \<delta> i" using that assms(3,4) [of i] by linarith
    then have 1: "ext s1 i = ext s i + \<delta> i" "oview s1 i = oview s i" using assms(1) that(1) by (auto simp: changes_def)
    then have "0 < ext s1 i" "0 < ext s1 i + \<epsilon> i" using \<open>0 < ext s i + \<delta> i\<close> that(2) assms(4) [of i] by auto
    then have "ext s2 i = ext s1 i + \<epsilon> i" "oview s2 i = oview s1 i" using assms(2) by (auto simp: changes_def)
    then show ?thesis using 1 assms(4) [of i] by auto
  qed
  then show ?thesis using f assms(2) by (simp add: changes_def)
qed

lemma step_refl: "good s \<Longrightarrow> step s s"
  by (simp add: changes_def frame_refl)

lemma step_trans: "step s s1 \<Longrightarrow> step s1 s2 \<Longrightarrow> step s s2"
  by (rule changes_trans) auto

lemma stepD:
  assumes "changes \<delta> s s'"
  shows "good s'" "frame s s'"
  using assms by (auto simp: changes_def)

lemma goodD:
  assumes "good s"
  shows "server_inv s" "db_ok s" "notify_keyspace_events s = 0"
  using assms by (auto simp: good_def)

lemma good_notify [simp]: "good s \<Longrightarrow> notifyKeyspaceEvent t e i d s = Some s"
  by (simp add: notifyKeyspaceEvent_def good_def)

subsection \<open>Objects that are not only in a database\<close>

lemma ext_live: "0 < ext s i \<Longrightarrow> \<exists>ob. objs s i = Some ob"
  by (auto simp: ext_def split: option.splits)

lemma ext_inv:
  assumes "server_inv s"
  shows "int (other_refs s i) \<le> ext s i"
proof (cases "objs s i")
  case None
  then show ?thesis using server_invD(2) [OF assms, of i] by (simp add: counted_def refs_split ext_def)
next
  case (Some ob)
  then show ?thesis using live(2) [OF assms Some] by (simp add: refs_split ext_def)
qed

lemma owned_iff:
  assumes "server_inv s"
  shows "owned s i \<longleftrightarrow> (\<exists>ob. objs s i = Some ob \<and> int (refs s i) < refcount ob)"
  by (auto simp: owned_def ext_def refs_split split: option.splits)

lemma owned_ext: "owned s i \<Longrightarrow> 0 < ext s i"
  by (simp add: owned_def)

lemma client_ext:
  assumes "server_inv s" "c < nclients s" "0 < client_refs (clients s c) i"
  shows "0 < ext s i"
proof -
  have "client_refs (clients s c) i \<le> (\<Sum>x<nclients s. client_refs (clients s x) i)"
    by (rule member_le_sum_nat) (use assms(2) in auto)
  then have "0 < other_refs s i" using assms(3) unfolding other_refs_def by linarith
  then show ?thesis using ext_inv [OF assms(1), of i] by linarith
qed

lemma argv_ext:
  assumes "server_inv s" "c < nclients s" "i \<in> set (c_argv (clients s c))"
  shows "0 < ext s i"
  by (rule client_ext [OF assms(1,2)])
    (use assms(3) count_list_0_iff [of "c_argv (clients s c)" i] in \<open>simp add: client_refs_def\<close>)

lemma reply_ext:
  assumes "server_inv s" "c < nclients s" "i \<in> set (c_reply (clients s c))"
  shows "0 < ext s i"
  by (rule client_ext [OF assms(1,2)])
    (use assms(3) count_list_0_iff [of "c_reply (clients s c)" i] in \<open>simp add: client_refs_def\<close>)

lemma step_oview: "step s s' \<Longrightarrow> 0 < ext s i \<Longrightarrow> oview s' i = oview s i \<and> ext s' i = ext s i"
  by (simp add: changes_def)

lemma oviewD: "oview s' i = oview s i \<Longrightarrow> vals s' i = vals s i" "oview s' i = oview s i \<Longrightarrow> sds_at s' i = sds_at s i"
  by (simp_all add: oview_def)

lemma step_owned:
  assumes "step s s'" "owned s i"
  shows "owned s' i"
proof -
  have "ext s' i = ext s i" using step_oview [OF assms(1) owned_ext [OF assms(2)]] by simp
  then show ?thesis using assms(2) frame_other_refs [OF stepD(2) [OF assms(1)], of i] by (simp add: owned_def)
qed

lemma step_out:
  assumes "step s s'" "good s" "c < nclients s"
  shows "out s' c = out s c"
proof (rule out_update_obj)
  fix i assume "i \<in> set (c_reply (clients s c))"
  then have "0 < ext s i" using reply_ext assms goodD by blast
  then show "vals s' i = vals s i" using step_oview [OF assms(1)] oviewD by blast
qed (use frame_client [OF stepD(2) [OF assms(1)]] in auto)

lemma step_ready: "step s s' \<Longrightarrow> ready c s \<Longrightarrow> ready c s'"
  using frame_client(14) [of s s' c] frameD(1) [of s s'] by (auto simp: changes_def ready_def good_def)

lemma step_arg:
  assumes "step s s'"
  shows "arg c n s' = arg c n s" "c_db (clients s' c) = c_db (clients s c)" "c_argv (clients s' c) = c_argv (clients s c)"
  using frame_client(2,5) [OF stepD(2) [OF assms], of c] by (simp_all add: arg_def)

subsection \<open>Elementary steps\<close>

lemma frame_fields:
  "frame s (s\<lparr>objs := os\<rparr>)" "frame s (s\<lparr>objs := os, fresh := n\<rparr>)" "frame s (s\<lparr>dirty := e\<rparr>)" "frame s (s\<lparr>stat_expiredkeys := n1\<rparr>)"
  "frame s (s\<lparr>stat_keyspace_hits := n2\<rparr>)" "frame s (s\<lparr>stat_keyspace_misses := n3\<rparr>)" "frame s (s\<lparr>propagated := p\<rparr>)"
  "frame s (set_dict d k v s)" "frame s (set_expires d k w s)" "frame s (update_obj i ob s)"
  by (simp_all add: frame_def settings_def set_dict_def set_expires_def update_db_def update_obj_def)

lemma good_frame: "good s \<Longrightarrow> frame s s' \<Longrightarrow> server_inv s' \<Longrightarrow> db_ok s' \<Longrightarrow> good s'"
  by (simp add: good_def frameD)

text \<open>A change of one object, whose value stays and whose count changes by \<open>e\<close>.\<close>

lemma changes_obj:
  assumes s: "good s" "server_inv s'" "s' = s\<lparr>objs := (objs s)(i := v), fresh := n\<rparr>"
    and ob: "0 < ext s i \<Longrightarrow> 0 < ext s i + e \<Longrightarrow>
      \<exists>ob. objs s i = Some ob \<and> v = Some (ob\<lparr>refcount := refcount ob + e\<rparr>)"
  shows "changes (at i e) s s'"
proof -
  have f: "frame s s'" unfolding s(3) by (rule frame_fields)
  have t: "db_total s' j = db_total s j" for j by (simp add: s(3) db_total_def)
  have o: "objs s' = (objs s)(i := v)" by (simp add: s(3))
  have "ext s' j = ext s j + at i e j \<and> oview s' j = oview s j" if "0 < ext s j" "0 < ext s j + at i e j" for j
  proof (cases "j = i")
    case True
    then have "0 < ext s i" "0 < ext s i + e" using that by (simp_all add: at_def)
    then obtain ob where "objs s i = Some ob" "v = Some (ob\<lparr>refcount := refcount ob + e\<rparr>)" using ob by blast
    then show ?thesis using True by (simp add: ext_def at_def oview_def vals_def sds_at_def o t)
  next
    case False
    then show ?thesis by (simp add: ext_def at_def oview_def vals_def sds_at_def o t split: option.split)
  qed
  moreover have "good s'" using good_frame [OF s(1) f s(2)] goodD(2) [OF s(1)] by (simp add: db_ok_def s(3))
  ultimately show ?thesis using f by (simp add: changes_def)
qed

text \<open>What a step on objects does not touch, and the keys it leaves alone.\<close>

definition same_dbs :: "redisServer \<Rightarrow> redisServer \<Rightarrow> bool" where
  "same_dbs s s' \<longleftrightarrow> dbs s' = dbs s \<and> (\<forall>d<dbnum s. keyspace s' d = keyspace s d)"

lemma same_dbsI:
  assumes "server_inv s" "dbs s' = dbs s" "\<And>i. 0 < refs s i \<Longrightarrow> vals s' i = vals s i"
  shows "same_dbs s s'"
proof -
  have "keyspace s' d k = keyspace s d k" if "d < dbnum s" for d k
  proof (cases "db_dict (dbs s d) k")
    case (Some i)
    then have "0 < refs s i"
      using dict_refs_pos [OF server_invD(4) [OF assms(1) that] Some] dict_refs_le [OF that, of i] by linarith
    then show ?thesis using Some assms(2,3) by (simp add: keyspace_def)
  qed (use assms(2) in \<open>simp add: keyspace_def\<close>)
  then show ?thesis using assms(2) by (auto simp: same_dbs_def)
qed

lemma same_dbs_refl: "same_dbs s s"
  by (simp add: same_dbs_def)

lemma same_dbs_trans: "same_dbs s s1 \<Longrightarrow> dbnum s1 = dbnum s \<Longrightarrow> same_dbs s1 s2 \<Longrightarrow> same_dbs s s2"
  by (simp add: same_dbs_def)

lemma incr_changes:
  assumes "good s" "objs s i = Some ob"
  obtains s' where "incrRefCount i s = Some s'" "changes (at i 1) s s'" "same_dbs s s'" "owned s' i" "vals s' = vals s"
    "objs s' i = Some (ob\<lparr>refcount := refcount ob + 1\<rparr>)"
proof -
  note i = goodD(1) [OF assms(1)]
  let ?ob = "ob\<lparr>refcount := refcount ob + 1\<rparr>"
  let ?s = "update_obj i (Some ?ob) s"
  have v: "vals ?s = vals s" using assms(2) by (auto simp: vals_def update_obj_def)
  have c: "changes (at i 1) s ?s"
    by (rule changes_obj [OF assms(1) inv_incr(2) [OF i assms(2)], where n = "fresh s"]) (use assms(2) in \<open>auto simp: update_obj_def\<close>)
  have "dbs ?s = dbs s" by (simp add: update_obj_def)
  then have "same_dbs s ?s" using same_dbsI [OF i] v by simp
  moreover have "owned ?s i"
    using live(2) [OF i assms(2)] by (subst owned_iff [OF inv_incr(2) [OF i assms(2)]]) (simp add: update_obj_def)
  ultimately show ?thesis using that c v inv_incr(1) [OF i assms(2)] by (simp add: update_obj_def)
qed

lemma decr_changes:
  assumes "good s" "owned s i"
  obtains s' where "decrRefCount i s = Some s'" "changes (at i (-1)) s s'" "same_dbs s s'"
    "\<And>j. 0 < refs s j \<Longrightarrow> vals s' j = vals s j" "\<And>j. j \<noteq> i \<Longrightarrow> objs s' j = objs s j"
proof -
  note i = goodD(1) [OF assms(1)]
  obtain ob where ob: "objs s i = Some ob" "int (refs s i) < refcount ob" using assms(2) by (auto simp: owned_iff [OF i])
  obtain v where v: "decrRefCount i s = Some (update_obj i v s)" "server_inv (update_obj i v s)"
      "v = (if refcount ob = 1 then None else Some (ob\<lparr>refcount := refcount ob - 1\<rparr>))"
    using inv_decr [OF i ob] by blast
  let ?s = "update_obj i v s"
  have c: "changes (at i (-1)) s ?s"
  proof (rule changes_obj [OF assms(1) v(2), where n = "fresh s"])
    assume "0 < ext s i + - 1"
    then have "refcount ob \<noteq> 1" using ob(1) by (auto simp: ext_def)
    then show "\<exists>ob. objs s i = Some ob \<and> v = Some (ob\<lparr>refcount := refcount ob + - 1\<rparr>)" using ob(1) v(3) by simp
  qed (simp add: update_obj_def)
  have l: "vals ?s j = vals s j" if "0 < refs s j" for j
    using that ob v(3) by (auto simp: vals_def update_obj_def)
  have "same_dbs s ?s" by (rule same_dbsI [OF i _ l]) (simp_all add: update_obj_def)
  then show ?thesis using that [OF v(1) c _ l] by (simp add: update_obj_def)
qed

lemma new_changes:
  assumes "good s" "obj_ok ob" "refcount ob = 1" "s' = (update_obj (Dyn (fresh s)) (Some ob) s)\<lparr>fresh := fresh s + 1\<rparr>"
  shows "step s s'" "same_dbs s s'" "owned s' (Dyn (fresh s))" "objs s' (Dyn (fresh s)) = Some ob"
    "\<And>j. 0 < refs s j \<Longrightarrow> vals s' j = vals s j"
proof -
  note i = goodD(1) [OF assms(1)]
  let ?i = "Dyn (fresh s)"
  have inv: "server_inv s'" unfolding assms(4) by (rule inv_new [OF i assms(2)]) (simp add: assms(3))
  have n: "objs s ?i = None" "refs s ?i = 0" using server_invD(1) [OF i] fresh_refs [OF i] by auto
  have "changes (at ?i 0) s s'"
    by (rule changes_obj [OF assms(1) inv, where v = "Some ob" and n = "fresh s + 1"]) (use n in \<open>auto simp: assms(4) update_obj_def ext_def\<close>)
  moreover have "at ?i 0 = (\<lambda>i. 0)" by (simp add: at_def fun_eq_iff)
  ultimately show "step s s'" by simp
  show o: "objs s' ?i = Some ob" by (simp add: assms(4) update_obj_def)
  show l: "\<And>j. 0 < refs s j \<Longrightarrow> vals s' j = vals s j" using n(2) by (auto simp: assms(4) vals_def update_obj_def)
  show "same_dbs s s'" by (rule same_dbsI [OF i _ l]) (simp_all add: assms(4) update_obj_def)
  show "owned s' ?i" using o n(2) assms(3) by (subst owned_iff [OF inv]) (simp add: assms(4))
qed

subsection \<open>Steps on the dicts\<close>

lemma step_fields:
  assumes "good s"
  shows "step s (s\<lparr>dirty := e\<rparr>)" "step s (s\<lparr>stat_expiredkeys := n1\<rparr>)" "step s (s\<lparr>stat_keyspace_hits := n2\<rparr>)"
    "step s (s\<lparr>stat_keyspace_misses := n3\<rparr>)" "step s (s\<lparr>propagated := p\<rparr>)"
  using assms
  by (auto simp: changes_def good_def frame_fields server_inv_def shared_ok_def counted_def db_ok_def ext_def db_total_def
      oview_def sds_at_def split: option.splits)

lemma same_dbs_fields:
  "same_dbs s (s\<lparr>dirty := e\<rparr>)" "same_dbs s (s\<lparr>stat_expiredkeys := n1\<rparr>)" "same_dbs s (s\<lparr>stat_keyspace_hits := n2\<rparr>)"
  "same_dbs s (s\<lparr>stat_keyspace_misses := n3\<rparr>)" "same_dbs s (s\<lparr>propagated := p\<rparr>)"
  by (simp_all add: same_dbs_def keyspace_def fun_eq_iff)

definition is_at :: "oid option \<Rightarrow> oid \<Rightarrow> int" where
  "is_at v i = (if v = Some i then 1 else 0)"

lemma db_refs_set_dict:
  assumes "finite (dom (db_dict b))"
  shows "int (db_refs (b\<lparr>db_dict := (db_dict b)(k := v)\<rparr>) i) = int (db_refs b i) + is_at v i - is_at (db_dict b k) i"
proof (cases v)
  case None
  then show ?thesis using dict_refs_del [OF assms, of k i] by (simp add: db_refs_def is_at_def split: if_splits)
next
  case (Some j)
  then show ?thesis using dict_refs_upd [OF assms, of k j i] by (simp add: db_refs_def is_at_def split: if_splits)
qed

lemma set_dict_fields:
  "objs (set_dict d k v s) = objs s" "fresh (set_dict d k v s) = fresh s" "clients (set_dict d k v s) = clients s"
  "dbnum (set_dict d k v s) = dbnum s" "vals (set_dict d k v s) = vals s" "sds_at (set_dict d k v s) = sds_at s"
  "dbs (set_dict d k v s) d' = (if d' = d then (dbs s d)\<lparr>db_dict := (db_dict (dbs s d))(k := v)\<rparr> else dbs s d')"
  by (simp_all add: set_dict_def update_db_def vals_def sds_at_def fun_eq_iff)

lemma set_expires_fields:
  "objs (set_expires d k w s) = objs s" "fresh (set_expires d k w s) = fresh s" "clients (set_expires d k w s) = clients s"
  "dbnum (set_expires d k w s) = dbnum s" "vals (set_expires d k w s) = vals s" "sds_at (set_expires d k w s) = sds_at s"
  "dbs (set_expires d k w s) d' = (if d' = d then (dbs s d)\<lparr>db_expires := (db_expires (dbs s d))(k := w)\<rparr> else dbs s d')"
  by (simp_all add: set_expires_def update_db_def vals_def sds_at_def fun_eq_iff)

lemma set_dict_total:
  assumes "server_inv s" "d < dbnum s"
  shows "int (db_total (set_dict d k v s) i) = int (db_total s i) + is_at v i - is_at (db_dict (dbs s d) k) i"
proof -
  let ?s = "set_dict d k v s"
  have "db_total ?s i + db_refs (dbs s d) i = db_total s i + db_refs (dbs ?s d) i"
    using sum_fun_upd [of "{..<dbnum s}" d "\<lambda>b. db_refs b i" "dbs s" "dbs ?s d"] assms(2)
    by (simp add: db_total_def set_dict_def update_db_def)
  then show ?thesis
    using db_refs_set_dict [OF server_invD(4) [OF assms], of k v i] by (simp add: set_dict_fields)
qed

lemma set_dict_ext:
  assumes "server_inv s" "d < dbnum s" "objs s i = Some ob"
  shows "ext (set_dict d k v s) i = ext s i + (is_at (db_dict (dbs s d) k) i - is_at v i)"
  using set_dict_total [OF assms(1,2), of k v i] assms(3) by (simp add: ext_def set_dict_fields)

lemma set_dict_changes:
  assumes s: "good s" "d < dbnum s" and v: "\<And>j. v = Some j \<Longrightarrow> owned s j" "v = None \<Longrightarrow> db_expires (dbs s d) k = None"
  shows "changes (\<lambda>i. is_at (db_dict (dbs s d) k) i - is_at v i) s (set_dict d k v s)"
proof -
  let ?s = "set_dict d k v s" and ?o = "db_dict (dbs s d) k"
  note i = goodD(1) [OF s(1)]
  note t = set_dict_total [OF i s(2), of k v]
  have f: "frame s ?s" by (rule frame_fields)
  have r: "int (refs ?s i) = int (refs s i) + is_at v i - is_at ?o i" for i
    using t [of i] frame_other_refs [OF f, of i] by (simp add: refs_split)
  have "counted ?s j" for j
  proof -
    have "int (refs ?s j) \<le> refcount ob" if "objs s j = Some ob" for ob
      using that r [of j] live(2) [OF i that] v(1) [of j] by (auto simp: is_at_def owned_iff [OF i] split: if_splits)
    moreover have "refs ?s j = 0" if "objs s j = None"
      using that r [of j] server_invD(2) [OF i, of j] v(1) [of j] by (auto simp: counted_def is_at_def owned_iff [OF i] split: if_splits)
    ultimately show ?thesis using live(1,3) [OF i] by (auto simp: counted_def set_dict_fields)
  qed
  moreover have "finite (dom (db_dict (dbs ?s d')))" "finite (dom (db_watched_keys (dbs ?s d')))" if "d' < dbnum s" for d'
    using server_invD(4,5) [OF i that] by (auto simp: set_dict_fields)
  ultimately have inv: "server_inv ?s"
    using i by (simp add: server_inv_def shared_ok_def set_dict_fields)
  have "db_ok ?s" using goodD(2) [OF s(1)] v(2) by (cases v) (auto simp: db_ok_def set_dict_fields)
  then have "good ?s" by (rule good_frame [OF s(1) f inv])
  moreover have "ext ?s i = ext s i + (is_at ?o i - is_at v i)" if "0 < ext s i" for i
    using ext_live [OF that] set_dict_ext [OF i s(2)] by blast
  ultimately show ?thesis using f by (simp add: changes_def oview_def set_dict_fields)
qed

lemma set_expires_step:
  assumes "good s" "w \<noteq> None \<Longrightarrow> db_dict (dbs s d) k \<noteq> None"
  shows "step s (set_expires d k w s)"
proof -
  let ?s = "set_expires d k w s"
  have t: "db_total ?s i = db_total s i" for i
    unfolding db_total_def by (rule sum.cong) (simp_all add: set_expires_fields db_refs_def)
  have f: "frame s ?s" by (rule frame_fields)
  have r: "refs ?s i = refs s i" for i using t [of i] frame_other_refs [OF f, of i] by (simp add: refs_split)
  have "server_inv ?s"
    using goodD(1) [OF assms(1)] by (auto simp: server_inv_def shared_ok_def counted_def set_expires_fields r)
  moreover have "db_ok ?s" using goodD(2) [OF assms(1)] assms(2) by (auto simp: db_ok_def set_expires_fields split: if_splits)
  ultimately have "good ?s" by (rule good_frame [OF assms(1) f])
  then show ?thesis
    using f t by (auto simp: changes_def oview_def set_expires_fields ext_def split: option.splits)
qed

lemma set_dirty_step:
  assumes "good s"
  shows "step s (set_dirty_cas c s)" "same_dbs s (set_dirty_cas c s)"
    "REDIS_DIRTY_CAS \<in> c_flags (clients (set_dirty_cas c s) c)"
proof -
  let ?s = "set_dirty_cas c s"
  have u: "unflag (clients ?s c') = unflag (clients s c') \<and> c_flags (clients s c') \<subseteq> c_flags (clients ?s c')" for c'
    by (auto simp: set_dirty_cas_def update_client_def unflag_def)
  have f: "frame s ?s" using u by (simp add: frame_def) (simp add: set_dirty_cas_def update_client_def settings_def)
  have o: "objs ?s = objs s" "dbs ?s = dbs s" "dbnum ?s = dbnum s" "fresh ?s = fresh s"
    by (simp_all add: set_dirty_cas_def update_client_def)
  have t: "db_total ?s i = db_total s i" for i by (simp add: db_total_def o)
  have r: "refs ?s i = refs s i" for i using t [of i] frame_other_refs [OF f, of i] by (simp add: refs_split)
  have "server_inv ?s" using goodD(1) [OF assms] by (auto simp: server_inv_def shared_ok_def counted_def o r)
  then have "good ?s" by (rule good_frame [OF assms f]) (use goodD(2) [OF assms] in \<open>simp add: db_ok_def o\<close>)
  then show "step s ?s"
    using f t by (auto simp: changes_def oview_def vals_def sds_at_def o ext_def split: option.splits)
  have "vals ?s = vals s" by (simp add: set_dirty_cas_def)
  then show "same_dbs s ?s" by (intro same_dbsI [OF goodD(1) [OF assms]]) (simp_all add: o)
  show "REDIS_DIRTY_CAS \<in> c_flags (clients ?s c)" by (simp add: set_dirty_cas_def update_client_def)
qed

lemma fold_dirty_step:
  assumes "good s"
  shows "step s (fold set_dirty_cas cs s) \<and> same_dbs s (fold set_dirty_cas cs s) \<and>
    (\<forall>c\<in>set cs. REDIS_DIRTY_CAS \<in> c_flags (clients (fold set_dirty_cas cs s) c))"
  using assms
proof (induction cs arbitrary: s)
  case Nil
  then show ?case by (simp add: step_refl same_dbs_refl)
next
  case (Cons c cs)
  note 1 = set_dirty_step [OF Cons.prems, of c]
  note 2 = Cons.IH [OF stepD(1) [OF 1(1)]]
  have "REDIS_DIRTY_CAS \<in> c_flags (clients (fold set_dirty_cas cs (set_dirty_cas c s)) c)"
    using 1(3) frameD(13) [OF stepD(2) [OF conjunct1 [OF 2]], of c] by blast
  moreover have "dbnum (set_dirty_cas c s) = dbnum s" using frameD(2) [OF stepD(2) [OF 1(1)]] .
  ultimately show ?case
    using 2 step_trans [OF 1(1)] same_dbs_trans [OF 1(2)] by auto
qed

lemma touch_step:
  assumes "good s" "sds_at s i = Some k"
  obtains s' where "signalModifiedKey d i s = Some s'" "step s s'" "same_dbs s s'"
    "\<And>ko cs c. db_watched_keys (dbs s d) k = Some (ko, cs) \<Longrightarrow> c \<in> set cs \<Longrightarrow> REDIS_DIRTY_CAS \<in> c_flags (clients s' c)"
proof (cases "db_watched_keys (dbs s d) k")
  case None
  then show ?thesis using that [of s] assms by (simp add: signalModifiedKey_def touchWatchedKey_def step_refl same_dbs_refl)
next
  case (Some x)
  obtain ko cs where x: "x = (ko, cs)" by (cases x)
  then show ?thesis
    using that [of "fold set_dirty_cas cs s"] fold_dirty_step [OF assms(1), of cs] Some assms(2)
    by (simp add: signalModifiedKey_def touchWatchedKey_def)
qed

subsection \<open>Stores\<close>

definition expired :: "redisServer \<Rightarrow> int option \<Rightarrow> bool" where
  "expired s w \<longleftrightarrow> (case w of None \<Rightarrow> False | Some t \<Rightarrow> 0 \<le> t \<and> t < mstime s \<and> \<not> loading s \<and> \<not> masterhost s)"

definition entry :: "redisServer \<Rightarrow> val option \<Rightarrow> int option \<Rightarrow> (val \<times> int option) option" where
  "entry s v w = (case v of None \<Rightarrow> None | Some x \<Rightarrow> if expired s w then None else Some (x, w))"

definition store :: "redisServer \<Rightarrow> dbid \<Rightarrow> bytes \<Rightarrow> (val \<times> int option) option" where
  "store s d k = entry s (keyspace s d k) (db_expires (dbs s d) k)"

text \<open>The databases after a step on database \<open>d\<close>, and their stores.\<close>

definition becomes :: "redisServer \<Rightarrow> redisServer \<Rightarrow> dbid \<Rightarrow> (bytes \<Rightarrow> val option) \<Rightarrow> (bytes \<Rightarrow> int option) \<Rightarrow> bool" where
  "becomes s s' d m e \<longleftrightarrow>
     (\<forall>d'<dbnum s. keyspace s' d' = (if d' = d then m else keyspace s d') \<and>
       db_expires (dbs s' d') = (if d' = d then e else db_expires (dbs s d')))"

definition stores :: "redisServer \<Rightarrow> redisServer \<Rightarrow> dbid \<Rightarrow> (bytes \<Rightarrow> (val \<times> int option) option) \<Rightarrow> bool" where
  "stores s s' d f \<longleftrightarrow> (\<forall>d'<dbnum s. store s' d' = (if d' = d then f else store s d'))"

definition named :: "redisServer \<Rightarrow> oid \<Rightarrow> bytes \<Rightarrow> bool" where
  "named s i k \<longleftrightarrow> 0 < ext s i \<and> sds_at s i = Some k"

lemma entry_simps [simp]: "entry s None w = None" "entry s (Some x) None = Some (x, None)"
  by (simp_all add: entry_def expired_def)

lemma named_step: "named s i k \<Longrightarrow> step s s' \<Longrightarrow> named s' i k"
  using step_oview [of s s' i] by (auto simp: named_def oview_def)

lemma named_sds: "named s i k \<Longrightarrow> sds_at s i = Some k"
  by (simp add: named_def)

lemma named_obj:
  assumes "server_inv s" "named s i k"
  obtains ob where "objs s i = Some ob" "is_str ob" "sdsEncodedObject ob" "ob_ptr ob = Sds k" "0 < refcount ob"
proof -
  obtain ob where ob: "objs s i = Some ob" using assms(2) ext_live by (auto simp: named_def)
  have "obj_sds ob = Some k" using assms(2) ob by (simp add: named_def sds_at_def)
  then have "ob_ptr ob = Sds k" by (cases "ob_ptr ob") (auto simp: obj_sds_def)
  then show ?thesis using that [OF ob] live(1,3) [OF assms(1) ob] by (auto simp: obj_ok_def split: if_splits)
qed

lemma expired_frame: "frame s s' \<Longrightarrow> expired s' w = expired s w"
  by (cases w) (simp_all add: expired_def frameD)

lemma entry_frame: "frame s s' \<Longrightarrow> entry s' v w = entry s v w"
  by (cases v) (simp_all add: entry_def expired_frame)

lemma becomes_same: "same_dbs s s' \<Longrightarrow> becomes s s' d (keyspace s d) (db_expires (dbs s d))"
  by (simp add: same_dbs_def becomes_def)

lemma becomes_trans:
  assumes "becomes s s1 d m1 e1" "frame s s1" "becomes s1 s2 d m2 e2"
  shows "becomes s s2 d m2 e2"
  using assms frameD(2) [OF assms(2)] by (simp add: becomes_def)

lemma becomes_d: "becomes s s' d m e \<Longrightarrow> d < dbnum s \<Longrightarrow> keyspace s' d = m \<and> db_expires (dbs s' d) = e"
  by (simp add: becomes_def)

lemma becomes_stores:
  assumes "becomes s s' d m e" "frame s s'" "d < dbnum s" "\<And>k. entry s (m k) (e k) = f k"
  shows "stores s s' d f"
  using assms(1,3,4) by (simp add: becomes_def stores_def store_def entry_frame [OF assms(2)] fun_eq_iff)

lemma stores_same: "same_dbs s s' \<Longrightarrow> frame s s' \<Longrightarrow> d < dbnum s \<Longrightarrow> stores s s' d (store s d)"
  by (rule becomes_stores [OF becomes_same]) (auto simp: store_def)

lemma stores_trans:
  assumes "stores s s1 d f1" "frame s s1" "stores s1 s2 d f2"
  shows "stores s s2 d f2"
  using assms frameD(2) [OF assms(2)] by (simp add: stores_def)

lemma stores_d: "stores s s' d f \<Longrightarrow> d < dbnum s \<Longrightarrow> store s' d = f"
  by (simp add: stores_def)

lemma keyspace_dict:
  assumes "server_inv s" "d < dbnum s"
  shows "keyspace s d k = None \<longleftrightarrow> db_dict (dbs s d) k = None"
proof (cases "db_dict (dbs s d) k")
  case (Some i)
  then have "0 < refs s i"
    using dict_refs_pos [OF server_invD(4) [OF assms] Some] dict_refs_le [OF assms(2), of i] by linarith
  then obtain ob where "objs s i = Some ob" using referenced [OF assms(1)] by blast
  then show ?thesis using Some by (simp add: keyspace_def vals_def)
qed (simp add: keyspace_def)

lemma keyspace_set_dict:
  "keyspace (set_dict d k v s) d' = (if d' = d then (keyspace s d)(k := v \<bind> vals s) else keyspace s d')"
  by (auto simp: keyspace_def set_dict_fields fun_eq_iff)

lemma keyspace_set_expires: "keyspace (set_expires d k w s) = keyspace s"
  by (simp add: keyspace_def fun_eq_iff set_expires_fields)

subsection \<open>Deletion and expiration\<close>

lemma dbDelete_step:
  assumes s: "good s" "d < dbnum s" "named s i k"
  obtains s' where "dbDelete d i s = Some (keyspace s d k \<noteq> None, s')" "step s s'"
    "becomes s s' d ((keyspace s d)(k := None)) ((db_expires (dbs s d))(k := None))"
proof -
  note i = goodD(1) [OF s(1)]
  let ?s1 = "set_expires d k None s"
  have 1: "step s ?s1" by (rule set_expires_step [OF s(1)]) simp
  have g1: "good ?s1" "d < dbnum ?s1" using stepD(1) [OF 1] s(2) by (simp_all add: set_expires_fields)
  note ks = keyspace_set_expires [of d k None s]
  show ?thesis
  proof (cases "db_dict (dbs s d) k")
    case None
    have b: "becomes s ?s1 d ((keyspace s d)(k := None)) ((db_expires (dbs s d))(k := None))"
      using None keyspace_dict [OF i s(2), of k] by (simp add: becomes_def ks set_expires_fields fun_upd_idem)
    show ?thesis
      by (rule that [OF _ 1 b]) (use None s(3) keyspace_dict [OF i s(2), of k] in \<open>simp add: dbDelete_def named_sds set_expires_fields\<close>)
  next
    case (Some j)
    let ?s2 = "set_dict d k None ?s1"
    have d1: "db_dict (dbs ?s1 d) k = Some j" using Some by (simp add: set_expires_fields)
    have 2: "changes (\<lambda>x. is_at (Some j) x - is_at None x) ?s1 ?s2"
      using set_dict_changes [OF g1, of None k] d1 by (simp add: set_expires_fields)
    have "owned ?s2 j"
    proof -
      have "0 < refs ?s1 j"
        using dict_refs_pos [OF server_invD(4) [OF goodD(1) [OF g1(1)] g1(2)] d1] dict_refs_le [OF g1(2), of j] by linarith
      then obtain ob where ob: "objs ?s1 j = Some ob" using referenced [OF goodD(1) [OF g1(1)]] by blast
      then have "ext ?s2 j = ext ?s1 j + 1"
        using set_dict_ext [OF goodD(1) [OF g1(1)] g1(2) ob, of k None] d1 by (simp add: is_at_def)
      then show ?thesis using ext_inv [OF goodD(1) [OF g1(1)], of j] frame_other_refs [OF stepD(2) [OF 2], of j] by (simp add: owned_def)
    qed
    then obtain s3 where s3: "decrRefCount j ?s2 = Some s3" "changes (at j (-1)) ?s2 s3" "same_dbs ?s2 s3"
      using decr_changes [OF stepD(1) [OF 2]] by metis
    have 3: "step ?s1 s3" by (rule changes_trans [OF 2 s3(2)]) (auto simp: is_at_def at_def)
    have b: "becomes s s3 d ((keyspace s d)(k := None)) ((db_expires (dbs s d))(k := None))"
      using s3(3) by (simp add: becomes_def same_dbs_def keyspace_set_dict ks set_dict_fields set_expires_fields)
    show ?thesis
      by (rule that [OF _ step_trans [OF 1 3] b])
        (use d1 Some s(3) s3(1) keyspace_dict [OF i s(2), of k] in \<open>simp add: dbDelete_def named_sds\<close>)
  qed
qed

lemma propagateExpire_eq:
  assumes s: "server_inv s" "named s i k"
  shows "propagateExpire d i s = Some (s\<lparr>propagated := propagated s @ [(d, [''DEL'', k])]\<rparr>)"
proof -
  obtain ob where ob: "objs s i = Some ob" "is_str ob" "sdsEncodedObject ob" "ob_ptr ob = Sds k" "0 < refcount ob"
    using named_obj [OF s] .
  obtain r where "objs s (Shared S_del) = Some
      (\<lparr>ob_type = REDIS_STRING, ob_enc = REDIS_ENCODING_EMBSTR, refcount = 1, ob_ptr = Sds ''DEL''\<rparr>\<lparr>refcount := r\<rparr>)"
    using shared_obj [OF s(1), of S_del] by (auto simp: embedded_shared_def)
  then have sh: "objs s (Shared S_del) = Some \<lparr>ob_type = REDIS_STRING, ob_enc = REDIS_ENCODING_EMBSTR, refcount = r, ob_ptr = Sds ''DEL''\<rparr>"
    by simp
  have r: "0 < r" using live(3) [OF s(1) sh] by simp
  note d = propagateExpire_def incrRefCount_def decrRefCount_def update_obj_def obj_str_def string_chars_def obj_sds_def
  show ?thesis
  proof (cases "i = Shared S_del")
    case True
    then have "(objs s)(Shared S_del \<mapsto> ob) = objs s" using ob(1) by auto
    then show ?thesis using True ob sh r by (auto simp: d sdsEncodedObject_def)
  next
    case False
    then show ?thesis using ob sh r by (simp add: d sdsEncodedObject_def fun_upd_twist fun_upd_idem)
  qed
qed

lemma expireIfNeeded_step:
  assumes s: "good s" "d < dbnum s" "named s i k"
  obtains b s' where "expireIfNeeded d i s = Some (b, s')" "step s s'" "stores s s' d (store s d)"
    "\<not> expired s' (db_expires (dbs s' d) k)"
proof -
  note i = goodD(1) [OF s(1)] and result = that
  have stay: thesis if "expireIfNeeded d i s = Some (b, s)" "\<not> expired s (db_expires (dbs s d) k)" for b
    by (rule result [OF that(1) step_refl [OF s(1)] stores_same [OF same_dbs_refl frame_refl s(2)] that(2)])
  show ?thesis
  proof (cases "db_expires (dbs s d) k")
    case None
    then show ?thesis using stay [of False] s(3) by (simp add: expireIfNeeded_def getExpire_def named_sds expired_def)
  next
    case (Some w)
    then have dk: "db_dict (dbs s d) k \<noteq> None" using goodD(2) [OF s(1)] s(2) by (auto simp: db_ok_def)
    have g: "getExpire d i s = Some w" using Some dk s(3) by (simp add: getExpire_def named_sds)
    show ?thesis
    proof (cases "expired s (Some w)")
      case False
      then have "\<exists>b. expireIfNeeded d i s = Some (b, s)" using g by (auto simp: expireIfNeeded_def expired_def)
      then show ?thesis using stay False Some by auto
    next
      case True
      let ?s1 = "(s\<lparr>stat_expiredkeys := stat_expiredkeys s + 1\<rparr>)\<lparr>propagated := propagated s @ [(d, [''DEL'', k])]\<rparr>"
      have 1: "step s (s\<lparr>stat_expiredkeys := stat_expiredkeys s + 1\<rparr>)" by (rule step_fields [OF s(1)])
      have 2: "step (s\<lparr>stat_expiredkeys := stat_expiredkeys s + 1\<rparr>) ?s1" by (rule step_fields [OF stepD(1) [OF 1]])
      note st = step_trans [OF 1 2]
      have p: "propagateExpire d i (s\<lparr>stat_expiredkeys := stat_expiredkeys s + 1\<rparr>) = Some ?s1"
        using propagateExpire_eq [OF goodD(1) [OF stepD(1) [OF 1]] named_step [OF s(3) 1], of d] by simp
      have d1: "d < dbnum ?s1" using s(2) by simp
      obtain s2 where s2: "dbDelete d i ?s1 = Some (keyspace ?s1 d k \<noteq> None, s2)" "step ?s1 s2"
          "becomes ?s1 s2 d ((keyspace ?s1 d)(k := None)) ((db_expires (dbs ?s1 d))(k := None))"
        using dbDelete_step [OF stepD(1) [OF st] d1 named_step [OF s(3) st]] .
      have e: "expireIfNeeded d i s = Some (keyspace ?s1 d k \<noteq> None, s2)"
        using True g p s2(1) good_notify [OF stepD(1) [OF st]] by (simp add: expireIfNeeded_def expired_def)
      have same: "same_dbs s ?s1" by (simp add: same_dbs_def keyspace_def fun_eq_iff)
      have b: "becomes s s2 d ((keyspace s d)(k := None)) ((db_expires (dbs s d))(k := None))"
        using becomes_trans [OF becomes_same [OF same] stepD(2) [OF st] s2(3)] s(2) same by (simp add: same_dbs_def)
      have f: "frame s s2" by (rule stepD(2) [OF step_trans [OF st s2(2)]])
      have "stores s s2 d (store s d)"
        by (rule becomes_stores [OF b f s(2)]) (use True Some in \<open>auto simp: store_def entry_def split: option.splits\<close>)
      moreover have "\<not> expired s2 (db_expires (dbs s2 d) k)" using becomes_d [OF b s(2)] by (simp add: expired_def)
      ultimately show ?thesis using that [OF e step_trans [OF st s2(2)]] by blast
    qed
  qed
qed

subsection \<open>Lookups\<close>

lemma lookup_found:
  assumes "server_inv s" "d < dbnum s" "\<not> expired s (db_expires (dbs s d) k)" "named s i k"
  shows "lookupKey d i s = Some (db_dict (dbs s d) k)"
    "db_dict (dbs s d) k = None \<longleftrightarrow> store s d k = None"
    "db_dict (dbs s d) k = Some j \<Longrightarrow> \<exists>x. vals s j = Some x \<and> store s d k = Some (x, db_expires (dbs s d) k)"
proof -
  show "lookupKey d i s = Some (db_dict (dbs s d) k)" using assms(4) by (simp add: lookupKey_def named_sds)
  show 1: "db_dict (dbs s d) k = None \<longleftrightarrow> store s d k = None"
    using keyspace_dict [OF assms(1,2), of k] assms(3) by (auto simp: store_def entry_def split: option.splits)
  show "db_dict (dbs s d) k = Some j \<Longrightarrow> \<exists>x. vals s j = Some x \<and> store s d k = Some (x, db_expires (dbs s d) k)"
    using 1 assms(3) by (auto simp: store_def entry_def keyspace_def split: option.splits)
qed

text \<open>After a lookup, the dict has exactly what the store shows at the key.\<close>

definition looked_up :: "redisServer \<Rightarrow> dbid \<Rightarrow> bytes \<Rightarrow> oid option \<Rightarrow> bool" where
  "looked_up s d k v \<longleftrightarrow>
     db_dict (dbs s d) k = v \<and> \<not> expired s (db_expires (dbs s d) k) \<and> (v = None \<longleftrightarrow> store s d k = None) \<and>
     (\<forall>j. v = Some j \<longrightarrow> (\<exists>x. vals s j = Some x \<and> store s d k = Some (x, db_expires (dbs s d) k)))"

lemma lookupKeyWrite_step:
  assumes s: "good s" "d < dbnum s" "named s i k"
  obtains v s' where "lookupKeyWrite d i s = Some (v, s')" "step s s'" "stores s s' d (store s d)" "looked_up s' d k v"
proof -
  obtain b s1 where 1: "expireIfNeeded d i s = Some (b, s1)" "step s s1" "stores s s1 d (store s d)"
      "\<not> expired s1 (db_expires (dbs s1 d) k)"
    using expireIfNeeded_step [OF s] .
  have d1: "d < dbnum s1" using s(2) frameD(2) [OF stepD(2) [OF 1(2)]] by simp
  note l = lookup_found [OF goodD(1) [OF stepD(1) [OF 1(2)]] d1 1(4) named_step [OF s(3) 1(2)]]
  show ?thesis
    by (rule that [OF _ 1(2,3)]) (use 1(1,4) l in \<open>auto simp: lookupKeyWrite_def looked_up_def\<close>)
qed

lemma lookupKeyRead_step:
  assumes s: "good s" "d < dbnum s" "named s i k"
  obtains v s' where "lookupKeyRead d i s = Some (v, s')" "step s s'" "stores s s' d (store s d)" "looked_up s' d k v"
proof -
  obtain b s1 where 1: "expireIfNeeded d i s = Some (b, s1)" "step s s1" "stores s s1 d (store s d)"
      "\<not> expired s1 (db_expires (dbs s1 d) k)"
    using expireIfNeeded_step [OF s] .
  have d1: "d < dbnum s1" using s(2) frameD(2) [OF stepD(2) [OF 1(2)]] by simp
  note l = lookup_found [OF goodD(1) [OF stepD(1) [OF 1(2)]] d1 1(4) named_step [OF s(3) 1(2)]]
  define v where "v = db_dict (dbs s1 d) k"
  define s2 where "s2 = (if v = None then s1\<lparr>stat_keyspace_misses := stat_keyspace_misses s1 + 1\<rparr>
    else s1\<lparr>stat_keyspace_hits := stat_keyspace_hits s1 + 1\<rparr>)"
  have 2: "step s1 s2" "same_dbs s1 s2" "vals s2 = vals s1"
    using step_fields [OF stepD(1) [OF 1(2)]] by (simp_all add: s2_def same_dbs_fields)
  have st: "store s2 d = store s1 d" using stores_d [OF stores_same [OF 2(2) stepD(2) [OF 2(1)] d1] d1] .
  have lk: "looked_up s2 d k v"
    using l 1(4) expired_frame [OF stepD(2) [OF 2(1)]] 2(2,3) st by (auto simp: looked_up_def v_def same_dbs_def)
  show ?thesis
  proof (rule that [OF _ step_trans [OF 1(2) 2(1)] _ lk])
    show "lookupKeyRead d i s = Some (v, s2)"
      using 1(1) l(1) by (simp add: lookupKeyRead_def v_def s2_def)
    show "stores s s2 d (store s d)"
      using stores_trans [OF 1(3) stepD(2) [OF 1(2)] stores_same [OF 2(2) stepD(2) [OF 2(1)] d1]] stores_d [OF 1(3) s(2)] by simp
  qed
qed

subsection \<open>Insertion\<close>

definition dbInsert :: "dbid \<Rightarrow> oid \<Rightarrow> oid \<Rightarrow> oid option \<Rightarrow> redisServer \<Rightarrow> redisServer option" where
  "dbInsert d i j old s = (if old \<noteq> None then dbOverwrite d i j s else dbAdd d i j s)"

lemma dict_live:
  assumes "server_inv s" "d < dbnum s" "db_dict (dbs s d) k = Some i"
  obtains ob where "objs s i = Some ob"
proof -
  have "0 < refs s i"
    using dict_refs_pos [OF server_invD(4) [OF assms(1,2)] assms(3)] dict_refs_le [OF assms(2), of i] by linarith
  then show ?thesis using referenced [OF assms(1)] that by blast
qed

lemma dbInsert_changes:
  assumes s: "good s" "d < dbnum s" "sds_at s i = Some k" "owned s j"
  obtains s' where "dbInsert d i j (db_dict (dbs s d) k) s = Some s'" "changes (at j (-1)) s s'"
    "becomes s s' d ((keyspace s d)(k := vals s j)) (db_expires (dbs s d))" "vals s' j = vals s j"
    "db_dict (dbs s' d) k = Some j" "\<And>x. db_dict (dbs s d) k \<noteq> Some x \<Longrightarrow> objs s' x = objs s x"
proof -
  note i = goodD(1) [OF s(1)]
  let ?s1 = "set_dict d k (Some j) s" and ?o = "db_dict (dbs s d) k"
  have 1: "changes (\<lambda>x. is_at ?o x - is_at (Some j) x) s ?s1" by (rule set_dict_changes [OF s(1,2)]) (use s(4) in auto)
  have b: "becomes s ?s1 d ((keyspace s d)(k := vals s j)) (db_expires (dbs s d))"
    by (simp add: becomes_def keyspace_set_dict set_dict_fields)
  show ?thesis
  proof (cases ?o)
    case None
    have e: "(\<lambda>x. is_at ?o x - is_at (Some j) x) = at j (-1)" using None by (auto simp: is_at_def at_def fun_eq_iff)
    show ?thesis
      by (rule that [OF _ 1 [unfolded e] b]) (use None s(3) in \<open>auto simp: dbInsert_def dbAdd_def set_dict_fields\<close>)
  next
    case (Some old)
    obtain ob where ob: "objs s old = Some ob" using dict_live [OF i s(2) Some] .
    have "ext ?s1 old = ext s old + (1 - is_at (Some j) old)" using set_dict_ext [OF i s(2) ob, of k "Some j"] Some by (simp add: is_at_def)
    then have "owned ?s1 old"
      using ext_inv [OF i, of old] s(4) frame_other_refs [OF stepD(2) [OF 1], of old] by (auto simp: owned_def is_at_def split: if_splits)
    then obtain s2 where s2: "decrRefCount old ?s1 = Some s2" "changes (at old (-1)) ?s1 s2" "same_dbs ?s1 s2"
        "\<And>x. 0 < refs ?s1 x \<Longrightarrow> vals s2 x = vals ?s1 x" "\<And>x. x \<noteq> old \<Longrightarrow> objs s2 x = objs ?s1 x"
      using decr_changes [OF stepD(1) [OF 1], of old] by metis
    have c: "changes (at j (-1)) s s2"
      by (rule changes_trans [OF 1 s2(2)]) (use Some in \<open>auto simp: is_at_def at_def\<close>)
    have d1: "db_dict (dbs ?s1 d) k = Some j" by (simp add: set_dict_fields)
    have g1: "server_inv ?s1" "d < dbnum ?s1" using goodD(1) [OF stepD(1) [OF 1]] s(2) by (simp_all add: set_dict_fields)
    have "0 < refs ?s1 j"
      using dict_refs_pos [OF server_invD(4) [OF g1] d1] dict_refs_le [OF g1(2), of j] by linarith
    then have v: "vals s2 j = vals s j" using s2(4) by (simp add: set_dict_fields)
    have b2: "becomes s s2 d ((keyspace s d)(k := vals s j)) (db_expires (dbs s d))"
      using b s2(3) by (simp add: becomes_def same_dbs_def set_dict_fields)
    show ?thesis
      by (rule that [OF _ c b2 v])
        (use Some s(3) s2(1,3,5) d1 in \<open>auto simp: dbInsert_def dbOverwrite_def same_dbs_def set_dict_fields\<close>)
  qed
qed

text \<open>In \<open>setKey\<close> the count of the value is raised after the insertion, which makes no difference.\<close>

lemma insert_then_incr:
  assumes s: "server_inv s" "d < dbnum s" "sds_at s i = Some k" "objs s j = Some ob"
    and two: "db_dict (dbs s d) k = Some j \<Longrightarrow> 1 < refcount ob"
  shows "dbInsert d i j (db_dict (dbs s d) k) s \<bind> incrRefCount j = incrRefCount j s \<bind> dbInsert d i j (db_dict (dbs s d) k)"
proof -
  let ?s1 = "update_obj j (Some (ob\<lparr>refcount := refcount ob + 1\<rparr>)) s"
  have 1: "incrRefCount j s = Some ?s1" using s(4) by (simp add: incrRefCount_def)
  have k1: "sds_at ?s1 i = Some k" using s(3,4) by (auto simp: sds_at_def update_obj_def)
  have f: "dbs ?s1 = dbs s" "objs ?s1 = (objs s)(j := Some (ob\<lparr>refcount := refcount ob + 1\<rparr>))" by (simp_all add: update_obj_def)
  show ?thesis
  proof (cases "db_dict (dbs s d) k")
    case None
    then show ?thesis using s(3,4) k1
      by (simp add: 1 dbInsert_def dbAdd_def f) (simp add: incrRefCount_def set_dict_def update_db_def update_obj_def)
  next
    case (Some old)
    obtain oo where oo: "objs s old = Some oo" using dict_live [OF s(1,2) Some] .
    have p: "0 < refcount oo" using live(3) [OF s(1) oo] .
    show ?thesis
    proof (cases "old = j")
      case True
      then have "oo = ob" "1 < refcount ob" using oo s(4) two Some by auto
      then show ?thesis using Some s(3,4) k1 True
        by (simp add: 1 dbInsert_def dbOverwrite_def f) (simp add: incrRefCount_def decrRefCount_def set_dict_def update_db_def update_obj_def)
    next
      case False
      then show ?thesis using Some s(3,4) k1 oo p
        by (simp add: 1 dbInsert_def dbOverwrite_def f)
          (simp add: incrRefCount_def decrRefCount_def set_dict_def update_db_def update_obj_def fun_upd_twist)
    qed
  qed
qed

lemma changes_named: "changes \<delta> s s' \<Longrightarrow> named s i k \<Longrightarrow> 0 < ext s i + \<delta> i \<Longrightarrow> named s' i k"
  by (simp add: changes_def named_def oview_def)

lemma insert_counted:
  assumes s: "good s" "d < dbnum s" "named s i k" and v: "0 < ext s j" "vals s j = Some x"
  obtains s' where "dbInsert d i j (db_dict (dbs s d) k) s \<bind> incrRefCount j = Some s'" "step s s'"
    "becomes s s' d ((keyspace s d)(k \<mapsto> x)) (db_expires (dbs s d))" "db_dict (dbs s' d) k = Some j"
proof -
  note i = goodD(1) [OF s(1)]
  obtain ob where ob: "objs s j = Some ob" using ext_live [OF v(1)] by blast
  have two: "1 < refcount ob" if "db_dict (dbs s d) k = Some j"
  proof -
    have "0 < db_refs (dbs s d) j"
      using dict_refs_pos [OF server_invD(4) [OF i s(2)] that] by (simp add: db_refs_def)
    then have "0 < db_total s j"
      using member_le_sum_nat [of "{..<dbnum s}" d "\<lambda>x. db_refs (dbs s x) j"] s(2) by (simp add: db_total_def)
    then show ?thesis using v(1) ob by (simp add: ext_def)
  qed
  obtain s2 where 2: "incrRefCount j s = Some s2" "changes (at j 1) s s2" "same_dbs s s2" "owned s2 j" "vals s2 = vals s"
    using incr_changes [OF s(1) ob] by metis
  have d2: "dbnum s2 = dbnum s" "dbs s2 = dbs s" using frameD(2) [OF stepD(2) [OF 2(2)]] 2(3) by (auto simp: same_dbs_def)
  have n2: "named s2 i k" by (rule changes_named [OF 2(2) s(3)]) (use s(3) in \<open>auto simp: named_def at_def\<close>)
  obtain s3 where 3: "dbInsert d i j (db_dict (dbs s d) k) s2 = Some s3" "changes (at j (-1)) s2 s3"
      "becomes s2 s3 d ((keyspace s2 d)(k := vals s2 j)) (db_expires (dbs s2 d))" "db_dict (dbs s3 d) k = Some j"
    using dbInsert_changes [OF stepD(1) [OF 2(2)] _ named_sds [OF n2] 2(4), of d] s(2) d2 by metis
  have "step s s3" by (rule changes_trans [OF 2(2) 3(2)]) (auto simp: at_def)
  moreover have "becomes s s3 d ((keyspace s d)(k \<mapsto> x)) (db_expires (dbs s d))"
    using 3(3) 2(3,5) v(2) s(2) by (simp add: becomes_def same_dbs_def d2)
  ultimately show ?thesis
    using that insert_then_incr [OF i s(2) named_sds [OF s(3)] ob two] 2(1) 3(1,4) by simp
qed

lemma setKey_step:
  assumes s: "good s" "d < dbnum s" "named s i k" and v: "0 < ext s j" "vals s j = Some x"
  obtains s' where "setKey d i j s = Some s'" "step s s'" "stores s s' d ((store s d)(k \<mapsto> (x, None)))"
    "\<And>ko cs c. db_watched_keys (dbs s d) k = Some (ko, cs) \<Longrightarrow> c \<in> set cs \<Longrightarrow> REDIS_DIRTY_CAS \<in> c_flags (clients s' c)"
proof -
  obtain old s1 where 1: "lookupKeyWrite d i s = Some (old, s1)" "step s s1" "stores s s1 d (store s d)" "looked_up s1 d k old"
    using lookupKeyWrite_step [OF s] .
  have d1: "d < dbnum s1" using s(2) frameD(2) [OF stepD(2) [OF 1(2)]] by simp
  have n1: "named s1 i k" by (rule named_step [OF s(3) 1(2)])
  have e1: "0 < ext s1 j" "vals s1 j = Some x" using step_oview [OF 1(2) v(1)] v by (auto simp: oview_def)
  have od: "db_dict (dbs s1 d) k = old" using 1(4) by (simp add: looked_up_def)
  obtain s3 where 3: "dbInsert d i j old s1 \<bind> incrRefCount j = Some s3" "step s1 s3"
      "becomes s1 s3 d ((keyspace s1 d)(k \<mapsto> x)) (db_expires (dbs s1 d))" "db_dict (dbs s3 d) k = Some j"
    using insert_counted [OF stepD(1) [OF 1(2)] d1 n1 e1] od by metis
  have n3: "named s3 i k" by (rule named_step [OF n1 3(2)])
  let ?s4 = "set_expires d k None s3"
  have 4: "step s3 ?s4" by (rule set_expires_step [OF stepD(1) [OF 3(2)]]) simp
  obtain s5 where 5: "signalModifiedKey d i ?s4 = Some s5" "step ?s4 s5" "same_dbs ?s4 s5"
      "\<And>ko cs c. db_watched_keys (dbs ?s4 d) k = Some (ko, cs) \<Longrightarrow> c \<in> set cs \<Longrightarrow> REDIS_DIRTY_CAS \<in> c_flags (clients s5 c)"
    using touch_step [OF stepD(1) [OF 4] named_sds [OF named_step [OF n3 4]], of d] by metis
  have s15: "step s1 s5" using step_trans [OF 3(2) step_trans [OF 4 5(2)]] .
  have "setKey d i j s = Some s5"
    using 1(1) 3(1,4) n3 5(1)
    by (cases "dbInsert d i j old s1") (auto simp: setKey_def dbInsert_def removeExpire_def named_sds split: if_splits)
  moreover have "becomes s1 s5 d ((keyspace s1 d)(k \<mapsto> x)) ((db_expires (dbs s1 d))(k := None))"
    using 3(3) 5(3) d1 frameD(2) [OF stepD(2) [OF 3(2)]]
    by (simp add: becomes_def same_dbs_def keyspace_set_expires set_expires_fields)
  then have "stores s1 s5 d ((store s1 d)(k \<mapsto> (x, None)))"
    by (rule becomes_stores [OF _ stepD(2) [OF s15] d1]) (simp add: store_def)
  then have "stores s s5 d ((store s d)(k \<mapsto> (x, None)))"
    using stores_trans [OF 1(3) stepD(2) [OF 1(2)]] stores_d [OF 1(3) s(2)] by metis
  moreover have "db_watched_keys (dbs ?s4 d) k = db_watched_keys (dbs s d) k"
    using frameD(11) [OF stepD(2) [OF step_trans [OF 1(2) step_trans [OF 3(2) 4]]]] by simp
  ultimately show ?thesis using that [OF _ step_trans [OF 1(2) s15]] 5(4) by metis
qed

end
