(* ===== verification/T_string.thy ===== *)
theory T_string
  imports Db
begin

text \<open>
  The commands on strings (\<open>src/lib/src/t_string.c\<close>), except for \<open>INCRBYFLOAT\<close>. A signed overflow, a read
  outside a string and a string too long for its header are \<open>None\<close>.
\<close>

definition to_ll :: "int \<Rightarrow> int" where
  "to_ll n = (n + 2 ^ 63) mod 2 ^ 64 - 2 ^ 63"

definition checkStringLength :: "cid \<Rightarrow> int \<Rightarrow> redisServer \<Rightarrow> (bool \<times> redisServer) option" where
  "checkStringLength c sz s =
     (if sz > 512 * 1024 * 1024
      then map_option (Pair False) (addReplyError c ''string exceeds maximum allowed size (512MB)'' s)
      else Some (True, s))"

text \<open>\<open>c->argv[n] = tryObjectEncoding(c->argv[n])\<close>\<close>

definition encode_arg :: "cid \<Rightarrow> nat \<Rightarrow> redisServer \<Rightarrow> (oid \<times> redisServer) option" where
  "encode_arg c n s =
     do {
       i \<leftarrow> arg c n s;
       (j, s1) \<leftarrow> tryObjectEncoding i s;
       Some (j, update_client c (\<lambda>cl. cl\<lparr>c_argv := (c_argv cl)[n := j]\<rparr>) s1)
     }"

subsection \<open>SET and GET\<close>

record set_flags =
  set_nx :: bool
  set_xx :: bool
  set_expire :: "oid option"
  set_unit :: time_unit

definition SET_NO_FLAGS :: set_flags where
  "SET_NO_FLAGS = \<lparr>set_nx = False, set_xx = False, set_expire = None, set_unit = UNIT_SECONDS\<rparr>"

definition setGenericCommand :: "cid \<Rightarrow> set_flags \<Rightarrow> oid \<Rightarrow> oid \<Rightarrow> shared option \<Rightarrow> shared option \<Rightarrow> redisServer \<Rightarrow> redisServer option" where
  "setGenericCommand c flags key val ok_reply abort_reply s =
     (let d = c_db (clients s c)
      in do {
        (ms, s1) \<leftarrow> (case set_expire flags of
            None \<Rightarrow> Some (Some 0, s)
          | Some e \<Rightarrow> do {
              (r, s1) \<leftarrow> getLongLongFromObjectOrReply c (Some e) None s;
              (case r of
                 None \<Rightarrow> Some (None, s1)
               | Some n \<Rightarrow>
                   if n \<le> 0 then map_option (Pair None) (addReplyError c ''invalid expire time in SETEX'' s1)
                   else do { m \<leftarrow> checked (if set_unit flags = UNIT_SECONDS then n * 1000 else n); Some (Some m, s1) })
            });
        (case ms of
           None \<Rightarrow> Some s1
         | Some milliseconds \<Rightarrow> do {
             (a, s2) \<leftarrow> (if set_nx flags then do { (v, s2) \<leftarrow> lookupKeyWrite d key s1; Some (v \<noteq> None, s2) } else Some (False, s1));
             (b, s3) \<leftarrow> (if \<not> a \<and> set_xx flags then do { (v, s3) \<leftarrow> lookupKeyWrite d key s2; Some (v = None, s3) } else Some (False, s2));
             (if a \<or> b then addReply c (Shared (case abort_reply of Some r \<Rightarrow> r | None \<Rightarrow> S_nullbulk)) s3
              else do {
                s4 \<leftarrow> setKey d key val s3;
                let s5 = s4\<lparr>dirty := dirty s4 + 1\<rparr>;
                s6 \<leftarrow> (if set_expire flags \<noteq> None
                       then do { when \<leftarrow> checked (mstime s5 + milliseconds); setExpire d key when s5 }
                       else Some s5);
                s7 \<leftarrow> notifyKeyspaceEvent REDIS_NOTIFY_STRING ''set'' key d s6;
                s8 \<leftarrow> (if set_expire flags \<noteq> None then notifyKeyspaceEvent REDIS_NOTIFY_GENERIC ''expire'' key d s7 else Some s7);
                addReply c (Shared (case ok_reply of Some r \<Rightarrow> r | None \<Rightarrow> S_ok)) s8
              })
           })
      })"

text \<open>The options of \<open>SET\<close>; the inner \<open>None\<close> is a syntax error.\<close>

fun set_options :: "redisServer \<Rightarrow> oid list \<Rightarrow> set_flags \<Rightarrow> set_flags option option" where
  "set_options s [] flags = Some (Some flags)"
| "set_options s (i # is) flags =
     do {
       a \<leftarrow> sds_at s i;
       (if strcaseeq (c_str a) ''nx'' then set_options s is (flags\<lparr>set_nx := True\<rparr>)
        else if strcaseeq (c_str a) ''xx'' then set_options s is (flags\<lparr>set_xx := True\<rparr>)
        else case is of
          [] \<Rightarrow> Some None
        | next # rest \<Rightarrow>
            if strcaseeq (c_str a) ''ex'' then set_options s rest (flags\<lparr>set_expire := Some next, set_unit := UNIT_SECONDS\<rparr>)
            else if strcaseeq (c_str a) ''px'' then set_options s rest (flags\<lparr>set_expire := Some next, set_unit := UNIT_MILLISECONDS\<rparr>)
            else Some None)
     }"

definition setCommand :: "cid \<Rightarrow> redisServer \<Rightarrow> redisServer option" where
  "setCommand c s =
     do {
       r \<leftarrow> set_options s (drop 3 (c_argv (clients s c))) SET_NO_FLAGS;
       (case r of
          None \<Rightarrow> addReply c (Shared S_syntaxerr) s
        | Some flags \<Rightarrow> do {
            (val, s1) \<leftarrow> encode_arg c 2 s;
            key \<leftarrow> arg c 1 s1;
            setGenericCommand c flags key val None None s1
          })
     }"

definition setnxCommand :: "cid \<Rightarrow> redisServer \<Rightarrow> redisServer option" where
  "setnxCommand c s =
     do {
       (val, s1) \<leftarrow> encode_arg c 2 s;
       key \<leftarrow> arg c 1 s1;
       setGenericCommand c (SET_NO_FLAGS\<lparr>set_nx := True\<rparr>) key val (Some S_cone) (Some S_czero) s1
     }"

definition setexCommand :: "cid \<Rightarrow> redisServer \<Rightarrow> redisServer option" where
  "setexCommand c s =
     do {
       (val, s1) \<leftarrow> encode_arg c 3 s;
       key \<leftarrow> arg c 1 s1;
       e \<leftarrow> arg c 2 s1;
       setGenericCommand c (SET_NO_FLAGS\<lparr>set_expire := Some e\<rparr>) key val None None s1
     }"

definition psetexCommand :: "cid \<Rightarrow> redisServer \<Rightarrow> redisServer option" where
  "psetexCommand c s =
     do {
       (val, s1) \<leftarrow> encode_arg c 3 s;
       key \<leftarrow> arg c 1 s1;
       e \<leftarrow> arg c 2 s1;
       setGenericCommand c (SET_NO_FLAGS\<lparr>set_expire := Some e, set_unit := UNIT_MILLISECONDS\<rparr>) key val None None s1
     }"

text \<open>The result says whether it was \<open>REDIS_OK\<close>.\<close>

definition getGenericCommand :: "cid \<Rightarrow> redisServer \<Rightarrow> (bool \<times> redisServer) option" where
  "getGenericCommand c s =
     do {
       key \<leftarrow> arg c 1 s;
       (v, s1) \<leftarrow> lookupKeyReadOrReply c key S_nullbulk s;
       (case v of
          None \<Rightarrow> Some (True, s1)
        | Some i \<Rightarrow> do {
            ob \<leftarrow> objs s1 i;
            (if ob_type ob \<noteq> REDIS_STRING then map_option (Pair False) (addReply c (Shared S_wrongtypeerr) s1)
             else map_option (Pair True) (addReplyBulk c i s1))
          })
     }"

definition getCommand :: "cid \<Rightarrow> redisServer \<Rightarrow> redisServer option" where
  "getCommand c s = map_option snd (getGenericCommand c s)"

definition getsetCommand :: "cid \<Rightarrow> redisServer \<Rightarrow> redisServer option" where
  "getsetCommand c s =
     do {
       (ok, s1) \<leftarrow> getGenericCommand c s;
       (if \<not> ok then Some s1
        else do {
          (val, s2) \<leftarrow> encode_arg c 2 s1;
          key \<leftarrow> arg c 1 s2;
          s3 \<leftarrow> setKey (c_db (clients s c)) key val s2;
          s4 \<leftarrow> notifyKeyspaceEvent REDIS_NOTIFY_STRING ''set'' key (c_db (clients s c)) s3;
          Some (s4\<lparr>dirty := dirty s4 + 1\<rparr>)
        })
     }"

subsection \<open>Ranges\<close>

text \<open>The copy that \<open>SETRANGE\<close> and \<open>APPEND\<close> make of a value that is shared or encoded.\<close>

definition unshare_value :: "dbid \<Rightarrow> oid \<Rightarrow> oid \<Rightarrow> redisServer \<Rightarrow> (oid \<times> redisServer) option" where
  "unshare_value d key i s =
     do {
       ob \<leftarrow> objs s i;
       (if refcount ob \<noteq> 1 \<or> ob_enc ob \<noteq> REDIS_ENCODING_RAW then do {
          (decoded, s1) \<leftarrow> getDecodedObject i s;
          b \<leftarrow> sds_at s1 decoded;
          let (j, s2) = createRawStringObject b s1;
          s3 \<leftarrow> decrRefCount decoded s2;
          s4 \<leftarrow> dbOverwrite d key j s3;
          Some (j, s4)
        }
        else Some (i, s))
     }"

definition overlay :: "nat \<Rightarrow> bytes \<Rightarrow> bytes \<Rightarrow> bytes" where
  "overlay off v b =
     (let g = b @ replicate (off + length v - length b) NUL in take off g @ v @ drop (off + length v) g)"

definition setrangeCommand :: "cid \<Rightarrow> redisServer \<Rightarrow> redisServer option" where
  "setrangeCommand c s =
     (let d = c_db (clients s c)
      in do {
        key \<leftarrow> arg c 1 s;
        a2 \<leftarrow> arg c 2 s;
        a3 \<leftarrow> arg c 3 s;
        val \<leftarrow> sds_at s a3;
        (r, s1) \<leftarrow> getLongFromObjectOrReply c (Some a2) None s;
        (case r of
           None \<Rightarrow> Some s1
         | Some offset \<Rightarrow>
             if offset < 0 then addReplyError c ''offset is out of range'' s1
             else do {
               (v, s2) \<leftarrow> lookupKeyWrite d key s1;
               (w, s5) \<leftarrow> (case v of
                   None \<Rightarrow>
                     if val = [] then map_option (Pair None) (addReply c (Shared S_czero) s2)
                     else do {
                       (ok, s3) \<leftarrow> checkStringLength c (to_ll (offset + int (length val))) s2;
                       (if \<not> ok then Some (None, s3)
                        else let (j, s4) = createObject REDIS_STRING (Sds []) s3
                             in do { s5 \<leftarrow> dbAdd d key j s4; Some (Some j, s5) })
                     }
                 | Some i \<Rightarrow> do {
                     (bad, s3) \<leftarrow> checkType c i REDIS_STRING s2;
                     (if bad then Some (None, s3)
                      else do {
                        ob \<leftarrow> objs s3 i;
                        olen \<leftarrow> stringObjectLen ob;
                        (if val = [] then map_option (Pair None) (addReplyLongLong c (int olen) s3)
                         else do {
                           (ok, s4) \<leftarrow> checkStringLength c (to_ll (offset + int (length val))) s3;
                           (if \<not> ok then Some (None, s4)
                            else do { (j, s5) \<leftarrow> unshare_value d key i s4; Some (Some j, s5) })
                         })
                      })
                   });
               (case w of
                  None \<Rightarrow> Some s5
                | Some j \<Rightarrow> do {
                    b \<leftarrow> sds_at s5 j;
                    (if offset + int (length val) \<ge> 2 ^ 31 then None
                     else do {
                       s6 \<leftarrow> set_ptr j (Sds (overlay (nat offset) val b)) s5;
                       s7 \<leftarrow> signalModifiedKey d key s6;
                       s8 \<leftarrow> notifyKeyspaceEvent REDIS_NOTIFY_STRING ''setrange'' key d s7;
                       b2 \<leftarrow> sds_at s8 j;
                       addReplyLongLong c (int (length b2)) (s8\<lparr>dirty := dirty s8 + 1\<rparr>)
                     })
                  })
             })
      })"

text \<open>The indices of \<open>GETRANGE\<close>; \<open>end\<close> is compared as a 32 bit \<open>unsigned\<close>.\<close>

definition getrange_bounds :: "int \<Rightarrow> int \<Rightarrow> nat \<Rightarrow> int \<times> int" where
  "getrange_bounds start end len =
     (let start1 = (if start < 0 then int len + start else start);
          end1 = (if end < 0 then int len + end else end);
          start2 = (if start1 < 0 then 0 else start1);
          end2 = (if end1 < 0 then 0 else end1)
      in (start2, if end2 mod 2 ^ 32 \<ge> int len then int len - 1 else end2))"

definition getrange_reply :: "cid \<Rightarrow> int \<Rightarrow> int \<Rightarrow> bytes \<Rightarrow> redisServer \<Rightarrow> redisServer option" where
  "getrange_reply c start end str s =
     (let (start, end) = getrange_bounds start end (length str)
      in if start > end then addReply c (Shared S_emptybulk) s
         else if end \<ge> int (length str) then None
         else addReplyBulkCBuffer c (take (nat (end - start + 1)) (drop (nat start) str)) s)"

definition getrangeCommand :: "cid \<Rightarrow> redisServer \<Rightarrow> redisServer option" where
  "getrangeCommand c s =
     do {
       key \<leftarrow> arg c 1 s;
       a2 \<leftarrow> arg c 2 s;
       a3 \<leftarrow> arg c 3 s;
       (r, s1) \<leftarrow> getLongFromObjectOrReply c (Some a2) None s;
       (case r of
          None \<Rightarrow> Some s1
        | Some start \<Rightarrow> do {
            (r, s2) \<leftarrow> getLongFromObjectOrReply c (Some a3) None s1;
            (case r of
               None \<Rightarrow> Some s2
             | Some end \<Rightarrow> do {
                 (v, s3) \<leftarrow> lookupKeyReadOrReply c key S_emptybulk s2;
                 (case v of
                    None \<Rightarrow> Some s3
                  | Some i \<Rightarrow> do {
                      (bad, s4) \<leftarrow> checkType c i REDIS_STRING s3;
                      (if bad then Some s4
                       else do { ob \<leftarrow> objs s4 i; str \<leftarrow> string_chars 32 ob; getrange_reply c start end str s4 })
                    })
               })
          })
     }"

subsection \<open>Several keys\<close>

fun mget_loop :: "cid \<Rightarrow> oid list \<Rightarrow> redisServer \<Rightarrow> redisServer option" where
  "mget_loop c [] s = Some s"
| "mget_loop c (key # keys) s =
     do {
       (v, s1) \<leftarrow> lookupKeyRead (c_db (clients s c)) key s;
       s2 \<leftarrow> (case v of
           None \<Rightarrow> addReply c (Shared S_nullbulk) s1
         | Some i \<Rightarrow> do {
             ob \<leftarrow> objs s1 i;
             (if ob_type ob \<noteq> REDIS_STRING then addReply c (Shared S_nullbulk) s1 else addReplyBulk c i s1)
           });
       mget_loop c keys s2
     }"

definition mgetCommand :: "cid \<Rightarrow> redisServer \<Rightarrow> redisServer option" where
  "mgetCommand c s =
     (let argv = c_argv (clients s c)
      in do { s1 \<leftarrow> addReplyMultiBulkLen c (int (length argv) - 1) s; mget_loop c (tl argv) s1 })"

fun busykeys :: "dbid \<Rightarrow> oid list \<Rightarrow> redisServer \<Rightarrow> (nat \<times> redisServer) option" where
  "busykeys d (key # val # rest) s =
     do {
       (v, s1) \<leftarrow> lookupKeyWrite d key s;
       (n, s2) \<leftarrow> busykeys d rest s1;
       Some (n + (if v \<noteq> None then 1 else 0), s2)
     }"
| "busykeys d rest s = Some (0, s)"

text \<open>The loop over the pairs at \<open>argv[j]\<close>, \<open>argv[j+1]\<close>, of which \<open>n\<close> are left.\<close>

fun mset_loop :: "cid \<Rightarrow> nat \<Rightarrow> nat \<Rightarrow> redisServer \<Rightarrow> redisServer option" where
  "mset_loop c j 0 s = Some s"
| "mset_loop c j (Suc n) s =
     do {
       (val, s1) \<leftarrow> encode_arg c (j + 1) s;
       key \<leftarrow> arg c j s1;
       s2 \<leftarrow> setKey (c_db (clients s c)) key val s1;
       s3 \<leftarrow> notifyKeyspaceEvent REDIS_NOTIFY_STRING ''set'' key (c_db (clients s c)) s2;
       mset_loop c (j + 2) n s3
     }"

definition msetGenericCommand :: "cid \<Rightarrow> bool \<Rightarrow> redisServer \<Rightarrow> redisServer option" where
  "msetGenericCommand c nx s =
     (let argv = c_argv (clients s c); pairs = (length argv - 1) div 2
      in if even (length argv) then addReplyError c ''wrong number of arguments for MSET'' s
         else do {
           (n, s1) \<leftarrow> (if nx then busykeys (c_db (clients s c)) (tl argv) s else Some (0, s));
           (if n > 0 then addReply c (Shared S_czero) s1
            else do {
              s2 \<leftarrow> mset_loop c 1 pairs s1;
              addReply c (Shared (if nx then S_cone else S_ok)) (s2\<lparr>dirty := dirty s2 + int pairs\<rparr>)
            })
         })"

definition msetCommand :: "cid \<Rightarrow> redisServer \<Rightarrow> redisServer option" where
  "msetCommand c s = msetGenericCommand c False s"

definition msetnxCommand :: "cid \<Rightarrow> redisServer \<Rightarrow> redisServer option" where
  "msetnxCommand c s = msetGenericCommand c True s"

subsection \<open>Counters\<close>

definition incr_overflows :: "int \<Rightarrow> int \<Rightarrow> bool" where
  "incr_overflows oldvalue incr \<longleftrightarrow>
     (incr < 0 \<and> oldvalue < 0 \<and> incr < LLONG_MIN - oldvalue) \<or> (incr > 0 \<and> oldvalue > 0 \<and> incr > LLONG_MAX - oldvalue)"

definition incrDecrCommand :: "cid \<Rightarrow> int \<Rightarrow> redisServer \<Rightarrow> redisServer option" where
  "incrDecrCommand c incr s =
     (let d = c_db (clients s c)
      in do {
        key \<leftarrow> arg c 1 s;
        (v, s1) \<leftarrow> lookupKeyWrite d key s;
        (bad, s2) \<leftarrow> (case v of None \<Rightarrow> Some (False, s1) | Some i \<Rightarrow> checkType c i REDIS_STRING s1);
        (if bad then Some s2
         else do {
           (r, s3) \<leftarrow> getLongLongFromObjectOrReply c v None s2;
           (case r of
              None \<Rightarrow> Some s3
            | Some oldvalue \<Rightarrow>
                if incr_overflows oldvalue incr then addReplyError c ''increment or decrement would overflow'' s3
                else do {
                  value \<leftarrow> checked (oldvalue + incr);
                  (new, s4) \<leftarrow> createStringObjectFromLongLong value s3;
                  s5 \<leftarrow> (if v \<noteq> None then dbOverwrite d key new s4 else dbAdd d key new s4);
                  s6 \<leftarrow> signalModifiedKey d key s5;
                  s7 \<leftarrow> notifyKeyspaceEvent REDIS_NOTIFY_STRING ''incrby'' key d s6;
                  s8 \<leftarrow> addReply c (Shared S_colon) (s7\<lparr>dirty := dirty s7 + 1\<rparr>);
                  s9 \<leftarrow> addReply c new s8;
                  addReply c (Shared S_crlf) s9
                })
         })
      })"

definition incrCommand :: "cid \<Rightarrow> redisServer \<Rightarrow> redisServer option" where
  "incrCommand c s = incrDecrCommand c 1 s"

definition decrCommand :: "cid \<Rightarrow> redisServer \<Rightarrow> redisServer option" where
  "decrCommand c s = incrDecrCommand c (-1) s"

definition incrbyCommand :: "cid \<Rightarrow> redisServer \<Rightarrow> redisServer option" where
  "incrbyCommand c s =
     do {
       a \<leftarrow> arg c 2 s;
       (r, s1) \<leftarrow> getLongLongFromObjectOrReply c (Some a) None s;
       (case r of None \<Rightarrow> Some s1 | Some incr \<Rightarrow> incrDecrCommand c incr s1)
     }"

definition decrbyCommand :: "cid \<Rightarrow> redisServer \<Rightarrow> redisServer option" where
  "decrbyCommand c s =
     do {
       a \<leftarrow> arg c 2 s;
       (r, s1) \<leftarrow> getLongLongFromObjectOrReply c (Some a) None s;
       (case r of None \<Rightarrow> Some s1 | Some incr \<Rightarrow> do { m \<leftarrow> checked (- incr); incrDecrCommand c m s1 })
     }"

subsection \<open>APPEND and STRLEN\<close>

definition appendCommand :: "cid \<Rightarrow> redisServer \<Rightarrow> redisServer option" where
  "appendCommand c s =
     (let d = c_db (clients s c)
      in do {
        key \<leftarrow> arg c 1 s;
        (v, s1) \<leftarrow> lookupKeyWrite d key s;
        (totlen, s2) \<leftarrow> (case v of
            None \<Rightarrow> do {
              (val, s2) \<leftarrow> encode_arg c 2 s1;
              s3 \<leftarrow> dbAdd d key val s2;
              s4 \<leftarrow> incrRefCount val s3;
              ob \<leftarrow> objs s4 val;
              n \<leftarrow> stringObjectLen ob;
              Some (Some n, s4)
            }
          | Some i \<Rightarrow> do {
              (bad, s2) \<leftarrow> checkType c i REDIS_STRING s1;
              (if bad then Some (None, s2)
               else do {
                 a \<leftarrow> arg c 2 s2;
                 append \<leftarrow> sds_at s2 a;
                 ob \<leftarrow> objs s2 i;
                 n \<leftarrow> stringObjectLen ob;
                 (ok, s3) \<leftarrow> checkStringLength c (int (n + length append)) s2;
                 (if \<not> ok then Some (None, s3)
                  else do {
                    (j, s4) \<leftarrow> unshare_value d key i s3;
                    b \<leftarrow> sds_at s4 j;
                    s5 \<leftarrow> set_ptr j (Sds (b @ append)) s4;
                    Some (Some (length (b @ append)), s5)
                  })
               })
            });
        (case totlen of
           None \<Rightarrow> Some s2
         | Some n \<Rightarrow> do {
             s3 \<leftarrow> signalModifiedKey d key s2;
             s4 \<leftarrow> notifyKeyspaceEvent REDIS_NOTIFY_STRING ''append'' key d s3;
             addReplyLongLong c (int n) (s4\<lparr>dirty := dirty s4 + 1\<rparr>)
           })
      })"

definition strlenCommand :: "cid \<Rightarrow> redisServer \<Rightarrow> redisServer option" where
  "strlenCommand c s =
     do {
       key \<leftarrow> arg c 1 s;
       (v, s1) \<leftarrow> lookupKeyReadOrReply c key S_czero s;
       (case v of
          None \<Rightarrow> Some s1
        | Some i \<Rightarrow> do {
            (bad, s2) \<leftarrow> checkType c i REDIS_STRING s1;
            (if bad then Some s2
             else do { ob \<leftarrow> objs s2 i; n \<leftarrow> stringObjectLen ob; addReplyLongLong c (int n) s2 })
          })
     }"

end
