(* ===== verification/Answers.thy ===== *)
theory Answers
  imports Keyspace T_string
begin

text \<open>
  What a command does as its clients see it: its reply, its effect on the store of its database, and who is
  told about it. In the store an expired key is absent, whether or not it was deleted already.
\<close>

subsection \<open>Working on a database\<close>

text \<open>Whoever watches a key whose entry changes is told.\<close>

definition marks :: "redisServer \<Rightarrow> redisServer \<Rightarrow> dbid \<Rightarrow> (bytes \<Rightarrow> (val \<times> int option) option) \<Rightarrow> bool" where
  "marks s s' d f \<longleftrightarrow>
     (\<forall>k ko cs c. f k \<noteq> store s d k \<longrightarrow> db_watched_keys (dbs s d) k = Some (ko, cs) \<longrightarrow> c \<in> set cs \<longrightarrow>
        REDIS_DIRTY_CAS \<in> c_flags (clients s' c))"

definition works :: "redisServer \<Rightarrow> redisServer \<Rightarrow> dbid \<Rightarrow> (bytes \<Rightarrow> (val \<times> int option) option) \<Rightarrow> bool" where
  "works s s' d f \<longleftrightarrow> step s s' \<and> d < dbnum s \<and> stores s s' d f \<and> marks s s' d f"

lemma worksD:
  assumes "works s s' d f"
  shows "step s s'" "d < dbnum s'" "store s' d = f" "good s'" "frame s s'"
  using assms stepD [of "\<lambda>i. 0" s s'] frameD(2) [of s s'] by (auto simp: works_def stores_d)

lemma works_same: "step s s' \<Longrightarrow> d < dbnum s \<Longrightarrow> stores s s' d (store s d) \<Longrightarrow> works s s' d (store s d)"
  by (simp add: works_def marks_def)

lemma works_dbs: "step s s' \<Longrightarrow> d < dbnum s \<Longrightarrow> same_dbs s s' \<Longrightarrow> works s s' d (store s d)"
  by (rule works_same) (auto simp: stores_same stepD)

lemma works_refl: "good s \<Longrightarrow> d < dbnum s \<Longrightarrow> works s s d (store s d)"
  by (rule works_dbs) (simp_all add: step_refl same_dbs_refl)

lemma works_key:
  assumes "step s s'" "d < dbnum s" "stores s s' d ((store s d)(k := x))"
    and "\<And>ko cs c. db_watched_keys (dbs s d) k = Some (ko, cs) \<Longrightarrow> c \<in> set cs \<Longrightarrow> REDIS_DIRTY_CAS \<in> c_flags (clients s' c)"
  shows "works s s' d ((store s d)(k := x))"
  using assms by (auto simp: works_def marks_def)

lemma marks_trans:
  assumes w: "works s s1 d f" and m: "marks s1 s2 d g" and fl: "\<And>c. c_flags (clients s1 c) \<subseteq> c_flags (clients s2 c)"
  shows "marks s s2 d g"
  unfolding marks_def
proof (intro allI impI)
  fix k ko cs c assume k: "g k \<noteq> store s d k" "db_watched_keys (dbs s d) k = Some (ko, cs)" "c \<in> set cs"
  show "REDIS_DIRTY_CAS \<in> c_flags (clients s2 c)"
  proof (cases "f k = store s d k")
    case True
    then have "g k \<noteq> store s1 d k" using k(1) worksD(3) [OF w] by simp
    then show ?thesis using k m frameD(11) [OF worksD(5) [OF w], of d] by (force simp: marks_def)
  next
    case False
    then have "REDIS_DIRTY_CAS \<in> c_flags (clients s1 c)" using k w by (auto simp: works_def marks_def)
    then show ?thesis using fl by blast
  qed
qed

lemma works_trans:
  assumes "works s s1 d f" "works s1 s2 d g"
  shows "works s s2 d g"
proof -
  have fr: "frame s s1" "frame s1 s2" using assms by (auto simp: worksD)
  have "marks s s2 d g" by (rule marks_trans [OF assms(1) _ frameD(13) [OF fr(2)]]) (use assms(2) in \<open>simp add: works_def\<close>)
  then show ?thesis using assms step_trans [of s s1 s2] stores_trans [OF _ fr(1)] unfolding works_def by blast
qed

lemma works_more: "works s s1 d f \<Longrightarrow> step s1 s2 \<Longrightarrow> same_dbs s1 s2 \<Longrightarrow> works s s2 d f"
  using works_trans [OF _ works_dbs] worksD by blast

lemma works_then: "works s s1 d (store s d) \<Longrightarrow> works s1 s2 d (g (store s1 d)) \<Longrightarrow> works s s2 d (g (store s d))"
  using works_trans worksD(3) by metis

subsection \<open>Answers\<close>

text \<open>A command works on database \<open>d\<close>, whose store becomes \<open>f\<close>, and then replies \<open>t\<close>.\<close>

definition answers :: "cid \<Rightarrow> bytes \<Rightarrow> dbid \<Rightarrow> (bytes \<Rightarrow> (val \<times> int option) option) \<Rightarrow> redisServer \<Rightarrow> redisServer option \<Rightarrow> bool" where
  "answers c t d f s r \<longleftrightarrow> (\<exists>s1. works s s1 d f \<and> emits c t s1 r)"

lemma answersI: "works s s1 d f \<Longrightarrow> emits c t s1 r \<Longrightarrow> answers c t d f s r"
  by (auto simp: answers_def)

lemma answers_step: "works s s1 d f \<Longrightarrow> answers c t d g s1 r \<Longrightarrow> answers c t d g s r"
  using works_trans unfolding answers_def by blast

lemma answers_shared:
  assumes "works s s1 d f" "ready c s" "createSharedObjects x = Some ob"
  shows "answers c (shared_string x) d f s (addReply c (Shared x) s1)"
  using answersI [OF assms(1) emits_shared [OF step_ready [OF worksD(1) [OF assms(1)] assms(2)] assms(3)]] .

text \<open>
  What remains of this when the arguments of the client may be encoded as well: their values stay, and so do the
  names of watched keys. A short reply stays in the static buffer.
\<close>

definition holds :: "cid \<Rightarrow> redisServer \<Rightarrow> redisServer \<Rightarrow> bool" where
  "holds c s s' \<longleftrightarrow>
     map (vals s') (c_argv (clients s' c)) = map (vals s) (c_argv (clients s c)) \<and>
     (\<forall>c'<nclients s. \<forall>i\<in>fst ` set (c_watched_keys (clients s c')). sds_at s' i = sds_at s i)"

definition answered :: "cid \<Rightarrow> bytes \<Rightarrow> dbid \<Rightarrow> (bytes \<Rightarrow> (val \<times> int option) option) \<Rightarrow> redisServer \<Rightarrow> redisServer \<Rightarrow> bool" where
  "answered c t d f s s' \<longleftrightarrow>
     good s' \<and> settings s' = settings s \<and> c < nclients s \<and> stores s s' d f \<and> marks s s' d f \<and> holds c s s' \<and>
     (\<forall>d. db_watched_keys (dbs s' d) = db_watched_keys (dbs s d)) \<and>
     (\<forall>c'. unflag (clients s' c') = (unflag (clients s c'))
        \<lparr>c_argv := c_argv (clients s' c'), c_buf := c_buf (clients s' c'), c_reply := c_reply (clients s' c')\<rparr> \<and>
        c_flags (clients s c') \<subseteq> c_flags (clients s' c')) \<and>
     (\<forall>c'<nclients s. out s' c' = out s c' @ (if c' = c then t else [])) \<and>
     (fits c t s \<longrightarrow> c_buf (clients s' c) = c_buf (clients s c) @ t \<and> c_reply (clients s' c) = [])"

lemma io_good: "good s \<Longrightarrow> server_inv s' \<Longrightarrow> io_only c s s' \<Longrightarrow> good s'"
  by (simp add: good_def db_ok_def io_only_fields)

lemma store_cong:
  assumes "settings s' = settings s" "keyspace s' d = keyspace s d" "db_expires (dbs s' d) = db_expires (dbs s d)"
  shows "store s' d = store s d"
proof -
  have "mstime s' = mstime s" "loading s' = loading s" "masterhost s' = masterhost s" using assms(1) by (auto simp: settings_def)
  then have "expired s' w = expired s w" for w by (cases w) (simp_all add: expired_def)
  then have "entry s' v w = entry s v w" for v w by (cases v) (simp_all add: entry_def)
  then show ?thesis using assms(2,3) by (intro ext) (simp add: store_def)
qed

lemma io_client:
  assumes "io_only c s s'"
  shows "unflag (clients s' c') = (unflag (clients s c'))
      \<lparr>c_argv := c_argv (clients s' c'), c_buf := c_buf (clients s' c'), c_reply := c_reply (clients s' c')\<rparr>"
    "c_flags (clients s' c') = c_flags (clients s c')" "settings s' = settings s" "dbs s' d = dbs s d"
  using assms by (auto simp: io_only_def unflag_def settings_def split: if_splits)

lemma io_stores:
  assumes "good s" "c < nclients s" "kept c s s'" "io_only c s s'"
  shows "stores s s' d (store s d)"
  unfolding stores_def
proof (intro allI impI)
  fix d' assume "d' < dbnum s"
  then have "store s' d' = store s d'"
    by (intro store_cong) (simp_all add: io_client [OF assms(4)] emits_isolated(2) [OF goodD(1) [OF assms(1)] assms(2-4)])
  then show "store s' d' = (if d' = d then store s d else store s d')" by simp
qed

lemma kept_sds: "kept c s s' \<Longrightarrow> held s c i ob \<Longrightarrow> sds_at s' i = sds_at s i"
  unfolding kept_def by (force simp: held_def sds_at_def obj_sds_def)

lemma watched_refs: "i \<in> fst ` set (c_watched_keys cl) \<Longrightarrow> count_list (c_reply cl) i < client_refs cl i"
  using count_list_0_iff [of "map fst (c_watched_keys cl)" i] by (simp add: client_refs_def)

lemma held_watched:
  assumes "server_inv s" "c < nclients s" "c' < nclients s" "i \<in> fst ` set (c_watched_keys (clients s c'))"
  shows "\<exists>ob. held s c i ob"
proof (rule held_refs [OF assms(1)])
  show "rcount s c i < refs s i"
    using two_clients_refs_le [OF assms(2,3), of i] client_refs_le [OF assms(2), of i] rcount_le [of s c i] watched_refs [OF assms(4)]
    by (cases "c' = c") (auto simp: rcount_def)
qed

lemma holds_step:
  assumes s: "server_inv s" "c < nclients s" "step s s1"
  shows "holds c s s1"
proof -
  have a: "c_argv (clients s1 c) = c_argv (clients s c)" by (rule step_arg(3) [OF s(3)])
  have "vals s1 i = vals s i" if "i \<in> set (c_argv (clients s c))" for i
    using step_oview [OF s(3) argv_ext [OF s(1,2) that]] oviewD(1) by blast
  moreover have "sds_at s1 i = sds_at s i" if "c' < nclients s" "i \<in> fst ` set (c_watched_keys (clients s c'))" for c' i
    by (rule oviewD(2) [OF conjunct1 [OF step_oview [OF s(3) client_ext [OF s(1) that(1) le_less_trans [OF le0 watched_refs [OF that(2)]]]]]])
  ultimately show ?thesis by (simp add: holds_def a)
qed

lemma holds_io:
  assumes s: "server_inv s" "c < nclients s" "kept c s s'" "io_only c s s'"
  shows "holds c s s'"
proof -
  have a: "c_argv (clients s' c) = c_argv (clients s c)" using s(4) by (auto simp: io_only_def)
  have "vals s' i = vals s i" if "i \<in> set (c_argv (clients s c))" for i
    using kept_vals [OF s(3)] held_argv [OF s(1,2) that] by blast
  moreover have "sds_at s' i = sds_at s i" if "c' < nclients s" "i \<in> fst ` set (c_watched_keys (clients s c'))" for c' i
    using kept_sds [OF s(3)] held_watched [OF s(1,2) that] by blast
  ultimately show ?thesis by (simp add: holds_def a)
qed

lemma holds_trans:
  assumes "holds c s s1" "holds c s1 s2" "nclients s1 = nclients s" "\<And>c'. c_watched_keys (clients s1 c') = c_watched_keys (clients s c')"
  shows "holds c s s2"
  using assms by (simp add: holds_def)

lemma fits_put: "fits c t s \<Longrightarrow> c_buf (clients (put c t s) c) = c_buf (clients s c) @ t \<and> c_reply (clients (put c t s) c) = []"
  by (simp add: fits_def put_def update_client_def)

lemma fits_step: "step s s1 \<Longrightarrow> fits c t s1 = fits c t s"
  using frame_client(7,8) [OF stepD(2), of _ s s1 c] by (simp add: fits_def)

lemma answers_answered:
  assumes a: "answers c t d f s r" and s: "good s" "ready c s"
  obtains s' where "r = Some s'" "answered c t d f s s'"
proof -
  obtain s1 where w: "works s s1 d f" and e: "emits c t s1 r" using a by (auto simp: answers_def)
  note 1 = worksD [OF w] and n = frameD(1,2) [OF worksD(5) [OF w]] and r1 = step_ready [OF worksD(1) [OF w] s(2)]
  obtain s' where s': "r = Some s'" "server_inv s'" "out s' c = out s1 c @ t" "kept c s1 s'" "io_only c s1 s'"
    using emits_sends [OF e] by (auto simp: sends_def)
  note io = io_client [OF s'(5)]
  have "stores s1 s' d (store s1 d)" by (rule io_stores [OF 1(4) readyD(2) [OF r1] s'(4,5)])
  then have "stores s s' d f" using w n(2) 1(3) by (simp add: works_def stores_def)
  moreover have "out s' c' = out s c' @ (if c' = c then t else [])" if "c' < nclients s" for c'
    using emits_isolated(1) [OF readyD(1) [OF r1] readyD(2) [OF r1] s'(4,5)] that n step_out [OF 1(1) s(1) that] s'(3) by auto
  moreover have "c_buf (clients s' c) = c_buf (clients s c) @ t \<and> c_reply (clients s' c) = []" if "fits c t s"
    using that e fits_step [OF 1(1)] fits_put [of c t s1] frame_client(7) [OF 1(5), of c] s'(1) by (auto simp: emits_def)
  moreover have "unflag (clients s' c') = (unflag (clients s c'))
      \<lparr>c_argv := c_argv (clients s' c'), c_buf := c_buf (clients s' c'), c_reply := c_reply (clients s' c')\<rparr>" for c'
    using io(1) [of c'] frameD(12) [OF 1(5), of c'] by simp
  moreover have "marks s s' d f" using w io(2) by (simp add: works_def marks_def)
  moreover have "holds c s s'"
    by (rule holds_trans [OF holds_step [OF goodD(1) [OF s(1)] readyD(2) [OF s(2)] 1(1)] holds_io [OF readyD(1) [OF r1] readyD(2) [OF r1] s'(4,5)]])
      (simp_all add: n frame_client [OF 1(5)])
  moreover have "settings s' = settings s" "\<And>d. db_watched_keys (dbs s' d) = db_watched_keys (dbs s d)"
      "\<And>c'. c_flags (clients s c') \<subseteq> c_flags (clients s' c')"
    using 1(5) io(2-4) by (auto simp: frame_def)
  ultimately show ?thesis
    using that [OF s'(1)] io_good [OF 1(4) s'(2,5)] readyD(2) [OF s(2)] unfolding answered_def by blast
qed

subsection \<open>Encoding an argument\<close>

text \<open>The server without one argument of a client; everything in it looks the same afterwards.\<close>

definition unarg :: "cid \<Rightarrow> nat \<Rightarrow> redisServer \<Rightarrow> redisServer" where
  "unarg c n s = update_client c (\<lambda>cl. cl\<lparr>c_argv := take n (c_argv cl) @ drop (Suc n) (c_argv cl)\<rparr>) s"

definition encoded :: "cid \<Rightarrow> nat \<Rightarrow> redisServer \<Rightarrow> oid \<Rightarrow> redisServer \<Rightarrow> bool" where
  "encoded c n s j s' \<longleftrightarrow>
     c < nclients s \<and> n < length (c_argv (clients s c)) \<and> good s' \<and> same_dbs s s' \<and> settings s' = settings s \<and>
     clients s' = (clients s)(c := (clients s c)\<lparr>c_argv := (c_argv (clients s c))[n := j]\<rparr>) \<and>
     vals s' j = vals s (c_argv (clients s c) ! n) \<and>
     (\<forall>x. 0 < refs (unarg c n s) x \<longrightarrow> oview s' x = oview s x)"

lemma update_client_commute:
  "incrRefCount i (update_client c f s) = map_option (update_client c f) (incrRefCount i s)"
  "decrRefCount i (update_client c f s) = map_option (update_client c f) (decrRefCount i s)"
  by (auto simp: incrRefCount_def decrRefCount_def update_client_def update_obj_def split: option.splits)

lemma tryObjectEncoding_commute:
  "tryObjectEncoding i (update_client c f s) =
     map_option (\<lambda>(j, s1). (j, update_client c f s1)) (tryObjectEncoding i s)"
  by (auto simp: tryObjectEncoding_def update_client_commute map_option_case update_client_def update_obj_def
      createEmbeddedStringObject_def decrRefCount_def incrRefCount_def Let_def split: option.splits Option.bind_splits)

lemma string2l_SomeD: "string2l b = Some v \<Longrightarrow> in_ll v \<and> b = dec_int v"
  using string2ll_SomeD by (auto simp: string2l_def split: option.splits if_splits)

definition try_result :: "redisServer \<Rightarrow> oid \<Rightarrow> oid \<Rightarrow> redisServer \<Rightarrow> bool" where
  "try_result s i j s' \<longleftrightarrow>
     good s' \<and> same_dbs s s' \<and> settings s' = settings s \<and> clients s' = clients s \<and> owned s' j \<and> vals s' j = vals s i \<and>
     (\<forall>x. 0 < refs s x \<longrightarrow> oview s' x = oview s x)"

lemma embed_result:
  assumes s: "good s" "owned s i" "refs s i = 0" and ob: "objs s i = Some ob" "is_str ob" "ob_ptr ob = Sds b"
  shows "\<exists>j s'. createEmbeddedStringObject b s = (j, s') \<and> (\<exists>s2. decrRefCount i s' = Some s2 \<and> try_result s i j s2)"
proof -
  let ?j = "Dyn (fresh s)" and ?ob = "\<lparr>ob_type = REDIS_STRING, ob_enc = REDIS_ENCODING_EMBSTR, refcount = 1, ob_ptr = Sds b\<rparr>"
  define s1 where "s1 = (update_obj ?j (Some ?ob) s)\<lparr>fresh := fresh s + 1\<rparr>"
  have ok: "obj_ok ?ob" by (simp add: obj_ok_def sdsEncodedObject_def)
  have one: "refcount ?ob = 1" by simp
  note n = new_changes [OF s(1) ok one s1_def]
  have "objs s ?j = None" using server_invD(1) [OF goodD(1) [OF s(1)]] by auto
  then have ij: "?j \<noteq> i" using ob(1) by force
  obtain s2 where 2: "decrRefCount i s1 = Some s2" "changes (at i (-1)) s1 s2" "same_dbs s1 s2"
      "\<And>j. 0 < refs s1 j \<Longrightarrow> vals s2 j = vals s1 j" "\<And>j. j \<noteq> i \<Longrightarrow> objs s2 j = objs s1 j"
    by (rule decr_changes [OF stepD(1) [OF n(1)] step_owned [OF n(1) s(2)]]) (rule that)
  have e: "0 < ext s1 ?j" using n(3) by (simp add: owned_ext)
  have "ext s2 ?j = ext s1 ?j" using 2(2) e ij by (auto simp: changes_def at_def)
  then have "owned s2 ?j" using n(3) frame_other_refs [OF stepD(2) [OF 2(2)]] by (simp add: owned_def)
  moreover have "vals s2 ?j = vals s i"
    using 2(5) [OF ij] n(4) ob by (simp add: vals_def value_of_def content_def)
  moreover have "clients s2 = clients s" using 2(1) by (auto simp: s1_def decrRefCount_def update_obj_def split: option.splits if_splits)
  moreover have "oview s2 x = oview s x" if "0 < refs s x" for x
  proof -
    have "x \<noteq> i" "x \<noteq> ?j" using that s(3) fresh_refs [OF goodD(1) [OF s(1)]] by auto
    then show ?thesis using 2(5) [of x] by (simp add: oview_def vals_def sds_at_def) (simp add: s1_def update_obj_def)
  qed
  moreover have "settings s2 = settings s" using stepD(2) [OF n(1)] stepD(2) [OF 2(2)] by (simp add: frame_def)
  ultimately have "try_result s i ?j s2"
    using stepD(1) [OF 2(2)] same_dbs_trans [OF n(2) _ 2(3)] frameD(2) [OF stepD(2) [OF n(1)]] by (simp add: try_result_def)
  moreover have "createEmbeddedStringObject b s = (?j, s1)" by (simp add: createEmbeddedStringObject_def Let_def s1_def)
  ultimately show ?thesis using 2(1) by blast
qed

lemma share_result:
  assumes s: "good s" "owned s i" "refs s i = 0" and ob: "objs s i = Some ob" "is_str ob" "content ob = dec n"
    and n: "n < REDIS_SHARED_INTEGERS"
  shows "\<exists>s1 s2. decrRefCount i s = Some s1 \<and> incrRefCount (Shared (S_integers n)) s1 = Some s2 \<and>
    try_result s i (Shared (S_integers n)) s2"
proof -
  let ?j = "Shared (S_integers n)"
  obtain s1 where 1: "decrRefCount i s = Some s1" "changes (at i (-1)) s s1" "same_dbs s s1" "\<And>j. j \<noteq> i \<Longrightarrow> objs s1 j = objs s j"
    by (rule decr_changes [OF s(1,2)]) (rule that)
  note g1 = stepD(1) [OF 1(2)]
  obtain r where j1: "objs s1 ?j = Some (\<lparr>ob_type = REDIS_STRING, ob_enc = REDIS_ENCODING_INT, refcount = 1, ob_ptr = Long (int n)\<rparr>\<lparr>refcount := r\<rparr>)"
    using shared_obj [OF goodD(1) [OF g1], of "S_integers n"] n by auto
  obtain s2 where 2: "incrRefCount ?j s1 = Some s2" "changes (at ?j 1) s1 s2" "same_dbs s1 s2" "owned s2 ?j" "vals s2 = vals s1"
      "objs s2 ?j = Some (\<lparr>ob_type = REDIS_STRING, ob_enc = REDIS_ENCODING_INT, refcount = 1, ob_ptr = Long (int n)\<rparr>\<lparr>refcount := r + 1\<rparr>)"
    by (rule incr_changes [OF g1 j1]) (rule that, simp_all)
  have "clients s2 = clients s"
    using 1(1) 2(1) by (auto simp: incrRefCount_def decrRefCount_def update_obj_def split: option.splits if_splits)
  moreover have "vals s2 ?j = vals s i" using 2(6) ob by (simp add: vals_def value_of_def content_def)
  moreover have "oview s2 x = oview s x" if "0 < refs s x" for x
  proof -
    have "x \<noteq> i" using that s(3) by auto
    then have 3: "objs s1 x = objs s x" using 1(4) by simp
    have "objs s2 x = objs s1 x" if "x \<noteq> ?j" using 2(1) j1 that by (auto simp: incrRefCount_def update_obj_def)
    then show ?thesis
      using 3 [symmetric] 2(6) j1 by (cases "x = ?j") (simp_all add: oview_def vals_def sds_at_def value_of_def content_def obj_sds_def)
  qed
  moreover have "settings s2 = settings s" using stepD(2) [OF 1(2)] stepD(2) [OF 2(2)] by (simp add: frame_def)
  ultimately have "try_result s i ?j s2"
    using stepD(1) [OF 2(2)] 2(4) same_dbs_trans [OF 1(3) _ 2(3)] frameD(2) [OF stepD(2) [OF 1(2)]] by (simp add: try_result_def)
  then show ?thesis using 1(1) 2(1) by blast
qed

lemma inplace_result:
  assumes s: "good s" "owned s i" "refs s i = 0" and ob: "objs s i = Some ob" "is_str ob" "content ob = dec_int n" "in_ll n"
  shows "try_result s i i (update_obj i (Some (ob\<lparr>ob_enc := REDIS_ENCODING_INT, ob_ptr := Long n\<rparr>)) s)"
proof -
  let ?ob = "ob\<lparr>ob_enc := REDIS_ENCODING_INT, ob_ptr := Long n\<rparr>"
  let ?s = "update_obj i (Some ?ob) s"
  note i = goodD(1) [OF s(1)]
  have inv: "server_inv ?s"
    by (rule inv_update_obj [OF i ob(1)]) (use s(3) ob live [OF i ob(1)] in \<open>auto simp: obj_ok_def refs_def\<close>)
  have o: "objs ?s = (objs s)(i := Some ?ob)" by (simp add: update_obj_def)
  have v: "vals ?s = vals s" using ob by (auto simp: vals_def o value_of_def content_def fun_eq_iff)
  have "same_dbs s ?s" using v by (intro same_dbsI [OF i]) (simp_all add: update_obj_def)
  moreover have "good ?s" by (rule good_frame [OF s(1) frame_fields(10) inv]) (use goodD(2) [OF s(1)] in \<open>simp add: db_ok_def update_obj_def\<close>)
  moreover have "owned ?s i" using s(3) live(3) [OF i ob(1)] by (subst owned_iff [OF inv]) (simp add: o)
  moreover have "oview ?s x = oview s x" if "0 < refs s x" for x
    using that s(3) by (auto simp: oview_def sds_at_def v o)
  ultimately show ?thesis using v by (simp add: try_result_def) (simp add: settings_def update_obj_def)
qed

lemma try_encode:
  assumes s: "good s" "owned s i" and ob: "objs s i = Some ob" "is_str ob"
  shows "\<exists>j s'. tryObjectEncoding i s = Some (j, s') \<and> try_result s i j s'"
proof -
  have self: "try_result s i i s" using s by (simp add: try_result_def same_dbs_refl)
  note d = tryObjectEncoding_def ob(1)
  show ?thesis
  proof (cases "ob_enc ob = REDIS_ENCODING_INT \<or> 1 < refcount ob")
    case True
    then show ?thesis using self by (auto simp: d)
  next
    case False
    note l = live [OF goodD(1) [OF s(1)] ob(1)]
    obtain b where b: "ob_ptr ob = Sds b" using l(1) ob(2) False by (auto simp: obj_ok_def)
    have "int (refs s i) < refcount ob" using s(2) ob(1) owned_iff [OF goodD(1) [OF s(1)]] by auto
    then have r0: "refs s i = 0" using False by linarith
    have cb: "content ob = b" using b by (simp add: content_def)
    show ?thesis
    proof (cases "if length b > 21 then None else string2l b")
      case None
      then show ?thesis
        using False self b ob embed_result [OF s r0 ob b]
        by (cases "length b \<le> REDIS_ENCODING_EMBSTR_SIZE_LIMIT") (auto simp: d obj_sds_def)
    next
      case (Some v)
      then have v: "in_ll v" "b = dec_int v" using string2l_SomeD [of b v] by (auto split: if_splits)
      show ?thesis
      proof (cases "maxmemory s = 0 \<and> 0 \<le> v \<and> v < int REDIS_SHARED_INTEGERS")
        case True
        then have "content ob = dec (nat v)" "nat v < REDIS_SHARED_INTEGERS" using cb v by (auto simp: dec_int_def)
        then show ?thesis using share_result [OF s r0 ob] True False b Some ob(2) by (auto simp: d obj_sds_def)
      next
        case F: False
        then show ?thesis
          using inplace_result [OF s r0 ob _ v(1)] cb v(2) False b Some ob(2) by (auto simp: d obj_sds_def)
      qed
    qed
  qed
qed

lemma count_list_drop_one:
  assumes "n < length xs"
  shows "count_list xs x = count_list (take n xs @ drop (Suc n) xs) x + (if x = xs ! n then 1 else 0)"
    "count_list (xs[n := y]) x = count_list (take n xs @ drop (Suc n) xs) x + (if x = y then 1 else 0)"
proof -
  have "xs = take n xs @ xs ! n # drop (Suc n) xs" by (rule id_take_nth_drop [OF assms])
  then have "count_list xs x = count_list (take n xs @ xs ! n # drop (Suc n) xs) x" by simp
  then show "count_list xs x = count_list (take n xs @ drop (Suc n) xs) x + (if x = xs ! n then 1 else 0)" by auto
  show "count_list (xs[n := y]) x = count_list (take n xs @ drop (Suc n) xs) x + (if x = y then 1 else 0)"
    by (simp add: upd_conv_take_nth_drop [OF assms])
qed

lemma nth_drop_one: "m < length xs \<Longrightarrow> m \<noteq> n \<Longrightarrow> xs ! m \<in> set (take n xs @ drop (Suc n) xs)"
  using nth_mem [of m "take n xs"] nth_mem [of "m - Suc n" "drop (Suc n) xs"] by (cases "m < n") auto

lemma unarg_good:
  assumes s: "good s" "c < nclients s" and n: "n < length (c_argv (clients s c))"
  shows "good (unarg c n s)" "owned (unarg c n s) (c_argv (clients s c) ! n)"
proof -
  let ?i = "c_argv (clients s c) ! n" and ?f = "\<lambda>cl. cl\<lparr>c_argv := take n (c_argv cl) @ drop (Suc n) (c_argv cl)\<rparr>"
  note inv = goodD(1) [OF s(1)]
  have r: "client_refs (clients s c) x = client_refs (?f (clients s c)) x + (if x = ?i then 1 else 0)" for x
    using count_list_drop_one(1) [OF n, of x] by (simp add: client_refs_def)
  have i: "server_inv (unarg c n s)"
    unfolding unarg_def by (rule inv_update_client [OF inv s(2), where i = None]) (use r in auto)
  have "refs (unarg c n s) ?i < refs s ?i"
    using refs_update_client [OF s(2), of ?f ?i] r [of ?i] unfolding unarg_def by simp
  moreover obtain ob where "objs s ?i = Some ob" "int (refs s ?i) \<le> refcount ob"
    using ext_live [OF argv_ext [OF inv s(2) nth_mem [OF n]]] live(2) [OF inv] by blast
  ultimately show "owned (unarg c n s) ?i" by (subst owned_iff [OF i]) (simp add: unarg_def update_client_def)
  show "good (unarg c n s)" using i s(1) by (simp add: good_def db_ok_def) (simp add: unarg_def update_client_def)
qed

lemma encode_arg_encoded:
  assumes s: "good s" "c < nclients s" and n: "n < length (c_argv (clients s c))"
    and ob: "objs s (c_argv (clients s c) ! n) = Some ob" "is_str ob"
  obtains j s' where "encode_arg c n s = Some (j, s')" "encoded c n s j s'"
proof -
  let ?argv = "c_argv (clients s c)" and ?sA = "unarg c n s"
  let ?i = "?argv ! n"
  note A = unarg_good [OF s n]
  have obA: "objs ?sA ?i = Some ob" using ob(1) by (simp add: unarg_def update_client_def)
  obtain j sB where B: "tryObjectEncoding ?i ?sA = Some (j, sB)" "try_result ?sA ?i j sB" using try_encode [OF A obA ob(2)] by blast
  have r: "good sB" "same_dbs ?sA sB" "settings sB = settings ?sA" "clients sB = clients ?sA" "owned sB j" "vals sB j = vals ?sA ?i"
      "\<And>x. 0 < refs ?sA x \<Longrightarrow> oview sB x = oview ?sA x"
    using B(2) by (auto simp: try_result_def)
  have fA: "objs ?sA = objs s" "dbs ?sA = dbs s" "settings ?sA = settings s" "nclients ?sA = nclients s" "dbnum ?sA = dbnum s"
      "clients ?sA = (clients s)(c := (clients s c)\<lparr>c_argv := take n ?argv @ drop (Suc n) ?argv\<rparr>)"
    by (simp_all add: unarg_def update_client_def settings_def)
  have nB: "nclients sB = nclients s" using r(3) fA(3) by (simp add: settings_def)
  define s' where "s' = update_client c (\<lambda>cl. cl\<lparr>c_argv := ?argv[n := j]\<rparr>) sB"
  have f': "objs s' = objs sB" "dbs s' = dbs sB" "settings s' = settings sB" "vals s' = vals sB" "oview s' = oview sB"
    by (simp_all add: s'_def update_client_def settings_def vals_def oview_def sds_at_def fun_eq_iff)
  have "server_inv s'" unfolding s'_def
  proof (rule inv_update_client [OF goodD(1) [OF r(1)], where i = "Some j"])
    show "client_refs (clients sB c\<lparr>c_argv := ?argv[n := j]\<rparr>) x \<le> client_refs (clients sB c) x + (if Some j = Some x then 1 else 0)" for x
      using count_list_drop_one(2) [OF n, of j x] by (simp add: r(4) fA(6) client_refs_def)
    show "\<exists>ob. objs sB x = Some ob \<and> int (refs sB x) < refcount ob" if "Some j = Some x" for x
      using r(5) that owned_iff [OF goodD(1) [OF r(1)]] by simp
  qed (use s(2) nB in simp)
  then have "good s'" using r(1) f' by (simp add: good_def db_ok_def settings_def)
  moreover have "clients s' = (clients s)(c := (clients s c)\<lparr>c_argv := ?argv[n := j]\<rparr>)"
    by (simp add: s'_def update_client_def r(4) fA(6))
  moreover have "vals ?sA = vals s" by (simp add: vals_def fun_eq_iff fA(1))
  then have "keyspace s' = keyspace sB" "keyspace ?sA = keyspace s"
    by (intro ext, simp add: keyspace_def f'(2,4) fA(2))+
  then have "same_dbs s s'" using r(2) by (simp add: same_dbs_def fA f')
  moreover have "vals s' j = vals s ?i" "\<And>x. 0 < refs ?sA x \<Longrightarrow> oview s' x = oview s x"
    using r(6,7) by (simp_all add: f' vals_def oview_def sds_at_def fA)
  moreover have "encode_arg c n s = Some (j, s')"
  proof -
    have "s = update_client c (\<lambda>cl. cl\<lparr>c_argv := ?argv\<rparr>) ?sA" by (simp add: unarg_def update_client_def)
    then have "tryObjectEncoding ?i s = Some (j, update_client c (\<lambda>cl. cl\<lparr>c_argv := ?argv\<rparr>) sB)"
      using tryObjectEncoding_commute [of ?i c "\<lambda>cl. cl\<lparr>c_argv := ?argv\<rparr>" ?sA] B(1) by simp
    then show ?thesis using n by (simp add: encode_arg_def arg_def s'_def) (simp add: update_client_def)
  qed
  ultimately show ?thesis using that r(3) fA(3) f'(3) s(2) n by (simp add: encoded_def)
qed

lemma unarg_refs:
  assumes "c < nclients s" "m < length (c_argv (clients s c))" "m \<noteq> n"
  shows "0 < refs (unarg c n s) (c_argv (clients s c) ! m)"
proof -
  let ?argv = "c_argv (clients s c)"
  have "?argv ! m \<in> set (take n ?argv @ drop (Suc n) ?argv)" by (rule nth_drop_one [OF assms(2,3)])
  then have "0 < client_refs (clients (unarg c n s) c) (?argv ! m)"
    using count_list_0_iff [of "take n ?argv @ drop (Suc n) ?argv" "?argv ! m"] by (simp add: client_refs_def unarg_def update_client_def)
  then show ?thesis using client_refs_le [of c "unarg c n s" "?argv ! m"] assms(1) by (simp add: unarg_def update_client_def)
qed

lemma encoded_arg:
  assumes e: "encoded c n s j s'" and s: "c < nclients s" "n < length (c_argv (clients s c))"
  shows "arg c n s' = Some j" "0 < ext s' j"
    "m < length (c_argv (clients s c)) \<Longrightarrow> m \<noteq> n \<Longrightarrow> sds_at s (c_argv (clients s c) ! m) = Some k \<Longrightarrow>
       arg c m s' = Some (c_argv (clients s c) ! m) \<and> named s' (c_argv (clients s c) ! m) k"
proof -
  let ?argv = "c_argv (clients s c)"
  have a: "c_argv (clients s' c) = ?argv[n := j]" "good s'" "nclients s' = nclients s" using e by (auto simp: encoded_def settings_def)
  show "arg c n s' = Some j" using s(2) by (simp add: arg_def a(1))
  have c': "c < nclients s'" using s(1) a(3) by simp
  note ext = argv_ext [OF goodD(1) [OF a(2)] c']
  show "0 < ext s' j" by (rule ext) (simp add: a(1) set_update_memI [OF s(2)])
  assume m: "m < length ?argv" "m \<noteq> n" "sds_at s (?argv ! m) = Some k"
  have "?argv ! m \<in> set (c_argv (clients s' c))" using m(1,2) by (metis a(1) length_list_update nth_list_update_neq nth_mem)
  then have 1: "0 < ext s' (?argv ! m)" by (rule ext)
  have "0 < refs (unarg c n s) (?argv ! m)" by (rule unarg_refs [OF s(1) m(1,2)])
  then have "sds_at s' (?argv ! m) = Some k" using e m(3) oviewD(2) by (metis encoded_def)
  then show "arg c m s' = Some (?argv ! m) \<and> named s' (?argv ! m) k" using 1 m(1,2) by (simp add: named_def arg_def a(1))
qed

lemma encoded_same:
  assumes e: "encoded c n s j s1" and s: "good s"
  shows "\<And>d. d < dbnum s \<Longrightarrow> store s1 d = store s d" "dbs s1 = dbs s" "ready c s \<Longrightarrow> ready c s1" "dbnum s1 = dbnum s"
    "\<And>c'. c' < nclients s \<Longrightarrow> out s1 c' = out s c'" "fits c t s1 = fits c t s"
proof -
  have cl: "clients s1 = (clients s)(c := (clients s c)\<lparr>c_argv := (c_argv (clients s c))[n := j]\<rparr>)" and g: "good s1"
    and f: "dbs s1 = dbs s" "settings s1 = settings s" using e by (auto simp: encoded_def same_dbs_def)
  have st: "nclients s1 = nclients s" "dbnum s1 = dbnum s" "mstime s1 = mstime s" "loading s1 = loading s" "masterhost s1 = masterhost s"
    using f(2) by (auto simp: settings_def)
  show "dbs s1 = dbs s" "dbnum s1 = dbnum s" by (fact f st)+
  show "store s1 d = store s d" if "d < dbnum s" for d
    by (rule store_cong) (use e that f in \<open>auto simp: encoded_def same_dbs_def\<close>)
  show "ready c s1" if "ready c s" using that g by (simp add: ready_def goodD st cl accepts_def)
  show "fits c t s1 = fits c t s" by (simp add: fits_def cl)
  show "out s1 c' = out s c'" if c': "c' < nclients s" for c'
  proof (rule out_update_obj)
    fix i assume "i \<in> set (c_reply (clients s c'))"
    then have "0 < client_refs (clients (unarg c n s) c') i"
      using count_list_0_iff [of "c_reply (clients s c')" i] by (auto simp: client_refs_def unarg_def update_client_def)
    then have "0 < refs (unarg c n s) i"
      using client_refs_le [of c' "unarg c n s" i] c' by (simp add: unarg_def update_client_def)
    then show "vals s1 i = vals s i" using e by (simp add: encoded_def oview_def)
  qed (simp_all add: cl)
qed

lemma encoded_holds:
  assumes e: "encoded c n s j s1"
  shows "holds c s s1"
proof -
  let ?argv = "c_argv (clients s c)"
  have E: "c < nclients s" "n < length ?argv" "c_argv (clients s1 c) = ?argv[n := j]" "vals s1 j = vals s (?argv ! n)"
    and o: "\<And>x. 0 < refs (unarg c n s) x \<Longrightarrow> oview s1 x = oview s x"
    using e by (auto simp: encoded_def)
  have "vals s1 (?argv[n := j] ! m) = vals s (?argv ! m)" if "m < length ?argv" for m
    using that E(2,4) oviewD(1) [OF o [OF unarg_refs [OF E(1) that]]] by (cases "m = n") simp_all
  then have "map (vals s1) (c_argv (clients s1 c)) = map (vals s) ?argv" by (simp add: E(3) list_eq_iff_nth_eq)
  moreover have "sds_at s1 i = sds_at s i" if c': "c' < nclients s" and i: "i \<in> fst ` set (c_watched_keys (clients s c'))" for c' i
  proof -
    have "i \<in> fst ` set (c_watched_keys (clients (unarg c n s) c'))" using i by (cases "c' = c") (simp_all add: unarg_def update_client_def)
    then have "0 < client_refs (clients (unarg c n s) c') i" by (rule le_less_trans [OF le0 watched_refs])
    moreover have "c' < nclients (unarg c n s)" using c' by (simp add: unarg_def update_client_def)
    ultimately have "0 < refs (unarg c n s) i" using client_refs_le [of c' "unarg c n s" i] by linarith
    then show ?thesis by (rule oviewD(2) [OF o])
  qed
  ultimately show ?thesis by (simp add: holds_def)
qed

lemma encoded_answered:
  assumes e: "encoded c n s j s1" and s: "good s" "d < dbnum s" and a: "answered c t d f s1 s'"
  shows "answered c t d f s s'"
proof -
  note same = encoded_same [OF e s(1)]
  have cl: "clients s1 = (clients s)(c := (clients s c)\<lparr>c_argv := (c_argv (clients s c))[n := j]\<rparr>)"
    and f: "settings s1 = settings s" "nclients s1 = nclients s" using e by (auto simp: encoded_def settings_def)
  have "unflag (clients s' c') = (unflag (clients s c'))
      \<lparr>c_argv := c_argv (clients s' c'), c_buf := c_buf (clients s' c'), c_reply := c_reply (clients s' c')\<rparr>"
      "c_flags (clients s c') \<subseteq> c_flags (clients s' c')" for c'
    using a by (auto simp: answered_def cl unflag_def split: if_splits)
  moreover have "stores s s' d f" using a same(1,4) by (simp add: answered_def stores_def)
  moreover have "marks s s' d f" using a same(1) [OF s(2)] same(2) by (simp add: answered_def marks_def)
  moreover have "c_buf (clients s1 c) = c_buf (clients s c)" by (simp add: cl)
  moreover have "holds c s s'" by (rule holds_trans [OF encoded_holds [OF e]]) (use a f(2) in \<open>simp_all add: answered_def cl\<close>)
  ultimately show ?thesis using a same(2,5,6) f by (simp add: answered_def)
qed

lemma works_answered:
  assumes s: "good s" and w: "works s s1 d f" and a: "answered c t d g s1 s'"
  shows "answered c t d g s s'"
proof -
  note W = worksD [OF w] and n = frameD(1) [OF worksD(5) [OF w]]
  have fl: "c_flags (clients s1 x) \<subseteq> c_flags (clients s' x)" for x using a by (simp add: answered_def)
  have "stores s s' d g" using stores_trans [OF _ W(5)] w a by (auto simp: works_def answered_def)
  moreover have "marks s s' d g" by (rule marks_trans [OF w _ fl]) (use a in \<open>simp add: answered_def\<close>)
  moreover have "out s' x = out s x @ (if x = c then t else [])" if "x < nclients s" for x
    using a that n step_out [OF W(1) s that] by (simp add: answered_def)
  moreover have "c_flags (clients s x) \<subseteq> c_flags (clients s' x)" for x using fl [of x] frameD(13) [OF W(5), of x] by blast
  moreover have "fits c t s1 = fits c t s" "c_buf (clients s1 c) = c_buf (clients s c)"
    using fits_step [OF W(1)] frame_client(7) [OF W(5)] by simp_all
  moreover have "holds c s s'"
    by (rule holds_trans [OF holds_step [OF goodD(1) [OF s] _ W(1)]]) (use a n in \<open>simp_all add: answered_def frame_client [OF W(5)]\<close>)
  ultimately show ?thesis using a W(5) n by (simp add: answered_def frame_def)
qed

end
