(* ===== verification/V8Parser.thy ===== *)
theory V8Parser
  imports Util "HOL-Library.Monad_Syntax"
begin

text \<open>
  The parser of \<open>src/lib/src/v8redisparser.cc\<close>, which turns the reply of a command into the JavaScript
  value that \<open>redis.__run\<close> returns. The pointer \<open>redisReply\<close> is the list of the bytes from it to the end of
  the reply (the terminating NUL excluded). An access outside a buffer, a failed \<open>strstr\<close> whose result is
  used, and a number outside the range of its C type make the parser fail with \<open>None\<close>. A JavaScript string
  is given by its UTF-8 data.
\<close>

datatype jsval = JUndefined | JNull | JBoolean bool | JNumber int | JString bytes | JArray "jsval list"

record pstate =
  redisReply :: bytes
  lastError :: bytes
  bufForString :: bytes

text \<open>\<open>strstr(p,"\r\n")-p\<close>\<close>

fun strstr_crlf :: "bytes \<Rightarrow> nat option" where
  "strstr_crlf [] = None"
| "strstr_crlf (c # cs) =
     (if c = NUL then None
      else if c = CHR 0x0D \<and> cs \<noteq> [] \<and> hd cs = CHR 0x0A then Some 0
      else map_option Suc (strstr_crlf cs))"

text \<open>\<open>v8::Integer::New\<close> takes an \<open>int32_t\<close>.\<close>

definition Integer_New :: "int \<Rightarrow> jsval" where
  "Integer_New n = JNumber (sint (word_of_int n :: u32))"

definition parse_string :: "bytes \<Rightarrow> pstate \<Rightarrow> (jsval \<times> pstate) option" where
  "parse_string replyPtr st =
     do {
       n0 \<leftarrow> atoi replyPtr;
       let special_minus_one = (n0 = -1);
       let strlength = (if special_minus_one then 0 else n0);
       len0 \<leftarrow> strstr_crlf replyPtr;
       let len = (if special_minus_one then int len0 - 2 else int len0);
       let p = drop (nat (len + 2)) replyPtr;
       (if strlength < 4096 then
          if 0 \<le> strlength \<and> nat strlength + 2 \<le> length p then
            let n = nat strlength;
                st' = st\<lparr>bufForString := take n p @ [NUL] @ drop (n + 1) (bufForString st),
                        redisReply := drop (n + 2) p\<rparr>
            in Some (if special_minus_one then JNull else JString (take n p), st')
          else None
        else
          let n = nat strlength
          in if n + 2 \<le> length p then
               let buff = take n p; k = length (c_str (bufForString st))
               in if k \<ge> 4096 then None
                  else if k \<noteq> n then
                    if n \<le> 4096
                    then Some (JArray (map (\<lambda>c. JNumber (int (code c))) (take n (bufForString st))), st)
                    else None
                  else Some (if special_minus_one then JNull else JString (c_str buff), st\<lparr>redisReply := drop (n + 2) p\<rparr>)
             else None)
     }"

definition parse_error :: "bytes \<Rightarrow> pstate \<Rightarrow> (jsval \<times> pstate) option" where
  "parse_error replyPtr st =
     do {
       len \<leftarrow> strstr_crlf replyPtr;
       (if len < 4096
        then Some (JBoolean False,
          st\<lparr>lastError := take len replyPtr @ replicate (4096 - len) NUL, redisReply := drop (len + 2) replyPtr\<rparr>)
        else None)
     }"

fun bulk_loop :: "(pstate \<Rightarrow> (jsval \<times> pstate) option) \<Rightarrow> nat \<Rightarrow> pstate \<Rightarrow> (jsval list \<times> pstate) option" where
  "bulk_loop parse 0 st = Some ([], st)"
| "bulk_loop parse (Suc n) st =
     do {
       (v, st1) \<leftarrow> parse st;
       (vs, st2) \<leftarrow> bulk_loop parse n st1;
       Some (v # vs, st2)
     }"

definition parse_bulk :: "(pstate \<Rightarrow> (jsval \<times> pstate) option) \<Rightarrow> bytes \<Rightarrow> pstate \<Rightarrow> (jsval \<times> pstate) option" where
  "parse_bulk parse replyPtr st =
     do {
       arr_length \<leftarrow> atoi replyPtr;
       len \<leftarrow> strstr_crlf replyPtr;
       (vs, st') \<leftarrow> bulk_loop parse (nat arr_length) (st\<lparr>redisReply := drop (len + 2) replyPtr\<rparr>);
       Some (JArray vs, st')
     }"

text \<open>The integer branch writes the decimal notation and its NUL into a buffer of 20 bytes.\<close>

definition parse_integer :: "bytes \<Rightarrow> pstate \<Rightarrow> (jsval \<times> pstate) option" where
  "parse_integer replyPtr st =
     do {
       lvalue \<leftarrow> atoll replyPtr;
       (if lvalue > 9007199254740992 \<or> lvalue < -9007199254740992
        then if length (dec_int lvalue) + 1 \<le> 20 then Some (JString (dec_int lvalue), st) else None
        else Some (Integer_New lvalue, st))
     }"

text \<open>The recursion of \<open>parse_response\<close> through \<open>parse_bulk\<close>, with a bound on its depth.\<close>

primrec parse_depth :: "nat \<Rightarrow> pstate \<Rightarrow> (jsval \<times> pstate) option" where
  "parse_depth 0 st = None"
| "parse_depth (Suc d) st =
     (case redisReply st of
        [] \<Rightarrow> Some (JUndefined, st)
      | c # p \<Rightarrow>
          if c = CHR ''+'' then Some (JBoolean True, st)
          else if c = CHR ''-'' then parse_error p st
          else if c = CHR '':'' then parse_integer p st
          else if c = CHR ''$'' then parse_string p st
          else if c = CHR ''*'' then parse_bulk (parse_depth d) p st
          else Some (JUndefined, st))"

text \<open>Every level of the recursion consumes a byte, so the length of the reply bounds the depth.\<close>

definition parse_response :: "pstate \<Rightarrow> (jsval \<times> pstate) option" where
  "parse_response st = parse_depth (length (redisReply st) + 1) st"

subsection \<open>The depth is no restriction\<close>

definition shrinks :: "(pstate \<Rightarrow> (jsval \<times> pstate) option) \<Rightarrow> bool" where
  "shrinks f \<longleftrightarrow> (\<forall>st v st'. f st = Some (v, st') \<longrightarrow> length (redisReply st') \<le> length (redisReply st))"

lemma bulk_loop_shrinks:
  assumes "shrinks f" "bulk_loop f n st = Some (vs, st')"
  shows "length (redisReply st') \<le> length (redisReply st)"
  using assms(2)
proof (induction n arbitrary: st vs st')
  case (Suc n)
  then obtain v st1 vs1 where "f st = Some (v, st1)" "bulk_loop f n st1 = Some (vs1, st')"
    by (auto split: Option.bind_splits prod.splits)
  then show ?case using Suc.IH assms(1) unfolding shrinks_def by (meson order_trans)
qed simp

lemma parse_string_shrinks: "redisReply st = c # p \<Longrightarrow> parse_string p st = Some (v, st') \<Longrightarrow> length (redisReply st') \<le> length (redisReply st)"
  by (auto simp: parse_string_def Let_def split: Option.bind_splits if_splits)

lemma parse_depth_shrinks: "shrinks (parse_depth d)"
proof (induction d)
  case (Suc d)
  show ?case
    unfolding shrinks_def
  proof (intro allI impI)
    fix st v st' assume e: "parse_depth (Suc d) st = Some (v, st')"
    show "length (redisReply st') \<le> length (redisReply st)"
    proof (cases "redisReply st")
      case (Cons c p)
      have b: "length (redisReply st') \<le> length (redisReply st)" if "parse_bulk (parse_depth d) p st = Some (v, st')"
        using that Cons bulk_loop_shrinks [OF Suc]
        by (fastforce simp: parse_bulk_def split: Option.bind_splits prod.splits)
      show ?thesis
        using e Cons b parse_string_shrinks [OF Cons]
        by (auto simp: parse_error_def parse_integer_def split: Option.bind_splits if_splits)
    qed (use e in auto)
  qed
qed (simp add: shrinks_def)

lemma bulk_loop_cong:
  assumes "shrinks f" "\<And>st. length (redisReply st) \<le> m \<Longrightarrow> f st = g st" "length (redisReply st) \<le> m"
  shows "bulk_loop f n st = bulk_loop g n st"
  using assms(3)
proof (induction n arbitrary: st)
  case (Suc n)
  have *: "bulk_loop f n st1 = bulk_loop g n st1" if "g st = Some (v, st1)" for v st1
    using Suc that assms(1,2) unfolding shrinks_def by (metis order_trans)
  show ?case
    using assms(2) [OF Suc.prems] * by (auto split: Option.bind_splits)
qed simp

lemma parse_depth_enough: "length (redisReply st) < d \<Longrightarrow> length (redisReply st) < e \<Longrightarrow> parse_depth d st = parse_depth e st"
proof (induction d arbitrary: e st)
  case (Suc d)
  then obtain e' where e: "e = Suc e'" by (cases e) auto
  show ?case
  proof (cases "redisReply st")
    case (Cons c p)
    have "parse_bulk (parse_depth d) p st = parse_bulk (parse_depth e') p st"
    proof (cases "strstr_crlf p")
      case (Some len)
      have "bulk_loop (parse_depth d) n (st\<lparr>redisReply := drop (len + 2) p\<rparr>) =
          bulk_loop (parse_depth e') n (st\<lparr>redisReply := drop (len + 2) p\<rparr>)" for n
      proof (rule bulk_loop_cong [OF parse_depth_shrinks, where m = "length p"])
        fix st1 :: pstate assume "length (redisReply st1) \<le> length p"
        then show "parse_depth d st1 = parse_depth e' st1" using Suc Cons e by simp
      qed simp
      then show ?thesis using Some by (auto simp: parse_bulk_def split: Option.bind_splits)
    qed (auto simp: parse_bulk_def split: Option.bind_splits)
    then show ?thesis using Cons e by simp
  qed (simp add: e)
qed simp

lemma parse_response_eq:
  "parse_response st =
     (case redisReply st of
        [] \<Rightarrow> Some (JUndefined, st)
      | c # p \<Rightarrow>
          if c = CHR ''+'' then Some (JBoolean True, st)
          else if c = CHR ''-'' then parse_error p st
          else if c = CHR '':'' then parse_integer p st
          else if c = CHR ''$'' then parse_string p st
          else if c = CHR ''*'' then parse_bulk parse_response p st
          else Some (JUndefined, st))"
proof (cases "redisReply st")
  case (Cons c p)
  have "parse_bulk (parse_depth (length p + 1)) p st = parse_bulk parse_response p st"
  proof (cases "strstr_crlf p")
    case (Some len)
    have "bulk_loop (parse_depth (length p + 1)) n (st\<lparr>redisReply := drop (len + 2) p\<rparr>) =
        bulk_loop parse_response n (st\<lparr>redisReply := drop (len + 2) p\<rparr>)" for n
    proof (rule bulk_loop_cong [OF parse_depth_shrinks, where m = "length p"])
      fix st1 :: pstate assume "length (redisReply st1) \<le> length p"
      then show "parse_depth (length p + 1) st1 = parse_response st1"
        unfolding parse_response_def by (intro parse_depth_enough) auto
    qed simp
    then show ?thesis using Some by (auto simp: parse_bulk_def split: Option.bind_splits)
  qed (auto simp: parse_bulk_def split: Option.bind_splits)
  then show ?thesis using Cons by (simp add: parse_response_def)
qed (simp add: parse_response_def)


subsection \<open>Replies and their values\<close>

datatype reply = RStatus bytes | RError bytes | RInt int | RBulk bytes | RNil | RMulti "reply list"

fun print_reply :: "reply \<Rightarrow> bytes" where
  "print_reply (RStatus t) = ''+'' @ t @ CRLF"
| "print_reply (RError t) = ''-'' @ t @ CRLF"
| "print_reply (RInt n) = '':'' @ dec_int n @ CRLF"
| "print_reply (RBulk b) = ''$'' @ dec_int (int (length b)) @ CRLF @ b @ CRLF"
| "print_reply RNil = ''$-1'' @ CRLF"
| "print_reply (RMulti rs) = ''*'' @ dec_int (int (length rs)) @ CRLF @ concat (map print_reply rs)"

fun js_value :: "reply \<Rightarrow> jsval" where
  "js_value (RStatus t) = JBoolean True"
| "js_value (RError t) = JBoolean False"
| "js_value (RInt n) = JNumber n"
| "js_value (RBulk b) = JString b"
| "js_value RNil = JNull"
| "js_value (RMulti rs) = JArray (map js_value rs)"

text \<open>The replies after which the parser stands behind what it read.\<close>

fun consumed :: "reply \<Rightarrow> bool" where
  "consumed (RStatus t) = False"
| "consumed (RError t) = (NUL \<notin> set t \<and> CHR 0x0D \<notin> set t \<and> length t < 4096)"
| "consumed (RInt n) = False"
| "consumed (RBulk b) = (length b < 4096)"
| "consumed RNil = True"
| "consumed (RMulti rs) = (int (length rs) \<le> INT_MAX \<and> (\<forall>r\<in>set rs. consumed r))"

lemma strstr_crlf_line:
  "NUL \<notin> set t \<Longrightarrow> CHR 0x0D \<notin> set t \<Longrightarrow> strstr_crlf (t @ CRLF @ r) = Some (length t)"
  by (induction t) (auto simp: CRLF_def)

lemma dec_no_ctrl: "\<not> isdigit c \<Longrightarrow> c \<notin> set (dec n)"
  using dec_digits [of n] by auto

lemma dec_int_clean: "NUL \<notin> set (dec_int n)" "CHR 0x0D \<notin> set (dec_int n)"
  by (auto simp: dec_int_def dest: dec_digits [rule_format] simp: isdigit_def)

lemma takeWhile_dec: "\<not> isdigit c \<Longrightarrow> takeWhile isdigit (dec n @ c # r) = dec n"
  using dec_digits [of n] by (simp add: takeWhile_append2)

lemma hd_dec: "isdigit (hd (dec n))"
  using dec_digits [of n] by simp

lemma atoll_dec_int:
  assumes "in_ll n" "\<not> isdigit c"
  shows "atoll (dec_int n @ c # r) = Some n"
proof (cases "n < 0")
  case True
  have "dropWhile isspace (dec_int n @ c # r) = CHR ''-'' # dec (nat (- n)) @ c # r"
    using True by (simp add: dec_int_def isspace_def)
  then show ?thesis using True assms by (simp add: atoll_def takeWhile_dec digits_val_dec)
next
  case False
  have d: "isdigit (hd (dec (nat n)))" by (rule hd_dec)
  then have "\<not> isspace (hd (dec (nat n)))" "hd (dec (nat n)) \<noteq> CHR ''-''" "hd (dec (nat n)) \<noteq> CHR ''+''"
    by (auto simp: isspace_def isdigit_def)
  moreover have "hd (dec (nat n) @ c # r) = hd (dec (nat n))" by simp
  moreover from calculation have "dropWhile isspace (dec (nat n) @ c # r) = dec (nat n) @ c # r"
    by (cases "dec (nat n)") auto
  ultimately show ?thesis using False assms by (simp add: atoll_def dec_int_def takeWhile_dec digits_val_dec Let_def)
qed

lemma atoi_dec_int:
  assumes "INT_MIN \<le> n" "n \<le> INT_MAX"
  shows "atoi (dec_int n @ CRLF @ r) = Some n"
  using atoll_dec_int [of n "CHR 0x0D" "CHR 0x0A # r"] assms
  by (simp add: atoi_def CRLF_def in_ll_def isdigit_def)

lemmas crlf_dec = strstr_crlf_line [OF dec_int_clean]

lemma parse_string_bulk:
  assumes "length b < 4096"
  shows "\<exists>st'. parse_string (dec_int (int (length b)) @ CRLF @ b @ CRLF @ r) st = Some (JString b, st') \<and>
    redisReply st' = r \<and> lastError st' = lastError st"
  using assms atoi_dec_int [of "int (length b)" "b @ CRLF @ r"] crlf_dec [of "int (length b)" "b @ CRLF @ r"]
  by (simp add: parse_string_def Let_def)

lemma parse_string_nil:
  "\<exists>st'. parse_string (''-1'' @ CRLF @ r) st = Some (JNull, st') \<and> redisReply st' = r \<and> lastError st' = lastError st"
proof -
  have d: "dec_int (-1) = ''-1''" by code_simp
  show ?thesis
    using atoi_dec_int [of "-1" r] crlf_dec [of "-1" r]
    by (simp add: parse_string_def Let_def d CRLF_def)
qed

lemma parse_error_line:
  assumes "NUL \<notin> set t" "CHR 0x0D \<notin> set t" "length t < 4096"
  shows "\<exists>st'. parse_error (t @ CRLF @ r) st = Some (JBoolean False, st') \<and> redisReply st' = r \<and>
    lastError st' = t @ replicate (4096 - length t) NUL"
  using assms by (simp add: parse_error_def strstr_crlf_line)

declare print_reply.simps [simp del]

lemma bulk_loop_replies:
  assumes "\<And>r st rest. r \<in> set rs \<Longrightarrow> redisReply st = print_reply r @ rest \<Longrightarrow>
      \<exists>st'. f st = Some (js_value r, st') \<and> redisReply st' = rest"
    and "redisReply st = concat (map print_reply rs) @ rest"
  shows "\<exists>st'. bulk_loop f (length rs) st = Some (map js_value rs, st') \<and> redisReply st' = rest"
  using assms
proof (induction rs arbitrary: st)
  case (Cons r rs)
  obtain st1 where st1: "f st = Some (js_value r, st1)" "redisReply st1 = concat (map print_reply rs) @ rest"
    using Cons.prems(1) [of r st "concat (map print_reply rs) @ rest"] Cons.prems(2) by auto
  obtain st2 where "bulk_loop f (length rs) st1 = Some (map js_value rs, st2)" "redisReply st2 = rest"
    using Cons.IH [of st1] Cons.prems(1) st1(2) by auto
  then show ?case using st1 by simp
qed simp

lemma parse_consumed:
  assumes "consumed r" "redisReply st = print_reply r @ rest"
  shows "\<exists>st'. parse_response st = Some (js_value r, st') \<and> redisReply st' = rest"
  using assms
proof (induction r arbitrary: st rest)
  case (RMulti rs)
  let ?h = "dec_int (int (length rs))" and ?t = "concat (map print_reply rs) @ rest"
  have h: "redisReply st = CHR ''*'' # ?h @ CRLF @ ?t" using RMulti.prems(2) by (simp add: print_reply.simps)
  have a: "atoi (?h @ CRLF @ ?t) = Some (int (length rs))" using RMulti.prems(1) by (intro atoi_dec_int) auto
  let ?st = "st\<lparr>redisReply := ?t\<rparr>"
  have "\<exists>st'. bulk_loop parse_response (length rs) ?st = Some (map js_value rs, st') \<and> redisReply st' = rest"
    by (rule bulk_loop_replies) (use RMulti in auto)
  then show ?case
    using a crlf_dec [of "int (length rs)" ?t] by (subst parse_response_eq) (auto simp: h parse_bulk_def)
next
  case (RError t)
  then show ?case
    using parse_error_line [of t rest st] by (subst parse_response_eq) (auto simp: print_reply.simps)
next
  case (RBulk b)
  then show ?case
    using parse_string_bulk [of b rest st] by (subst parse_response_eq) (auto simp: print_reply.simps)
next
  case RNil
  then show ?case
    using parse_string_nil [of rest st] by (subst parse_response_eq) (auto simp: print_reply.simps)
qed auto

definition readable :: "reply \<Rightarrow> bool" where
  "readable r \<longleftrightarrow> consumed r \<or> (\<exists>t. r = RStatus t) \<or> (\<exists>n. r = RInt n \<and> INT_MIN \<le> n \<and> n \<le> INT_MAX)"

lemma parse_readable:
  assumes "readable r" and "redisReply st = print_reply r @ rest"
  shows "\<exists>st'. parse_response st = Some (js_value r, st') \<and> (consumed r \<longrightarrow> redisReply st' = rest)"
  using assms(1) unfolding readable_def
proof (elim disjE exE conjE)
  assume "consumed r"
  then show ?thesis using parse_consumed assms(2) by blast
next
  fix t assume "r = RStatus t"
  then show ?thesis using assms(2) by (subst parse_response_eq) (simp add: print_reply.simps)
next
  fix n assume n: "r = RInt n" "INT_MIN \<le> n" "n \<le> INT_MAX"
  have "sint (word_of_int n :: u32) = n"
    using n by (simp add: signed_of_int signed_take_bit_int_eq_self)
  moreover have "atoll (dec_int n @ CRLF @ rest) = Some n"
    using n atoll_dec_int [of n "CHR 0x0D" "CHR 0x0A # rest"] by (simp add: CRLF_def in_ll_def isdigit_def)
  ultimately show ?thesis
    using n assms(2) by (subst parse_response_eq) (simp add: print_reply.simps parse_integer_def Integer_New_def)
qed

text \<open>
  C7. The parser returns the value of every reply made of bulk strings shorter than 4096 bytes, nil bulks,
  one-line errors and nested multi bulks of these, and leaves \<open>redisReply\<close> at the byte after it; a status
  reply gives \<open>true\<close> and an integer of 32 bits its number.
\<close>

theorem parse_response_correct:
  assumes "consumed r \<or> (\<exists>t. r = RStatus t) \<or> (\<exists>n. r = RInt n \<and> INT_MIN \<le> n \<and> n \<le> INT_MAX)"
    and "redisReply st = print_reply r @ rest"
  shows "\<exists>st'. parse_response st = Some (js_value r, st') \<and> (consumed r \<longrightarrow> redisReply st' = rest)"
  by (rule parse_readable [OF _ assms(2)]) (use assms(1) in \<open>simp add: readable_def\<close>)

definition start_state :: "bytes \<Rightarrow> pstate" where
  "start_state p = \<lparr>redisReply = p, lastError = replicate 4096 NUL, bufForString = replicate 4096 NUL\<rparr>"

theorem parse_response_correct_witness:
  "\<exists>st'. parse_response (start_state (print_reply (RMulti [RBulk ''ab'', RNil, RMulti [RError ''no'']]))) =
    Some (JArray [JString ''ab'', JNull, JArray [JBoolean False]], st')"
  using parse_response_correct [of "RMulti [RBulk ''ab'', RNil, RMulti [RError ''no'']]"
      "start_state (print_reply (RMulti [RBulk ''ab'', RNil, RMulti [RError ''no'']]))" "[]"]
  by (auto simp: start_state_def)

subsection \<open>Replies the parser gets wrong\<close>

lemma bulk_loop_stuck:
  assumes "f st = Some (v, st)"
  shows "bulk_loop f n st = Some (replicate n v, st)"
  using assms by (induction n) auto

text \<open>
  C16. After a status or an integer the parser does not move on: an array whose first element is one of
  them comes out as that element repeated.
\<close>

theorem parse_multi_repeats_first:
  assumes "(\<exists>t. r = RStatus t) \<or> (\<exists>n. r = RInt n \<and> INT_MIN \<le> n \<and> n \<le> INT_MAX)"
    and "int (length rs) < INT_MAX" "redisReply st = print_reply (RMulti (r # rs)) @ rest"
  shows "\<exists>st'. parse_response st = Some (JArray (replicate (length rs + 1) (js_value r)), st')"
proof -
  let ?h = "dec_int (int (length rs + 1))" and ?t = "print_reply r @ concat (map print_reply rs) @ rest"
  have h: "redisReply st = CHR ''*'' # ?h @ CRLF @ ?t" using assms(3) by (simp add: print_reply.simps)
  have a: "atoi (?h @ CRLF @ ?t) = Some (int (length rs + 1))" using assms(2) by (intro atoi_dec_int) auto
  let ?st = "st\<lparr>redisReply := ?t\<rparr>"
  have "parse_response ?st = Some (js_value r, ?st)"
    using assms(1)
  proof (elim disjE exE conjE)
    fix n assume n: "r = RInt n" "INT_MIN \<le> n" "n \<le> INT_MAX"
    have "sint (word_of_int n :: u32) = n"
      using n by (simp add: signed_of_int signed_take_bit_int_eq_self)
    moreover have "atoll (dec_int n @ CRLF @ x) = Some n" for x
      using n atoll_dec_int [of n "CHR 0x0D" "CHR 0x0A # x"] by (simp add: CRLF_def in_ll_def isdigit_def)
    ultimately show ?thesis
      using n by (subst parse_response_eq) (simp add: print_reply.simps parse_integer_def Integer_New_def)
  qed (subst parse_response_eq, simp add: print_reply.simps)
  then have "bulk_loop parse_response (length rs + 1) ?st = Some (replicate (length rs + 1) (js_value r), ?st)"
    by (rule bulk_loop_stuck)
  then show ?thesis
    using a crlf_dec [of "int (length rs + 1)" ?t]
    by (subst parse_response_eq) (simp add: h parse_bulk_def nat_add_distrib del: bulk_loop.simps replicate.simps)
qed

theorem parse_multi_repeats_first_witness:
  "\<exists>st'. parse_response (start_state (print_reply (RMulti [RInt 1, RInt 2]))) =
    Some (JArray [JNumber 1, JNumber 1], st')"
  using parse_multi_repeats_first [of "RInt 1" "[RInt 2]" "start_state (print_reply (RMulti [RInt 1, RInt 2]))" "[]"]
  by (simp add: start_state_def numeral_2_eq_2)

text \<open>
  C19. Integers that do not fit in 32 bits come out wrong although JavaScript could represent them up to
  \<open>2^53\<close>, and below \<open>- 10^18\<close> their text overflows the 20 byte buffer of \<open>parse_response\<close>.
\<close>

theorem parse_integer_defect:
  assumes "in_ll n" "redisReply st = print_reply (RInt n) @ rest"
  shows "(if n \<le> - (10 ^ 18) then parse_response st = None
    else if \<bar>n\<bar> \<le> 2 ^ 53 \<and> (n < INT_MIN \<or> INT_MAX < n)
    then (\<exists>v. v \<noteq> n \<and> parse_response st = Some (JNumber v, st))
    else parse_response st \<noteq> None)"
proof -
  have a: "atoll (dec_int n @ CRLF @ rest) = Some n"
    using assms(1) atoll_dec_int [of n "CHR 0x0D" "CHR 0x0A # rest"] by (simp add: CRLF_def isdigit_def)
  have p: "parse_response st = parse_integer (dec_int n @ CRLF @ rest) st"
    using assms(2) by (subst parse_response_eq) (simp add: print_reply.simps)
  have len: "19 \<le> length (dec m)" if "10 ^ 18 \<le> m" for m
    using that
  proof -
    have "\<not> length (dec m) \<le> 18" if "10 ^ 18 \<le> m" for m
    proof
      assume "length (dec m) \<le> 18"
      then have "digits_val 0 (dec m) < 10 ^ 18" using digits_val_less [OF dec_digits, of m] power_increasing [of "length (dec m)" 18 "10 :: nat"] by simp
      then show False using that by (simp add: digits_val_dec)
    qed
    then show ?thesis using that by force
  qed
  have short: "length (dec_int n) \<le> 19" if "- (10 ^ 18) < n"
  proof -
    have "nat \<bar>n\<bar> < 10 ^ (if n < 0 then 18 else 19)" using that assms(1) by (auto simp: in_ll_def nat_less_iff)
    then show ?thesis using dec_length_le [of "nat \<bar>n\<bar>" "if n < 0 then 18 else 19"] by (auto simp: dec_int_def split: if_splits)
  qed
  consider "n \<le> - (10 ^ 18)" | "- (10 ^ 18) < n" "\<bar>n\<bar> \<le> 2 ^ 53" "n < INT_MIN \<or> INT_MAX < n"
    | "- (10 ^ 18) < n" "\<not> (\<bar>n\<bar> \<le> 2 ^ 53 \<and> (n < INT_MIN \<or> INT_MAX < n))" by linarith
  then show ?thesis
  proof cases
    case 1
    then have "19 \<le> length (dec (nat (- n)))" by (intro len) (simp add: nat_le_eq_zle le_nat_iff)
    then have "20 \<le> length (dec_int n)" using 1 by (simp add: dec_int_def)
    then show ?thesis using 1 by (simp add: p parse_integer_def a)
  next
    case 2
    have "sint (word_of_int n :: u32) \<noteq> n"
      using sint_range_size [of "word_of_int n :: u32"] 2(3) by (auto simp: word_size)
    then show ?thesis using 2 by (auto simp: p parse_integer_def a Integer_New_def)
  next
    case 3
    then show ?thesis using short by (auto simp: p parse_integer_def a)
  qed
qed

theorem parse_integer_defect_witness:
  "parse_response (start_state (print_reply (RInt (-1000000000000000000)))) = None"
  using parse_integer_defect [of "-1000000000000000000" "start_state (print_reply (RInt (-1000000000000000000)))" "[]"]
  by (simp add: start_state_def in_ll_def)

text \<open>
  C20. For a bulk string of more than 4096 bytes the parser tests and copies the wrong buffer: whatever was
  parsed before, it reads beyond the end of \<open>bufForString\<close>.
\<close>

theorem parse_long_bulk_defect:
  assumes "4096 < length b" "int (length b) \<le> INT_MAX" "redisReply st = print_reply (RBulk b) @ rest"
  shows "parse_response st = None"
proof -
  have "parse_response st = parse_string (dec_int (int (length b)) @ CRLF @ b @ CRLF @ rest) st"
    using assms(3) by (subst parse_response_eq) (simp add: print_reply.simps)
  then show ?thesis
    using assms atoi_dec_int [of "int (length b)" "b @ CRLF @ rest"] crlf_dec [of "int (length b)" "b @ CRLF @ rest"]
    by (simp add: parse_string_def Let_def)
qed

theorem parse_long_bulk_defect_witness:
  "parse_response (start_state (print_reply (RBulk (replicate 5000 CHR ''x'')))) = None"
  using parse_long_bulk_defect [of "replicate 5000 CHR ''x''" "start_state (print_reply (RBulk (replicate 5000 CHR ''x'')))" "[]"]
  by (simp add: start_state_def)

end
