(* ===== verification/Strings.thy ===== *)
theory Strings
  imports Answers V8Parser
begin

text \<open>
  The commands on strings as functions on stores. The functions \<open>kv_*\<close> say what a command replies and how the
  store changes; an expire is the time in milliseconds from which on the entry is gone.
\<close>

subsection \<open>The specification\<close>

type_synonym kvstore = "bytes \<Rightarrow> (val \<times> int option) option"

definition wrongtype :: reply where
  "wrongtype = RError ''WRONGTYPE Operation against a key holding the wrong kind of value''"

definition err :: "bytes \<Rightarrow> reply" where
  "err t = RError (''ERR '' @ t)"

definition not_integer :: reply where
  "not_integer = err ''value is not an integer or out of range''"

text \<open>The string as a number. The empty string counts as 0, and a NUL ends the number.\<close>

definition int_of :: "bytes \<Rightarrow> int option" where
  "int_of b =
     (let (value, eptr, erange) = strtoll (c_str b)
      in if (b \<noteq> [] \<and> isspace (hd b)) \<or> eptr \<noteq> [] \<or> erange then None else Some value)"

definition kv_get :: "bytes \<Rightarrow> kvstore \<Rightarrow> reply" where
  "kv_get k m = (case m k of None \<Rightarrow> RNil | Some (Str b, e) \<Rightarrow> RBulk b | Some (Agg ty x, e) \<Rightarrow> wrongtype)"

definition kv_strlen :: "bytes \<Rightarrow> kvstore \<Rightarrow> reply" where
  "kv_strlen k m = (case m k of None \<Rightarrow> RInt 0 | Some (Str b, e) \<Rightarrow> RInt (int (length b)) | Some (Agg ty x, e) \<Rightarrow> wrongtype)"

definition kv_exists :: "bytes \<Rightarrow> kvstore \<Rightarrow> reply" where
  "kv_exists k m = RInt (if m k = None then 0 else 1)"

definition kv_incr :: "int \<Rightarrow> bytes \<Rightarrow> kvstore \<Rightarrow> reply \<times> kvstore" where
  "kv_incr n k m =
     (let add = (\<lambda>v e. if in_ll (v + n) then (RInt (v + n), m(k \<mapsto> (Str (dec_int (v + n)), e)))
                       else (err ''increment or decrement would overflow'', m))
      in case m k of
           None \<Rightarrow> add 0 None
         | Some (Str b, e) \<Rightarrow> (case int_of b of None \<Rightarrow> (not_integer, m) | Some v \<Rightarrow> add v e)
         | Some (Agg ty x, e) \<Rightarrow> (wrongtype, m))"

definition kv_append :: "bytes \<Rightarrow> bytes \<Rightarrow> kvstore \<Rightarrow> reply \<times> kvstore" where
  "kv_append k v m =
     (case m k of
        None \<Rightarrow> (RInt (int (length v)), m(k \<mapsto> (Str v, None)))
      | Some (Str b, e) \<Rightarrow>
          if length (b @ v) > 512 * 1024 * 1024 then (err ''string exceeds maximum allowed size (512MB)'', m)
          else (RInt (int (length (b @ v))), m(k \<mapsto> (Str (b @ v), e)))
      | Some (Agg ty x, e) \<Rightarrow> (wrongtype, m))"

text \<open>The replies that can be printed.\<close>

fun sendable :: "reply \<Rightarrow> bool" where
  "sendable (RBulk b) \<longleftrightarrow> length b < 2 ^ 63 \<and> b \<noteq> dec_int LLONG_MIN"
| "sendable (RInt n) \<longleftrightarrow> in_ll n"
| "sendable r \<longleftrightarrow> True"

subsection \<open>Looking at a key\<close>

definition serving :: "cid \<Rightarrow> dbid \<Rightarrow> redisServer \<Rightarrow> bool" where
  "serving c d s \<longleftrightarrow> good s \<and> ready c s \<and> c_db (clients s c) = d \<and> d < dbnum s"

lemma servingD:
  assumes "serving c d s"
  shows "good s" "ready c s" "c_db (clients s c) = d" "d < dbnum s" "server_inv s" "c < nclients s"
  using assms by (auto simp: serving_def goodD ready_def)

lemma serving_works:
  assumes "serving c d s" "works s s1 d f"
  shows "serving c d s1"
  using assms worksD [OF assms(2)] step_ready [OF worksD(1) [OF assms(2)]] step_arg(2) [OF worksD(1) [OF assms(2)], of c]
  by (simp add: serving_def)

lemma looked_up_cases:
  assumes "looked_up s d k v"
  obtains (absent) "v = None" "store s d k = None" "db_dict (dbs s d) k = None"
  | (found) i ob where "v = Some i" "objs s i = Some ob" "store s d k = Some (value_of ob, db_expires (dbs s d) k)"
      "db_dict (dbs s d) k = Some i"
proof (cases v)
  case None
  then show ?thesis using absent assms by (simp add: looked_up_def)
next
  case (Some i)
  then show ?thesis using found [OF Some] assms by (auto simp: looked_up_def vals_def)
qed

lemma lookupKeyRead_works:
  assumes "serving c d s" "named s i k"
  obtains v s' where "lookupKeyRead d i s = Some (v, s')" "works s s' d (store s d)" "looked_up s' d k v" "store s' d = store s d"
proof -
  obtain v s' where 1: "lookupKeyRead d i s = Some (v, s')" "step s s'" "stores s s' d (store s d)" "looked_up s' d k v"
    using lookupKeyRead_step [OF servingD(1,4) [OF assms(1)] assms(2)] .
  have w: "works s s' d (store s d)" by (rule works_same [OF 1(2) servingD(4) [OF assms(1)] 1(3)])
  show ?thesis by (rule that [OF 1(1) w 1(4) worksD(3) [OF w]])
qed

lemma lookupKeyWrite_works:
  assumes "serving c d s" "named s i k"
  obtains v s' where "lookupKeyWrite d i s = Some (v, s')" "works s s' d (store s d)" "looked_up s' d k v" "store s' d = store s d"
proof -
  obtain v s' where 1: "lookupKeyWrite d i s = Some (v, s')" "step s s'" "stores s s' d (store s d)" "looked_up s' d k v"
    using lookupKeyWrite_step [OF servingD(1,4) [OF assms(1)] assms(2)] .
  have w: "works s s' d (store s d)" by (rule works_same [OF 1(2) servingD(4) [OF assms(1)] 1(3)])
  show ?thesis by (rule that [OF 1(1) w 1(4) worksD(3) [OF w]])
qed

lemma value_of_Str: "value_of ob = Str b \<Longrightarrow> is_str ob \<and> content ob = b"
  by (simp add: value_of_def split: if_splits)

lemma value_of_Agg: "value_of ob = Agg ty x \<Longrightarrow> \<not> is_str ob"
  by (auto simp: value_of_def split: if_splits)

lemma print_shared:
  "print_reply RNil = shared_string S_nullbulk" "print_reply wrongtype = shared_string S_wrongtypeerr"
  "print_reply (RStatus ''OK'') = shared_string S_ok" "print_reply (RInt 0) = shared_string S_czero"
  "print_reply (RInt 1) = shared_string S_cone"
proof -
  have "dec_int 0 = ''0''" "dec_int 1 = ''1''" by code_simp+
  then show "print_reply (RInt 0) = shared_string S_czero" "print_reply (RInt 1) = shared_string S_cone"
    by (simp_all add: print_reply.simps)
qed (simp_all add: print_reply.simps wrongtype_def)

lemma answers_shared':
  assumes "serving c d s" "works s s1 d f" "print_reply t = shared_string x" "createSharedObjects x = Some ob"
  shows "answers c (print_reply t) d f s (addReply c (Shared x) s1)"
  using answers_shared [OF assms(2) servingD(2) [OF assms(1)] assms(4)] assms(3) by simp

lemma answers_error:
  assumes "serving c d s" "works s s1 d f" "c_str t = t"
  shows "answers c (print_reply (err t)) d f s (addReplyError c t s1)"
  using answersI [OF assms(2) emits_error [OF step_ready [OF worksD(1) [OF assms(2)] servingD(2) [OF assms(1)]], of t]] assms(3)
  by (simp add: print_reply.simps err_def)

lemma answers_int:
  assumes "serving c d s" "works s s1 d f" "in_ll n"
  shows "answers c (print_reply (RInt n)) d f s (addReplyLongLong c n s1)"
  using answersI [OF assms(2) emits_longlong [OF step_ready [OF worksD(1) [OF assms(2)] servingD(2) [OF assms(1)]] assms(3)]]
  by (simp add: print_reply.simps)

lemma answers_value:
  assumes s: "serving c d s" "works s s1 d f" and i: "db_dict (dbs s1 d) k = Some i" "objs s1 i = Some ob" "value_of ob = Str b"
    and b: "sendable (RBulk b)"
  shows "answers c (print_reply (RBulk b)) d f s (addReplyBulk c i s1)"
proof -
  note s1 = servingD [OF serving_works [OF s]]
  have h: "held s1 c i ob" using held_dict [OF s1(5,6,4) i(1)] i(2) by (auto simp: held_def)
  have "bulkable ob" using value_of_Str [OF i(3)] b by (auto simp: bulkable_def content_def)
  then have "emits c (bulk b) s1 (addReplyBulk c i s1)" using emits_bulk [OF s1(2) h] value_of_Str [OF i(3)] by simp
  then show ?thesis using answersI [OF s(2)] by (simp add: print_reply.simps bulk_def)
qed

subsection \<open>GET, STRLEN and EXISTS\<close>

lemma getCommand_answers:
  assumes s: "serving c d s" and i: "arg c 1 s = Some i" "named s i k" and t: "sendable (kv_get k (store s d))"
  shows "answers c (print_reply (kv_get k (store s d))) d (store s d) s (getCommand c s)"
proof -
  obtain v s1 where 1: "lookupKeyRead d i s = Some (v, s1)" "works s s1 d (store s d)" "looked_up s1 d k v" "store s1 d = store s d"
    by (rule lookupKeyRead_works [OF s i(2)])
  note e = getCommand_def getGenericCommand_def lookupKeyReadOrReply_def i(1) [simplified] servingD(3) [OF s] 1(1)
  from 1(3) show ?thesis
  proof (cases rule: looked_up_cases)
    case absent
    have "getCommand c s = addReply c (Shared S_nullbulk) s1"
      using absent(1) by (cases "addReply c (Shared S_nullbulk) s1") (simp_all add: e)
    then show ?thesis using answers_shared' [OF s 1(2) print_shared(1)] absent(2) 1(4) by (simp add: kv_get_def)
  next
    case (found j ob)
    show ?thesis
    proof (cases "value_of ob")
      case (Str b)
      have "getCommand c s = addReplyBulk c j s1"
        using found(1,2) value_of_Str [OF Str] by (cases "addReplyBulk c j s1") (simp_all add: e)
      then show ?thesis using answers_value [OF s 1(2) found(4,2) Str] found(3) t 1(4) Str by (simp add: kv_get_def)
    next
      case (Agg ty x)
      have "getCommand c s = addReply c (Shared S_wrongtypeerr) s1"
        using found(1,2) value_of_Agg [OF Agg] by (cases "addReply c (Shared S_wrongtypeerr) s1") (simp_all add: e)
      then show ?thesis using answers_shared' [OF s 1(2) print_shared(2)] found(3) 1(4) Agg by (simp add: kv_get_def)
    qed
  qed
qed

lemma stringObjectLen_ok: "obj_ok ob \<Longrightarrow> is_str ob \<Longrightarrow> stringObjectLen ob = Some (length (content ob))"
  by (auto simp: stringObjectLen_def string_chars_def obj_ok_def obj_sds_def obj_long_def content_def sdsEncodedObject_def ll2string_dec)

lemma strlenCommand_answers:
  assumes s: "serving c d s" and i: "arg c 1 s = Some i" "named s i k" and t: "sendable (kv_strlen k (store s d))"
  shows "answers c (print_reply (kv_strlen k (store s d))) d (store s d) s (strlenCommand c s)"
proof -
  obtain v s1 where 1: "lookupKeyRead d i s = Some (v, s1)" "works s s1 d (store s d)" "looked_up s1 d k v" "store s1 d = store s d"
    by (rule lookupKeyRead_works [OF s i(2)])
  note e = strlenCommand_def checkType_def lookupKeyReadOrReply_def i(1) [simplified] servingD(3) [OF s] 1(1)
  from 1(3) show ?thesis
  proof (cases rule: looked_up_cases)
    case absent
    have "strlenCommand c s = addReply c (Shared S_czero) s1"
      using absent(1) by (cases "addReply c (Shared S_czero) s1") (simp_all add: e)
    then show ?thesis using answers_shared' [OF s 1(2) print_shared(4)] absent(2) 1(4) by (simp add: kv_strlen_def)
  next
    case (found j ob)
    show ?thesis
    proof (cases "value_of ob")
      case (Str b)
      have "strlenCommand c s = addReplyLongLong c (int (length b)) s1"
        using found(1,2) value_of_Str [OF Str] stringObjectLen_ok [OF live(1) [OF goodD(1) [OF worksD(4) [OF 1(2)]] found(2)]] by (simp add: e)
      then show ?thesis using answers_int [OF s 1(2), of "int (length b)"] found(3) t 1(4) Str by (simp add: kv_strlen_def)
    next
      case (Agg ty x)
      have "strlenCommand c s = addReply c (Shared S_wrongtypeerr) s1"
        using found(1,2) value_of_Agg [OF Agg] by (cases "addReply c (Shared S_wrongtypeerr) s1") (simp_all add: e)
      then show ?thesis using answers_shared' [OF s 1(2) print_shared(2)] found(3) 1(4) Agg by (simp add: kv_strlen_def)
    qed
  qed
qed

lemma existsCommand_answers:
  assumes s: "serving c d s" and i: "arg c 1 s = Some i" "named s i k"
  shows "answers c (print_reply (kv_exists k (store s d))) d (store s d) s (existsCommand c s)"
proof -
  note S = servingD [OF s]
  obtain b s1 where 1: "expireIfNeeded d i s = Some (b, s1)" "step s s1" "stores s s1 d (store s d)"
      "\<not> expired s1 (db_expires (dbs s1 d) k)"
    using expireIfNeeded_step [OF S(1,4) i(2)] .
  have w: "works s s1 d (store s d)" by (rule works_same [OF 1(2) S(4) 1(3)])
  have n: "named s1 i k" by (rule named_step [OF i(2) 1(2)])
  have "db_dict (dbs s1 d) k = None \<longleftrightarrow> store s d k = None"
    using lookup_found(2) [OF goodD(1) [OF worksD(4) [OF w]] worksD(2) [OF w] 1(4) n] worksD(3) [OF w] by simp
  then show ?thesis
    using answers_shared' [OF s w print_shared(4)] answers_shared' [OF s w print_shared(5)]
    by (cases "store s d k") (simp_all add: existsCommand_def i(1) [simplified] S(3) 1(1) dbExists_def named_sds [OF n] kv_exists_def)
qed

subsection \<open>Numbers\<close>

lemma dec_only_digits: "takeWhile isdigit (dec n) = dec n" "dropWhile isdigit (dec n) = []"
  using dec_digits [of n] by (simp_all add: takeWhile_eq_all_conv dropWhile_eq_Nil_conv)

lemma strtoll_dec_int:
  assumes "in_ll n"
  shows "strtoll (dec_int n) = (n, [], False)"
proof (cases "n < 0")
  case True
  have "dropWhile isspace (dec_int n) = CHR ''-'' # dec (nat (- n))" using True by (simp add: dec_int_def isspace_def)
  then show ?thesis using True assms by (simp add: strtoll_def digits_val_dec Let_def dec_only_digits)
next
  case False
  have "\<not> isspace (hd (dec (nat n)))" "hd (dec (nat n)) \<noteq> CHR ''-''" "hd (dec (nat n)) \<noteq> CHR ''+''"
    using hd_dec [of "nat n"] by (auto simp: isspace_def isdigit_def)
  moreover from this have "dropWhile isspace (dec (nat n)) = dec (nat n)" by (cases "dec (nat n)") auto
  ultimately show ?thesis
    using False assms by (simp add: strtoll_def digits_val_dec Let_def dec_only_digits dec_int_def)
qed

lemma c_str_dec_int [simp]: "c_str (dec_int n) = dec_int n"
  using dec_int_clean(1) [of n] by (auto simp: c_str_def takeWhile_eq_all_conv)

lemma int_of_dec_int [simp]: "in_ll n \<Longrightarrow> int_of (dec_int n) = Some n"
proof -
  have "\<not> isspace (hd (dec_int n))" using hd_dec [of "nat n"] by (auto simp: dec_int_def isspace_def isdigit_def)
  then show "in_ll n \<Longrightarrow> ?thesis" by (simp add: int_of_def strtoll_dec_int)
qed

lemma int_of_in_ll: "int_of b = Some n \<Longrightarrow> in_ll n"
  by (auto simp: int_of_def strtoll_def Let_def in_ll_def split: if_splits)

lemma getLongLong_object:
  assumes "objs s i = Some ob" "obj_ok ob" "is_str ob"
  shows "getLongLongFromObject s (Some i) = Some (int_of (content ob))"
proof (cases "sdsEncodedObject ob")
  case True
  then obtain b where "ob_ptr ob = Sds b" using assms(2,3) by (auto simp: obj_ok_def sdsEncodedObject_def)
  then show ?thesis using True assms by (simp add: getLongLongFromObject_def obj_sds_def content_def int_of_def split: prod.split)
next
  case False
  then obtain n where "ob_ptr ob = Long n" "in_ll n" "ob_enc ob = REDIS_ENCODING_INT" using assms(2,3) by (auto simp: obj_ok_def)
  then show ?thesis using False assms by (simp add: getLongLongFromObject_def obj_long_def content_def)
qed

lemma getLongLong_named:
  assumes "server_inv s" "named s i b"
  shows "getLongLongFromObject s (Some i) = Some (int_of b)"
proof -
  obtain ob where ob: "objs s i = Some ob" "is_str ob" "ob_ptr ob = Sds b" using named_obj [OF assms] by metis
  then show ?thesis using getLongLong_object [OF ob(1) live(1) [OF assms(1) ob(1)] ob(2)] by (simp add: content_def)
qed

lemma incr_overflows_iff: "in_ll v \<Longrightarrow> in_ll n \<Longrightarrow> incr_overflows v n \<longleftrightarrow> \<not> in_ll (v + n)"
  by (auto simp: incr_overflows_def in_ll_def)

subsection \<open>SET\<close>

text \<open>The time at which the new entry expires, an error, or \<open>None\<close> when it does not fit in a \<open>long long\<close>.\<close>

definition kv_expire :: "int \<Rightarrow> (time_unit \<times> bytes) option \<Rightarrow> (reply + int option) option" where
  "kv_expire now ex =
     (case ex of
        None \<Rightarrow> Some (Inr None)
      | Some (u, b) \<Rightarrow>
          (case int_of b of
             None \<Rightarrow> Some (Inl not_integer)
           | Some n \<Rightarrow>
               if n \<le> 0 then Some (Inl (err ''invalid expire time in SETEX''))
               else do { ms \<leftarrow> checked (if u = UNIT_SECONDS then n * 1000 else n); t \<leftarrow> checked (now + ms); Some (Inr (Some t)) }))"

definition kv_set :: "int \<Rightarrow> bool \<Rightarrow> bool \<Rightarrow> (time_unit \<times> bytes) option \<Rightarrow> reply \<Rightarrow> reply \<Rightarrow> bytes \<Rightarrow> bytes \<Rightarrow> kvstore \<Rightarrow>
    (reply \<times> kvstore) option" where
  "kv_set now nx xx ex ok abort k v m =
     do {
       e \<leftarrow> kv_expire now ex;
       Some (case e of
           Inl r \<Rightarrow> (r, m)
         | Inr t \<Rightarrow> if (nx \<and> m k \<noteq> None) \<or> (xx \<and> m k = None) then (abort, m) else (ok, m(k \<mapsto> (Str v, t))))
     }"

text \<open>The two halves of \<open>setGenericCommand\<close>.\<close>

definition set_milliseconds :: "cid \<Rightarrow> set_flags \<Rightarrow> redisServer \<Rightarrow> (int option \<times> redisServer) option" where
  "set_milliseconds c flags s =
     (case set_expire flags of
        None \<Rightarrow> Some (Some 0, s)
      | Some e \<Rightarrow> do {
          (r, s1) \<leftarrow> getLongLongFromObjectOrReply c (Some e) None s;
          (case r of
             None \<Rightarrow> Some (None, s1)
           | Some n \<Rightarrow>
               if n \<le> 0 then map_option (Pair None) (addReplyError c ''invalid expire time in SETEX'' s1)
               else do { m \<leftarrow> checked (if set_unit flags = UNIT_SECONDS then n * 1000 else n); Some (Some m, s1) })
        })"

definition set_value :: "cid \<Rightarrow> dbid \<Rightarrow> set_flags \<Rightarrow> oid \<Rightarrow> oid \<Rightarrow> shared \<Rightarrow> shared \<Rightarrow> int \<Rightarrow> redisServer \<Rightarrow> redisServer option" where
  "set_value c d flags key val ok abort milliseconds s1 =
     do {
       (a, s2) \<leftarrow> (if set_nx flags then do { (v, s2) \<leftarrow> lookupKeyWrite d key s1; Some (v \<noteq> None, s2) } else Some (False, s1));
       (b, s3) \<leftarrow> (if \<not> a \<and> set_xx flags then do { (v, s3) \<leftarrow> lookupKeyWrite d key s2; Some (v = None, s3) } else Some (False, s2));
       (if a \<or> b then addReply c (Shared abort) s3
        else do {
          s4 \<leftarrow> setKey d key val s3;
          let s5 = s4\<lparr>dirty := dirty s4 + 1\<rparr>;
          s6 \<leftarrow> (if set_expire flags \<noteq> None
                 then do { when \<leftarrow> checked (mstime s5 + milliseconds); setExpire d key when s5 }
                 else Some s5);
          s7 \<leftarrow> notifyKeyspaceEvent REDIS_NOTIFY_STRING ''set'' key d s6;
          s8 \<leftarrow> (if set_expire flags \<noteq> None then notifyKeyspaceEvent REDIS_NOTIFY_GENERIC ''expire'' key d s7 else Some s7);
          addReply c (Shared ok) s8
        })
     }"

lemma setGenericCommand_halves:
  "setGenericCommand c flags i j ok abort s =
     do {
       (ms, s1) \<leftarrow> set_milliseconds c flags s;
       (case ms of
          None \<Rightarrow> Some s1
        | Some n \<Rightarrow> set_value c (c_db (clients s c)) flags i j (case ok of Some r \<Rightarrow> r | None \<Rightarrow> S_ok)
            (case abort of Some r \<Rightarrow> r | None \<Rightarrow> S_nullbulk) n s1)
     }"
  unfolding setGenericCommand_def set_milliseconds_def set_value_def Let_def ..

lemma lookup_flag:
  assumes s: "serving c d s" "named s i k"
  obtains v s' where "(if p then do { (v, s') \<leftarrow> lookupKeyWrite d i s; Some (q v, s') } else Some (False, s)) = Some (p \<and> q v, s')"
    "works s s' d (store s d)" "v = None \<longleftrightarrow> store s d k = None"
proof (cases p)
  case True
  obtain v s1 where 1: "lookupKeyWrite d i s = Some (v, s1)" "works s s1 d (store s d)" "looked_up s1 d k v" "store s1 d = store s d"
    by (rule lookupKeyWrite_works [OF s])
  show ?thesis by (rule that [OF _ 1(2), of v]) (use True 1(1,3,4) in \<open>auto simp: looked_up_def\<close>)
next
  case False
  show ?thesis
    by (rule that [OF _ works_refl [OF servingD(1,4) [OF s(1)]], of "if store s d k = None then None else Some i"]) (use False in auto)
qed

lemma setExpire_step:
  assumes s: "good s" "d < dbnum s" "named s i k" and k: "store s d k = Some (x, None)" and t: "mstime s \<le> t"
  obtains s' where "setExpire d i t s = Some s'" "step s s'" "stores s s' d ((store s d)(k \<mapsto> (x, Some t)))"
proof -
  have ks: "keyspace s d k = Some x" using k by (auto simp: store_def entry_def split: option.splits if_splits)
  then have dk: "db_dict (dbs s d) k \<noteq> None" using keyspace_dict [OF goodD(1) [OF s(1)] s(2), of k] by simp
  let ?s = "set_expires d k (Some t) s"
  have st: "step s ?s" by (rule set_expires_step [OF s(1)]) (use dk in simp)
  have "becomes s ?s d (keyspace s d) ((db_expires (dbs s d))(k \<mapsto> t))"
    by (simp add: becomes_def keyspace_set_expires set_expires_fields)
  then have "stores s ?s d ((store s d)(k \<mapsto> (x, Some t)))"
    by (rule becomes_stores [OF _ stepD(2) [OF st] s(2)]) (use ks t in \<open>auto simp: store_def entry_def expired_def\<close>)
  then show ?thesis using that [OF _ st] dk s(3) by (auto simp: setExpire_def named_sds)
qed

lemma setKey_works:
  assumes s: "serving c d s" "named s i k" and v: "0 < ext s j" "vals s j = Some x"
  obtains s' where "setKey d i j s = Some s'" "works s s' d ((store s d)(k \<mapsto> (x, None)))"
    "\<And>ko cs c. db_watched_keys (dbs s d) k = Some (ko, cs) \<Longrightarrow> c \<in> set cs \<Longrightarrow> REDIS_DIRTY_CAS \<in> c_flags (clients s' c)"
proof -
  obtain s' where 1: "setKey d i j s = Some s'" "step s s'" "stores s s' d ((store s d)(k \<mapsto> (x, None)))"
    "\<And>ko cs c. db_watched_keys (dbs s d) k = Some (ko, cs) \<Longrightarrow> c \<in> set cs \<Longrightarrow> REDIS_DIRTY_CAS \<in> c_flags (clients s' c)"
    by (rule setKey_step [OF servingD(1,4) [OF s(1)] s(2) v]) (rule that)
  show ?thesis by (rule that [OF 1(1) works_key [OF 1(2) servingD(4) [OF s(1)] 1(3,4)] 1(4)])
qed

definition set_time :: "set_flags \<Rightarrow> int \<Rightarrow> redisServer \<Rightarrow> int option" where
  "set_time flags ms s = (if set_expire flags = None then None else Some (mstime s + ms))"

lemma set_and_expire:
  assumes s: "serving c d s" "named s i k" and v: "0 < ext s j" "vals s j = Some x"
    and t: "set_expire flags \<noteq> None \<Longrightarrow> in_ll (mstime s + ms) \<and> 0 \<le> ms"
  obtains s' where
    "do { s4 \<leftarrow> setKey d i j s;
       let s5 = s4\<lparr>dirty := dirty s4 + 1\<rparr>;
       if set_expire flags \<noteq> None then do { when \<leftarrow> checked (mstime s5 + ms); setExpire d i when s5 } else Some s5 } = Some s'"
    "works s s' d ((store s d)(k \<mapsto> (x, set_time flags ms s)))"
proof -
  obtain s4 where 4: "setKey d i j s = Some s4" "works s s4 d ((store s d)(k \<mapsto> (x, None)))"
    "\<And>ko cs c. db_watched_keys (dbs s d) k = Some (ko, cs) \<Longrightarrow> c \<in> set cs \<Longrightarrow> REDIS_DIRTY_CAS \<in> c_flags (clients s4 c)"
    by (rule setKey_works [OF s v]) (rule that)
  let ?s5 = "s4\<lparr>dirty := dirty s4 + 1\<rparr>"
  have st5: "step s4 ?s5" by (rule step_fields(1) [OF worksD(4) [OF 4(2)]])
  have 5: "works s ?s5 d ((store s d)(k \<mapsto> (x, None)))" by (rule works_more [OF 4(2) st5 same_dbs_fields(1)])
  have n5: "named ?s5 i k" by (rule named_step [OF s(2) worksD(1) [OF 5]])
  show ?thesis
  proof (cases "set_expire flags = None")
    case True
    then show ?thesis using that [of ?s5] 4(1) 5 by (simp add: set_time_def)
  next
    case False
    then have t': "in_ll (mstime s + ms)" "0 \<le> ms" using t by auto
    have m: "mstime ?s5 = mstime s" using frameD(3) [OF worksD(5) [OF 5]] by simp
    obtain s6 where 6: "setExpire d i (mstime s + ms) ?s5 = Some s6" "step ?s5 s6"
        "stores ?s5 s6 d ((store ?s5 d)(k \<mapsto> (x, Some (mstime s + ms))))"
      by (rule setExpire_step [OF worksD(4,2) [OF 5] n5, of x "mstime s + ms"]) (use worksD(3) [OF 5] m t' in \<open>auto intro: that\<close>)
    have st: "stores s s6 d ((store s d)(k \<mapsto> (x, Some (mstime s + ms))))"
      using stores_trans [OF _ worksD(5) [OF 5] 6(3)] 5 worksD(3) [OF 5] by (auto simp: works_def)
    have "works s s6 d ((store s d)(k \<mapsto> (x, Some (mstime s + ms))))"
    proof (rule works_key [OF step_trans [OF worksD(1) [OF 5] 6(2)] servingD(4) [OF s(1)] st])
      show "REDIS_DIRTY_CAS \<in> c_flags (clients s6 c)" if "db_watched_keys (dbs s d) k = Some (ko, cs)" "c \<in> set cs" for ko cs c
        using 4(3) [OF that] frameD(13) [OF stepD(2) [OF step_trans [OF st5 6(2)]], of c] by blast
    qed
    then show ?thesis using that [of s6] 4(1) 6(1) False m t'(1) by (simp add: set_time_def checked_def)
  qed
qed

lemma set_value_answers:
  assumes s: "serving c d s" "named s i k" and v: "0 < ext s j" "vals s j = Some (Str v)"
    and ok: "print_reply okr = shared_string ok" "createSharedObjects ok = Some o1"
    and ab: "print_reply abr = shared_string abort" "createSharedObjects abort = Some o2"
    and t: "set_expire flags \<noteq> None \<Longrightarrow> in_ll (mstime s + ms) \<and> 0 \<le> ms"
    and b: "b \<longleftrightarrow> (set_nx flags \<and> store s d k \<noteq> None) \<or> (set_xx flags \<and> store s d k = None)"
  shows "answers c (print_reply (if b then abr else okr)) d (if b then store s d else (store s d)(k \<mapsto> (Str v, set_time flags ms s))) s
    (set_value c d flags i j ok abort ms s)"
proof -
  obtain v1 :: "oid option" and s2 where 2: "(if set_nx flags then do { (v, s') \<leftarrow> lookupKeyWrite d i s; Some (v \<noteq> None, s') } else Some (False, s)) =
      Some (set_nx flags \<and> v1 \<noteq> None, s2)" "works s s2 d (store s d)" "v1 = None \<longleftrightarrow> store s d k = None"
    by (rule lookup_flag [OF s, where p = "set_nx flags" and q = "\<lambda>v. v \<noteq> None"])
  let ?a = "set_nx flags \<and> v1 \<noteq> None"
  have s2: "serving c d s2" "named s2 i k" by (rule serving_works [OF s(1) 2(2)], rule named_step [OF s(2) worksD(1) [OF 2(2)]])
  obtain v2 :: "oid option" and s3 where 3: "(if \<not> ?a \<and> set_xx flags then do { (v, s') \<leftarrow> lookupKeyWrite d i s2; Some (v = None, s') } else Some (False, s2)) =
      Some ((\<not> ?a \<and> set_xx flags) \<and> v2 = None, s3)" "works s2 s3 d (store s2 d)" "v2 = None \<longleftrightarrow> store s2 d k = None"
    by (rule lookup_flag [OF s2, where p = "\<not> ?a \<and> set_xx flags" and q = "\<lambda>v. v = None"])
  have w: "works s s3 d (store s d)" using works_trans [OF 2(2) 3(2)] worksD(3) [OF 2(2)] by simp
  have b': "?a \<or> ((\<not> ?a \<and> set_xx flags) \<and> v2 = None) \<longleftrightarrow> b" using 2(3) 3(3) worksD(3) [OF 2(2)] b by auto
  show ?thesis
  proof (cases b)
    case True
    then have "set_value c d flags i j ok abort ms s = addReply c (Shared abort) s3" using 2(1) 3(1) b' by (simp add: set_value_def)
    then show ?thesis using answers_shared' [OF s(1) w ab] True by simp
  next
    case False
    have s3: "serving c d s3" "named s3 i k" "0 < ext s3 j" "vals s3 j = Some (Str v)" "mstime s3 = mstime s"
      using serving_works [OF s(1) w] named_step [OF s(2) worksD(1) [OF w]] step_oview [OF worksD(1) [OF w] v(1)] v
        frameD(3) [OF worksD(5) [OF w]] by (auto simp: oview_def)
    obtain s6 where 6: "do { s4 \<leftarrow> setKey d i j s3;
       let s5 = s4\<lparr>dirty := dirty s4 + 1\<rparr>;
       if set_expire flags \<noteq> None then do { when \<leftarrow> checked (mstime s5 + ms); setExpire d i when s5 } else Some s5 } = Some s6"
        "works s3 s6 d ((store s3 d)(k \<mapsto> (Str v, set_time flags ms s3)))"
      by (rule set_and_expire [OF s3(1-4), of flags ms]) (use t s3(5) in auto)
    have "set_time flags ms s3 = set_time flags ms s" by (simp add: set_time_def s3(5))
    then have w6: "works s s6 d ((store s d)(k \<mapsto> (Str v, set_time flags ms s)))"
      using works_trans [OF w 6(2)] worksD(3) [OF w] by simp
    have "set_value c d flags i j ok abort ms s = addReply c (Shared ok) s6"
      using 2(1) 3(1) b' False 6(1) good_notify [OF worksD(4) [OF w6]]
      by (cases "setKey d i j s3") (auto simp: set_value_def Let_def split: Option.bind_splits if_splits)
    then show ?thesis using answers_shared' [OF s(1) w6 ok] False by simp
  qed
qed

lemma setGeneric_answers:
  assumes s: "serving c d s" "named s i k" and v: "0 < ext s j" "vals s j = Some (Str v)"
    and ok: "print_reply okr = shared_string (case ok of Some r \<Rightarrow> r | None \<Rightarrow> S_ok)"
      "createSharedObjects (case ok of Some r \<Rightarrow> r | None \<Rightarrow> S_ok) = Some o1"
    and ab: "print_reply abr = shared_string (case abort of Some r \<Rightarrow> r | None \<Rightarrow> S_nullbulk)"
      "createSharedObjects (case abort of Some r \<Rightarrow> r | None \<Rightarrow> S_nullbulk) = Some o2"
    and ex: "(set_expire flags = None \<and> ex = None) \<or> (\<exists>e b. set_expire flags = Some e \<and> named s e b \<and> ex = Some (set_unit flags, b))"
    and k: "kv_set (mstime s) (set_nx flags) (set_xx flags) ex okr abr k v (store s d) = Some (t, m)"
  shows "answers c (print_reply t) d m s (setGenericCommand c flags i j ok abort s)"
proof -
  note S = servingD [OF s(1)] and w = works_refl [OF servingD(1,4) [OF s(1)]]
  let ?b = "(set_nx flags \<and> store s d k \<noteq> None) \<or> (set_xx flags \<and> store s d k = None)"
  have go: "answers c (print_reply t) d m s (setGenericCommand c flags i j ok abort s)"
    if "set_milliseconds c flags s = Some (Some ms, s)" "set_expire flags \<noteq> None \<Longrightarrow> in_ll (mstime s + ms) \<and> 0 \<le> ms"
      "t = (if ?b then abr else okr)" "m = (if ?b then store s d else (store s d)(k \<mapsto> (Str v, set_time flags ms s)))" for ms
    using set_value_answers [OF s v ok ab that(2) refl] that(1,3,4) by (simp add: setGenericCommand_halves S(3))
  from ex show ?thesis
  proof
    assume n: "set_expire flags = None \<and> ex = None"
    show ?thesis
      by (rule go [of 0]) (use n k in \<open>auto simp: set_milliseconds_def kv_set_def kv_expire_def set_time_def\<close>)
  next
    assume "\<exists>e b. set_expire flags = Some e \<and> named s e b \<and> ex = Some (set_unit flags, b)"
    then obtain e b where e: "set_expire flags = Some e" "named s e b" "ex = Some (set_unit flags, b)" by blast
    have g: "getLongLongFromObject s (Some e) = Some (int_of b)" by (rule getLongLong_named [OF S(5) e(2)])
    note sm = set_milliseconds_def getLongLongFromObjectOrReply_def e(1) g
    show ?thesis
    proof (cases "int_of b")
      case None
      let ?r = "addReplyError c ''value is not an integer or out of range'' s"
      have "setGenericCommand c flags i j ok abort s = ?r"
        by (cases ?r) (simp_all add: setGenericCommand_halves sm None)
      then show ?thesis
        using answers_error [OF s(1) w, of "''value is not an integer or out of range''"] k e None
        by (simp add: kv_set_def kv_expire_def not_integer_def c_str_def)
    next
      case (Some n)
      show ?thesis
      proof (cases "n \<le> 0")
        case True
        let ?r = "addReplyError c ''invalid expire time in SETEX'' s"
        have "setGenericCommand c flags i j ok abort s = ?r"
          by (cases ?r) (simp_all add: setGenericCommand_halves sm Some True)
        then show ?thesis
          using answers_error [OF s(1) w, of "''invalid expire time in SETEX''"] k e Some True
          by (simp add: kv_set_def kv_expire_def c_str_def)
      next
        case False
        let ?ms = "if set_unit flags = UNIT_SECONDS then n * 1000 else n"
        have c: "in_ll ?ms" "in_ll (mstime s + ?ms)"
          using k e Some False by (auto simp: kv_set_def kv_expire_def checked_def split: Option.bind_splits if_splits)
        show ?thesis
          by (rule go [of ?ms]) (use c k e Some False in \<open>auto simp: sm kv_set_def kv_expire_def set_time_def checked_def split: if_splits\<close>)
      qed
    qed
  qed
qed

subsection \<open>The arguments of a command\<close>

text \<open>The arguments of the client are the strings \<open>bs\<close>.\<close>

definition args :: "cid \<Rightarrow> redisServer \<Rightarrow> bytes list \<Rightarrow> bool" where
  "args c s bs \<longleftrightarrow> map (sds_at s) (c_argv (clients s c)) = map Some bs"

lemma argsD:
  assumes "serving c d s" "args c s bs" "n < length bs"
  shows "arg c n s = Some (c_argv (clients s c) ! n)" "named s (c_argv (clients s c) ! n) (bs ! n)"
    "n < length (c_argv (clients s c))" "sds_at s (c_argv (clients s c) ! n) = Some (bs ! n)"
proof -
  have l: "length (c_argv (clients s c)) = length bs" using assms(2) by (auto simp: args_def dest: map_eq_imp_length_eq)
  then show n: "n < length (c_argv (clients s c))" using assms(3) by simp
  then show "arg c n s = Some (c_argv (clients s c) ! n)" by (simp add: arg_def)
  have "map (sds_at s) (c_argv (clients s c)) ! n = map Some bs ! n" using assms(2) by (simp add: args_def)
  then show b: "sds_at s (c_argv (clients s c) ! n) = Some (bs ! n)" using n assms(3) by simp
  then show "named s (c_argv (clients s c) ! n) (bs ! n)"
    using argv_ext [OF servingD(5,6) [OF assms(1)] nth_mem [OF n]] by (simp add: named_def)
qed

lemma encode_args:
  assumes s: "serving c d s" "args c s bs" and n: "n < length bs"
  obtains j s1 where "encode_arg c n s = Some (j, s1)" "encoded c n s j s1" "serving c d s1" "vals s1 j = Some (Str (bs ! n))"
    "0 < ext s1 j" "mstime s1 = mstime s" "store s1 d = store s d"
    "\<And>m. m < length bs \<Longrightarrow> m \<noteq> n \<Longrightarrow> arg c m s1 = Some (c_argv (clients s c) ! m) \<and> named s1 (c_argv (clients s c) ! m) (bs ! m)"
    "dbs s1 = dbs s"
proof -
  note S = servingD [OF s(1)] and A = argsD [OF s]
  obtain ob where ob: "objs s (c_argv (clients s c) ! n) = Some ob" "is_str ob" "ob_ptr ob = Sds (bs ! n)"
    using named_obj [OF S(5) A(2) [OF n]] by metis
  obtain j s1 where 1: "encode_arg c n s = Some (j, s1)" "encoded c n s j s1"
    by (rule encode_arg_encoded [OF S(1,6) A(3) [OF n] ob(1,2)])
  note same = encoded_same [OF 1(2) S(1)]
  have "c_db (clients s1 c) = c_db (clients s c)" "good s1" "mstime s1 = mstime s" using 1(2) by (auto simp: encoded_def settings_def)
  moreover from this have "serving c d s1" using S same(3,4) by (simp add: serving_def)
  moreover have "vals s1 j = Some (Str (bs ! n))" using 1(2) ob by (simp add: encoded_def vals_def value_of_def content_def)
  ultimately show ?thesis
    using that [OF 1 _ _ encoded_arg(2) [OF 1(2) S(6) A(3) [OF n]]] same(1) [OF S(4)] same(2)
      encoded_arg(3) [OF 1(2) S(6) A(3) [OF n] A(3) _ A(4)] by simp
qed

lemma encode_then:
  assumes s: "serving c d s" "args c s bs" and n: "n < length bs"
    and F: "\<And>j s1. serving c d s1 \<Longrightarrow> vals s1 j = Some (Str (bs ! n)) \<Longrightarrow> 0 < ext s1 j \<Longrightarrow> mstime s1 = mstime s \<Longrightarrow>
      store s1 d = store s d \<Longrightarrow>
      (\<And>m. m < length bs \<Longrightarrow> m \<noteq> n \<Longrightarrow> arg c m s1 = Some (c_argv (clients s c) ! m) \<and> named s1 (c_argv (clients s c) ! m) (bs ! m)) \<Longrightarrow>
      dbs s1 = dbs s \<Longrightarrow> answers c t d f s1 (F j s1)"
  shows "\<exists>s'. encode_arg c n s \<bind> (\<lambda>(j, s1). F j s1) = Some s' \<and> answered c t d f s s'"
proof -
  obtain j s1 where 1: "encode_arg c n s = Some (j, s1)" "encoded c n s j s1" "serving c d s1" "vals s1 j = Some (Str (bs ! n))"
    "0 < ext s1 j" "mstime s1 = mstime s" "store s1 d = store s d"
    "\<And>m. m < length bs \<Longrightarrow> m \<noteq> n \<Longrightarrow> arg c m s1 = Some (c_argv (clients s c) ! m) \<and> named s1 (c_argv (clients s c) ! m) (bs ! m)"
    "dbs s1 = dbs s"
    by (rule encode_args [OF s n]) (rule that)
  note a = F [OF 1(3-9)]
  obtain s' where "F j s1 = Some s'" "answered c t d f s1 s'"
    by (rule answers_answered [OF a servingD(1,2) [OF 1(3)]])
  then show ?thesis using encoded_answered [OF 1(2) servingD(1,4) [OF s(1)]] 1(1) by simp
qed

lemma answers_then: "answers c t d f s r \<Longrightarrow> serving c d s \<Longrightarrow> \<exists>s'. r = Some s' \<and> answered c t d f s s'"
  by (rule answers_answered [of c t d f s r]) (auto simp: servingD)

text \<open>The options of \<open>SET\<close>.\<close>

fun kv_options :: "bytes list \<Rightarrow> bool \<times> bool \<times> (time_unit \<times> bytes) option \<Rightarrow> (bool \<times> bool \<times> (time_unit \<times> bytes) option) option" where
  "kv_options [] opts = Some opts"
| "kv_options (a # as) (nx, xx, ex) =
     (if strcaseeq (c_str a) ''nx'' then kv_options as (True, xx, ex)
      else if strcaseeq (c_str a) ''xx'' then kv_options as (nx, True, ex)
      else case as of
        [] \<Rightarrow> None
      | b # bs \<Rightarrow>
          if strcaseeq (c_str a) ''ex'' then kv_options bs (nx, xx, Some (UNIT_SECONDS, b))
          else if strcaseeq (c_str a) ''px'' then kv_options bs (nx, xx, Some (UNIT_MILLISECONDS, b))
          else None)"

definition flags_match :: "(oid \<times> bytes) set \<Rightarrow> set_flags \<Rightarrow> bool \<times> bool \<times> (time_unit \<times> bytes) option \<Rightarrow> bool" where
  "flags_match P flags = (\<lambda>(nx, xx, ex).
     set_nx flags = nx \<and> set_xx flags = xx \<and>
     (case set_expire flags of None \<Rightarrow> ex = None | Some e \<Rightarrow> (\<exists>b. (e, b) \<in> P \<and> ex = Some (set_unit flags, b))))"

lemma flags_match_ex:
  "flags_match P flags (nx, xx, ex) \<Longrightarrow> (\<And>e b. (e, b) \<in> P \<Longrightarrow> named s e b) \<Longrightarrow>
    (set_expire flags = None \<and> ex = None) \<or> (\<exists>e b. set_expire flags = Some e \<and> named s e b \<and> ex = Some (set_unit flags, b))"
  by (cases "set_expire flags") (auto simp: flags_match_def)

lemma set_options_match:
  assumes "map (sds_at s) is = map Some bs" "flags_match P flags opts" "set (zip is bs) \<subseteq> P"
  shows "\<exists>r. set_options s is flags = Some r \<and> rel_option (flags_match P) r (kv_options bs opts)"
  using assms
proof (induction s "is" flags arbitrary: bs opts rule: set_options.induct)
  case (1 s flags)
  then show ?case by simp
next
  case (2 s i "is" flags)
  note prems = "2.prems" and IH = "2.IH"
  obtain a as where bs: "bs = a # as" "sds_at s i = Some a" "map (sds_at s) is = map Some as" using prems(1) by (cases bs) auto
  obtain nx xx ex where o: "opts = (nx, xx, ex)" by (cases opts)
  have P: "set (zip is as) \<subseteq> P" using prems(3) bs(1) by simp
  show ?case
  proof (cases "strcaseeq (c_str a) ''nx'' \<or> strcaseeq (c_str a) ''xx''")
    case True
    have m: "flags_match P (flags\<lparr>set_nx := True\<rparr>) (True, xx, ex)" "flags_match P (flags\<lparr>set_xx := True\<rparr>) (nx, True, ex)"
      using prems(2) by (simp_all add: flags_match_def o split: option.splits)
    show ?thesis
    proof (cases "strcaseeq (c_str a) ''nx''")
      case True
      then show ?thesis using IH(1) [OF bs(2) True bs(3) m(1) P] by (simp add: bs o)
    next
      case False
      then show ?thesis using True IH(2) [OF bs(2) False _ bs(3) m(2) P] by (simp add: bs o)
    qed
  next
    case False
    then have F: "\<not> strcaseeq (c_str a) ''nx''" "\<not> strcaseeq (c_str a) ''xx''" by auto
    show ?thesis
    proof (cases "is")
      case Nil
      then show ?thesis using F bs by (simp add: o)
    next
      case (Cons j js)
      obtain b as' where as: "as = b # as'" "map (sds_at s) js = map Some as'" using bs(3) Cons by (cases as) auto
      have jP: "(j, b) \<in> P" "set (zip js as') \<subseteq> P" using P Cons as(1) by auto
      have m: "flags_match P (flags\<lparr>set_expire := Some j, set_unit := u\<rparr>) (nx, xx, Some (u, b))" for u
        using prems(2) jP(1) by (auto simp: flags_match_def o)
      note ih = IH(3) [OF bs(2) F Cons _ as(2) m jP(2)] IH(4) [OF bs(2) F Cons _ _ as(2) m jP(2)]
      show ?thesis using F ih by (auto simp: bs o Cons as(1))
    qed
  qed
qed

definition kv_set_command :: "int \<Rightarrow> bytes list \<Rightarrow> bytes \<Rightarrow> bytes \<Rightarrow> kvstore \<Rightarrow> (reply \<times> kvstore) option" where
  "kv_set_command now opts k v m =
     (case kv_options opts (False, False, None) of
        None \<Rightarrow> Some (err ''syntax error'', m)
      | Some (nx, xx, ex) \<Rightarrow> kv_set now nx xx ex (RStatus ''OK'') RNil k v m)"

lemma setCommand_answered:
  assumes s: "serving c d s" "args c s (nm # k # v # opts)"
    and t: "kv_set_command (mstime s) opts k v (store s d) = Some (t, m)"
  shows "\<exists>s'. setCommand c s = Some s' \<and> answered c (print_reply t) d m s s'"
proof -
  let ?bs = "nm # k # v # opts" and ?argv = "c_argv (clients s c)"
  let ?P = "set (zip (drop 3 ?argv) opts)"
  have l: "length ?argv = length ?bs" using s(2) by (auto simp: args_def dest: map_eq_imp_length_eq)
  have "map (sds_at s) (drop 3 ?argv) = map Some opts"
    using arg_cong [OF s(2) [unfolded args_def], of "drop 3"] by (simp add: drop_map)
  moreover have "flags_match ?P SET_NO_FLAGS (False, False, None)" by (simp add: flags_match_def SET_NO_FLAGS_def)
  ultimately obtain r where r: "set_options s (drop 3 ?argv) SET_NO_FLAGS = Some r"
      "rel_option (flags_match ?P) r (kv_options opts (False, False, None))"
    using set_options_match by blast
  show ?thesis
  proof (cases "kv_options opts (False, False, None)")
    case None
    have "print_reply (err ''syntax error'') = shared_string S_syntaxerr" by (simp add: print_reply.simps err_def)
    then have "answers c (print_reply (err ''syntax error'')) d (store s d) s (addReply c (Shared S_syntaxerr) s)"
      by (rule answers_shared' [OF s(1) works_refl [OF servingD(1,4) [OF s(1)]]]) simp
    then show ?thesis using answers_then [OF _ s(1)] r None t by (simp add: setCommand_def kv_set_command_def)
  next
    case (Some opt)
    obtain nx xx ex where o: "opt = (nx, xx, ex)" by (cases opt)
    obtain flags where f: "r = Some flags" "flags_match ?P flags (nx, xx, ex)" using r(2) Some o by (cases r) auto
    have "\<exists>s'. encode_arg c 2 s \<bind> (\<lambda>(j, s1). arg c 1 s1 \<bind> (\<lambda>key. setGenericCommand c flags key j None None s1)) = Some s' \<and>
        answered c (print_reply t) d m s s'"
    proof (rule encode_then [OF s])
      fix j s1
      assume 1: "serving c d s1" "vals s1 j = Some (Str (?bs ! 2))" "0 < ext s1 j" "mstime s1 = mstime s" "store s1 d = store s d"
        and n: "\<And>m. m < length ?bs \<Longrightarrow> m \<noteq> 2 \<Longrightarrow> arg c m s1 = Some (?argv ! m) \<and> named s1 (?argv ! m) (?bs ! m)"
      have P: "named s1 e b" if "(e, b) \<in> ?P" for e b
      proof -
        obtain x where x: "x < length opts" "e = drop 3 ?argv ! x" "b = opts ! x" using \<open>(e, b) \<in> ?P\<close> by (auto simp: set_zip)
        then show ?thesis using n [of "x + 3"] l by (simp add: add.commute numeral_3_eq_3)
      qed
      have "answers c (print_reply t) d m s1 (setGenericCommand c flags (?argv ! 1) j None None s1)"
        by (rule setGeneric_answers [OF 1(1) _ 1(3), where okr = "RStatus ''OK''" and abr = RNil and ex = ex and k = k and v = v])
          (use 1 n [of 1] f(2) t Some o flags_match_ex [OF f(2) P] in
            \<open>auto simp: print_shared kv_set_command_def flags_match_def\<close>)
      then show "answers c (print_reply t) d m s1 (arg c 1 s1 \<bind> (\<lambda>key. setGenericCommand c flags key j None None s1))"
        using n [of 1] by simp
    qed simp
    then show ?thesis using r(1) f(1) by (simp add: setCommand_def)
  qed
qed

lemma setnxCommand_answered:
  assumes s: "serving c d s" "args c s [nm, k, v]" and t: "kv_set (mstime s) True False None (RInt 1) (RInt 0) k v (store s d) = Some (t, m)"
  shows "\<exists>s'. setnxCommand c s = Some s' \<and> answered c (print_reply t) d m s s'"
  unfolding setnxCommand_def
proof (rule encode_then [OF s])
  let ?argv = "c_argv (clients s c)"
  fix j s1
  assume 1: "serving c d s1" "vals s1 j = Some (Str ([nm, k, v] ! 2))" "0 < ext s1 j" "mstime s1 = mstime s" "store s1 d = store s d"
    and n: "\<And>m. m < length [nm, k, v] \<Longrightarrow> m \<noteq> 2 \<Longrightarrow> arg c m s1 = Some (?argv ! m) \<and> named s1 (?argv ! m) ([nm, k, v] ! m)"
  have "answers c (print_reply t) d m s1 (setGenericCommand c (SET_NO_FLAGS\<lparr>set_nx := True\<rparr>) (?argv ! 1) j (Some S_cone) (Some S_czero) s1)"
    by (rule setGeneric_answers [OF 1(1) _ 1(3), where okr = "RInt 1" and abr = "RInt 0" and ex = None and k = k and v = v])
      (use 1 n [of 1] t in \<open>auto simp: print_shared SET_NO_FLAGS_def\<close>)
  then show "answers c (print_reply t) d m s1
      (arg c 1 s1 \<bind> (\<lambda>key. setGenericCommand c (SET_NO_FLAGS\<lparr>set_nx := True\<rparr>) key j (Some S_cone) (Some S_czero) s1))"
    using n [of 1] by simp
qed simp

lemma setex_answered:
  assumes s: "serving c d s" "args c s [nm, k, e, v]"
    and t: "kv_set (mstime s) False False (Some (u, e)) (RStatus ''OK'') RNil k v (store s d) = Some (t, m)"
  shows "\<exists>s'. encode_arg c 3 s \<bind> (\<lambda>(j, s1). arg c 1 s1 \<bind> (\<lambda>key. arg c 2 s1 \<bind> (\<lambda>e.
      setGenericCommand c (SET_NO_FLAGS\<lparr>set_expire := Some e, set_unit := u\<rparr>) key j None None s1))) = Some s' \<and>
    answered c (print_reply t) d m s s'"
proof (rule encode_then [OF s])
  let ?argv = "c_argv (clients s c)" and ?bs = "[nm, k, e, v]"
  fix j s1
  assume 1: "serving c d s1" "vals s1 j = Some (Str (?bs ! 3))" "0 < ext s1 j" "mstime s1 = mstime s" "store s1 d = store s d"
    and n: "\<And>m. m < length ?bs \<Longrightarrow> m \<noteq> 3 \<Longrightarrow> arg c m s1 = Some (?argv ! m) \<and> named s1 (?argv ! m) (?bs ! m)"
  have "answers c (print_reply t) d m s1
      (setGenericCommand c (SET_NO_FLAGS\<lparr>set_expire := Some (?argv ! 2), set_unit := u\<rparr>) (?argv ! 1) j None None s1)"
    by (rule setGeneric_answers [OF 1(1) _ 1(3), where okr = "RStatus ''OK''" and abr = RNil and ex = "Some (u, e)" and k = k and v = v])
      (use 1 n [of 1] n [of 2] t in \<open>auto simp: print_shared SET_NO_FLAGS_def\<close>)
  then show "answers c (print_reply t) d m s1 (arg c 1 s1 \<bind> (\<lambda>key. arg c 2 s1 \<bind> (\<lambda>e.
      setGenericCommand c (SET_NO_FLAGS\<lparr>set_expire := Some e, set_unit := u\<rparr>) key j None None s1)))"
    using n [of 1] n [of 2] by simp
qed simp

lemma setexCommand_answered:
  assumes "serving c d s" "args c s [nm, k, e, v]"
    and "kv_set (mstime s) False False (Some (UNIT_SECONDS, e)) (RStatus ''OK'') RNil k v (store s d) = Some (t, m)"
  shows "\<exists>s'. setexCommand c s = Some s' \<and> answered c (print_reply t) d m s s'"
  using setex_answered [OF assms] by (simp add: setexCommand_def SET_NO_FLAGS_def)

lemma psetexCommand_answered:
  assumes "serving c d s" "args c s [nm, k, e, v]"
    and "kv_set (mstime s) False False (Some (UNIT_MILLISECONDS, e)) (RStatus ''OK'') RNil k v (store s d) = Some (t, m)"
  shows "\<exists>s'. psetexCommand c s = Some s' \<and> answered c (print_reply t) d m s s'"
  using setex_answered [OF assms] by (simp add: psetexCommand_def)

end
