(* ===== verification/Updates.thy ===== *)
theory Updates
  imports Strings
begin

text \<open>
  The commands that compute the new value of a key from its old value, and the theorem on all commands of
  \<open>Strings\<close> and of this theory together.
\<close>

subsection \<open>A new object for a key\<close>

lemma new_counted: "step s s' \<Longrightarrow> objs s j = None \<Longrightarrow> changes (at j 1) s s'"
  by (auto simp: changes_def at_def ext_def)

lemma createStringObjectFromLongLong_counted:
  assumes s: "good s" and n: "in_ll n"
  obtains j s' where "createStringObjectFromLongLong n s = Some (j, s')" "changes (at j 1) s s'" "same_dbs s s'" "owned s' j"
    "vals s' j = Some (Str (dec_int n))"
proof (cases "0 \<le> n \<and> n < int REDIS_SHARED_INTEGERS")
  case True
  then obtain m where m: "n = int m" "m < REDIS_SHARED_INTEGERS" by (metis nonneg_int_cases of_nat_less_iff)
  let ?j = "Shared (S_integers m)"
  obtain r where o: "objs s ?j = Some (\<lparr>ob_type = REDIS_STRING, ob_enc = REDIS_ENCODING_INT, refcount = 1, ob_ptr = Long (int m)\<rparr>\<lparr>refcount := r\<rparr>)"
    using shared_obj [OF goodD(1) [OF s], of "S_integers m"] m(2) by auto
  obtain s' where 1: "incrRefCount ?j s = Some s'" "changes (at ?j 1) s s'" "same_dbs s s'" "owned s' ?j" "vals s' = vals s"
    by (rule incr_changes [OF s o]) (rule that)
  show ?thesis by (rule that [OF _ 1(2-4)]) (use m 1(1,5) o in \<open>simp_all add: createStringObjectFromLongLong_def vals_def value_of_def content_def\<close>)
next
  case False
  let ?j = "Dyn (fresh s)" and ?ob = "\<lparr>ob_type = REDIS_STRING, ob_enc = REDIS_ENCODING_INT, refcount = 1, ob_ptr = Long n\<rparr>"
  let ?s = "(update_obj ?j (Some ?ob) s)\<lparr>fresh := fresh s + 1\<rparr>"
  have ok: "obj_ok ?ob" "refcount ?ob = 1" using n by (simp_all add: obj_ok_def)
  note c = new_changes [OF s ok refl]
  have "objs s ?j = None" using server_invD(1) [OF goodD(1) [OF s]] by auto
  note cc = new_counted [OF c(1) this]
  show ?thesis
    by (rule that [OF _ cc c(2,3)])
      (use False n c(4) in \<open>auto simp: createStringObjectFromLongLong_def in_ll_def createObject_def Let_def update_obj_def vals_def value_of_def content_def\<close>)
qed

lemma replace_works:
  assumes s: "serving c d s" "named s i k" "looked_up s d k v"
    and j: "changes (at j 1) s s1" "same_dbs s s1" "owned s1 j" "vals s1 j = Some x"
  obtains s2 s3 where "dbInsert d i j v s1 = Some s2" "signalModifiedKey d i s2 = Some s3"
    "works s s3 d ((store s d)(k \<mapsto> (x, db_expires (dbs s d) k)))" "db_dict (dbs s3 d) k = Some j" "vals s3 j = Some x"
proof -
  note S = servingD [OF s(1)]
  have f: "dbs s1 = dbs s" "dbnum s1 = dbnum s" "good s1" using j(1,2) frameD(2) [OF stepD(2) [OF j(1)]] by (auto simp: same_dbs_def stepD)
  have n1: "named s1 i k" by (rule changes_named [OF j(1) s(2)]) (use s(2) in \<open>auto simp: named_def at_def\<close>)
  have v: "db_dict (dbs s1 d) k = v" using s(3) f(1) by (simp add: looked_up_def)
  have d1: "d < dbnum s1" using S(4) f(2) by simp
  obtain s2 where 2: "dbInsert d i j (db_dict (dbs s1 d) k) s1 = Some s2" "changes (at j (-1)) s1 s2"
      "becomes s1 s2 d ((keyspace s1 d)(k := vals s1 j)) (db_expires (dbs s1 d))" "vals s2 j = vals s1 j" "db_dict (dbs s2 d) k = Some j"
    by (rule dbInsert_changes [OF f(3) d1 named_sds [OF n1] j(3)]) (rule that)
  have st: "step s s2" by (rule changes_trans [OF j(1) 2(2)]) (auto simp: at_def)
  obtain s3 where 3: "signalModifiedKey d i s2 = Some s3" "step s2 s3" "same_dbs s2 s3"
      "\<And>ko cs c. db_watched_keys (dbs s2 d) k = Some (ko, cs) \<Longrightarrow> c \<in> set cs \<Longrightarrow> REDIS_DIRTY_CAS \<in> c_flags (clients s3 c)"
    by (rule touch_step [OF stepD(1) [OF st] named_sds [OF named_step [OF s(2) st]], of d]) (rule that)
  have s3: "step s s3" "d < dbnum s2" using step_trans [OF st 3(2)] S(4) frameD(2) [OF stepD(2) [OF st]] by simp_all
  have b: "becomes s s3 d ((keyspace s d)(k \<mapsto> x)) (db_expires (dbs s d))"
    using 2(3) 3(3) j(2,4) f(1,2) S(4) frameD(2) [OF stepD(2) [OF st]] by (auto simp: becomes_def same_dbs_def)
  have "stores s s3 d ((store s d)(k \<mapsto> (x, db_expires (dbs s d) k)))"
    by (rule becomes_stores [OF b stepD(2) [OF s3(1)] S(4)]) (use s(3) in \<open>auto simp: store_def entry_def looked_up_def\<close>)
  then have "works s s3 d ((store s d)(k \<mapsto> (x, db_expires (dbs s d) k)))"
    by (rule works_key [OF s3(1) S(4)]) (use 3(4) frameD(11) [OF stepD(2) [OF st]] in auto)
  moreover have dk: "db_dict (dbs s3 d) k = Some j" using 3(3) 2(5) by (simp add: same_dbs_def)
  moreover have "vals s3 j = Some x"
  proof -
    have "keyspace s3 d k = Some x" using becomes_d [OF b S(4)] by simp
    then show ?thesis using dk by (simp add: keyspace_def)
  qed
  ultimately show ?thesis using that [OF _ 3(1)] 2(1) v by simp
qed

subsection \<open>INCR\<close>

lemma emits_int_object:
  assumes s: "ready c s" and i: "held s c i ob" "is_str ob" "content ob = dec_int n"
  shows "emits c (print_reply (RInt n)) s
    (do { s1 \<leftarrow> addReply c (Shared S_colon) s; s2 \<leftarrow> addReply c i s1; addReply c (Shared S_crlf) s2 })"
proof (rule emits_seq [OF s emits_shared [OF s]])
  fix s1 assume 1: "ready c s1" "kept c s s1"
  obtain r where h: "held s1 c i (ob\<lparr>refcount := r\<rparr>)" using kept_held [OF 1(2) i(1)] by blast
  show "emits c (dec_int n @ CRLF) s1 (addReply c i s1 \<bind> addReply c (Shared S_crlf))"
  proof (rule emits_seq [OF 1(1) _ _ refl])
    show "emits c (dec_int n) s1 (addReply c i s1)" using emits_obj [OF 1(1) h] i by simp
  next
    fix s2 assume 2: "ready c s2"
    show "emits c CRLF s2 (addReply c (Shared S_crlf) s2)" using emits_shared [OF 2, of S_crlf] by simp
  qed
qed (simp_all add: print_reply.simps)

text \<open>The second half of \<open>incrDecrCommand\<close>.\<close>

definition incr_value :: "cid \<Rightarrow> dbid \<Rightarrow> oid \<Rightarrow> int \<Rightarrow> oid option \<Rightarrow> redisServer \<Rightarrow> redisServer option" where
  "incr_value c d i n v s =
     do {
       (r, s3) \<leftarrow> getLongLongFromObjectOrReply c v None s;
       (case r of
          None \<Rightarrow> Some s3
        | Some oldvalue \<Rightarrow>
            if incr_overflows oldvalue n then addReplyError c ''increment or decrement would overflow'' s3
            else do {
              value \<leftarrow> checked (oldvalue + n);
              (new, s4) \<leftarrow> createStringObjectFromLongLong value s3;
              s5 \<leftarrow> (if v \<noteq> None then dbOverwrite d i new s4 else dbAdd d i new s4);
              s6 \<leftarrow> signalModifiedKey d i s5;
              s7 \<leftarrow> notifyKeyspaceEvent REDIS_NOTIFY_STRING ''incrby'' i d s6;
              s8 \<leftarrow> addReply c (Shared S_colon) (s7\<lparr>dirty := dirty s7 + 1\<rparr>);
              s9 \<leftarrow> addReply c new s8;
              addReply c (Shared S_crlf) s9
            })
     }"

lemma incrDecrCommand_halves:
  "incrDecrCommand c n s =
     do {
       key \<leftarrow> arg c 1 s;
       (v, s1) \<leftarrow> lookupKeyWrite (c_db (clients s c)) key s;
       (bad, s2) \<leftarrow> (case v of None \<Rightarrow> Some (False, s1) | Some i \<Rightarrow> checkType c i REDIS_STRING s1);
       (if bad then Some s2 else incr_value c (c_db (clients s c)) key n v s2)
     }"
  unfolding incrDecrCommand_def incr_value_def Let_def ..

lemma incr_found:
  assumes s: "serving c d s" "named s i k" "looked_up s d k v" and n: "in_ll (old + n)" "in_ll old" "in_ll n"
    and r: "getLongLongFromObjectOrReply c v None s = Some (Some old, s)"
  shows "answers c (print_reply (RInt (old + n))) d ((store s d)(k \<mapsto> (Str (dec_int (old + n)), db_expires (dbs s d) k))) s
    (incr_value c d i n v s)" (is "answers c ?t d ?f s ?r")
proof -
  note S = servingD [OF s(1)]
  obtain j s4 where 4: "createStringObjectFromLongLong (old + n) s = Some (j, s4)" "changes (at j 1) s s4" "same_dbs s s4" "owned s4 j"
    "vals s4 j = Some (Str (dec_int (old + n)))"
    by (rule createStringObjectFromLongLong_counted [OF S(1) n(1)])
  obtain s5 s6 where 6: "dbInsert d i j v s4 = Some s5" "signalModifiedKey d i s5 = Some s6" "works s s6 d ?f"
      "db_dict (dbs s6 d) k = Some j" "vals s6 j = Some (Str (dec_int (old + n)))"
    by (rule replace_works [OF s 4(2-5)])
  let ?s8 = "s6\<lparr>dirty := dirty s6 + 1\<rparr>"
  have w: "works s ?s8 d ?f" by (rule works_more [OF 6(3) step_fields(1) [OF worksD(4) [OF 6(3)]] same_dbs_fields(1)])
  note S8 = servingD [OF serving_works [OF s(1) w]]
  have dk: "db_dict (dbs ?s8 d) k = Some j" using 6(4) by simp
  obtain ob where h: "held ?s8 c j ob" using held_dict [OF S8(5,6,4) dk] by blast
  then have "value_of ob = Str (dec_int (old + n))" using 6(5) by (simp add: held_def vals_def)
  then have "emits c ?t ?s8 (do { s8 \<leftarrow> addReply c (Shared S_colon) ?s8; s9 \<leftarrow> addReply c j s8; addReply c (Shared S_crlf) s9 })"
    using emits_int_object [OF S8(2) h] value_of_Str by blast
  moreover have "?r = do { s8 \<leftarrow> addReply c (Shared S_colon) ?s8; s9 \<leftarrow> addReply c j s8; addReply c (Shared S_crlf) s9 }"
    using r n 4(1) 6(1,2) good_notify [OF worksD(4) [OF 6(3)]] incr_overflows_iff [OF n(2,3)]
    by (simp add: incr_value_def checked_def dbInsert_def)
  ultimately show ?thesis using answersI [OF w] by simp
qed

lemma expires_None: "good s \<Longrightarrow> d < dbnum s \<Longrightarrow> db_dict (dbs s d) k = None \<Longrightarrow> db_expires (dbs s d) k = None"
  by (auto simp: good_def db_ok_def domIff)

lemma incrDecrCommand_answers:
  assumes s: "serving c d s" and i: "arg c 1 s = Some i" "named s i k" and n: "in_ll n"
    and t: "kv_incr n k (store s d) = (t, m)"
  shows "answers c (print_reply t) d m s (incrDecrCommand c n s)"
proof -
  obtain v s1 where 1: "lookupKeyWrite d i s = Some (v, s1)" "works s s1 d (store s d)" "looked_up s1 d k v" "store s1 d = store s d"
    by (rule lookupKeyWrite_works [OF s i(2)])
  note s1 = serving_works [OF s 1(2)] and n1 = named_step [OF i(2) worksD(1) [OF 1(2)]]
  note w1 = works_refl [OF servingD(1,4) [OF s1]]
  note e = incrDecrCommand_halves i(1) [simplified] servingD(3) [OF s] 1(1) checkType_def
  note go = answers_step [OF 1(2)]
  from 1(3) show ?thesis
  proof (cases rule: looked_up_cases)
    case absent
    have r: "getLongLongFromObjectOrReply c v None s1 = Some (Some 0, s1)"
      using absent(1) by (simp add: getLongLongFromObjectOrReply_def getLongLongFromObject_def)
    have ll: "in_ll (0 + n)" "in_ll 0" using n by (simp_all add: in_ll_def)
    have "kv_incr n k (store s d) = (RInt (0 + n), (store s1 d)(k \<mapsto> (Str (dec_int (0 + n)), db_expires (dbs s1 d) k)))"
      using absent(2,3) 1(4) ll expires_None [OF servingD(1,4) [OF s1]] by (simp add: kv_incr_def)
    then show ?thesis
      using go [OF incr_found [OF s1 n1 1(3) ll n r]] t absent(1) by (simp add: e)
  next
    case (found j ob)
    have ok: "obj_ok ob" by (rule live(1) [OF servingD(5) [OF s1] found(2)])
    show ?thesis
    proof (cases "value_of ob")
      case (Str b)
      note b = value_of_Str [OF Str]
      have g: "getLongLongFromObject s1 v = Some (int_of b)" using getLongLong_object [OF found(2) ok] b found(1) by simp
      show ?thesis
      proof (cases "int_of b")
        case None
        let ?r = "addReplyError c ''value is not an integer or out of range'' s1"
        have "incrDecrCommand c n s = ?r"
          using None found(1,2) b g by (cases ?r) (simp_all add: e incr_value_def getLongLongFromObjectOrReply_def)
        then show ?thesis
          using go [OF answers_error [OF s1 w1, of "''value is not an integer or out of range''"]] t found(3) 1(4) Str None
          by (simp add: kv_incr_def not_integer_def c_str_def)
      next
        case (Some old)
        then have r: "getLongLongFromObjectOrReply c v None s1 = Some (Some old, s1)" using g by (simp add: getLongLongFromObjectOrReply_def)
        have old: "in_ll old" by (rule int_of_in_ll [OF Some])
        show ?thesis
        proof (cases "in_ll (old + n)")
          case True
          show ?thesis
            using go [OF incr_found [OF s1 n1 1(3) True old n r]] t found(1-3) 1(4) b Str Some True by (simp add: e kv_incr_def)
        next
          case False
          let ?r = "addReplyError c ''increment or decrement would overflow'' s1"
          have "incrDecrCommand c n s = ?r"
            using r False found(1,2) b incr_overflows_iff [OF old n] by (simp add: e incr_value_def)
          then show ?thesis
            using go [OF answers_error [OF s1 w1, of "''increment or decrement would overflow''"]] t found(3) 1(4) Str Some False
            by (simp add: kv_incr_def c_str_def)
        qed
      qed
    next
      case (Agg ty x)
      let ?r = "addReply c (Shared S_wrongtypeerr) s1"
      have "incrDecrCommand c n s = ?r" using found(1,2) value_of_Agg [OF Agg] by (cases ?r) (simp_all add: e)
      then show ?thesis using answers_shared' [OF s 1(2) print_shared(2)] t found(3) 1(4) Agg by (simp add: kv_incr_def)
    qed
  qed
qed

text \<open>The argument of \<open>INCRBY\<close> and \<open>DECRBY\<close>; the sign is changed where that is possible.\<close>

definition kv_incrby :: "bool \<Rightarrow> bytes \<Rightarrow> bytes \<Rightarrow> kvstore \<Rightarrow> (reply \<times> kvstore) option" where
  "kv_incrby decr k b m =
     (case int_of b of
        None \<Rightarrow> Some (not_integer, m)
      | Some n \<Rightarrow> do { n' \<leftarrow> (if decr then checked (- n) else Some n); Some (kv_incr n' k m) })"

lemma incrby_answers:
  assumes s: "serving c d s" "args c s [nm, k, b]" and t: "kv_incrby decr k b (store s d) = Some (t, m)"
  shows "answers c (print_reply t) d m s (if decr then decrbyCommand c s else incrbyCommand c s)"
proof -
  note a1 = argsD [OF s, of 1, simplified] and a2 = argsD [OF s, of 2, simplified]
  have g: "getLongLongFromObject s (Some (c_argv (clients s c) ! 2)) = Some (int_of b)"
    using getLongLong_named [OF servingD(5) [OF s(1)] a2(2)] by simp
  show ?thesis
  proof (cases "int_of b")
    case None
    let ?r = "addReplyError c ''value is not an integer or out of range'' s"
    have "(if decr then decrbyCommand c s else incrbyCommand c s) = ?r"
      using None g a2(1) by (cases ?r) (simp_all add: incrbyCommand_def decrbyCommand_def getLongLongFromObjectOrReply_def)
    then show ?thesis
      using answers_error [OF s(1) works_refl [OF servingD(1,4) [OF s(1)]], of "''value is not an integer or out of range''"] t None
      by (simp add: kv_incrby_def not_integer_def c_str_def)
  next
    case (Some n)
    have n: "in_ll n" by (rule int_of_in_ll [OF Some])
    obtain n' where n': "(if decr then checked (- n) else Some n) = Some n'" "kv_incr n' k (store s d) = (t, m)" "in_ll n'"
      using t Some n by (auto simp: kv_incrby_def checked_def split: if_splits)
    have "(if decr then decrbyCommand c s else incrbyCommand c s) = incrDecrCommand c n' s"
      using n'(1) Some g a2(1) by (auto simp: incrbyCommand_def decrbyCommand_def getLongLongFromObjectOrReply_def split: if_splits)
    then show ?thesis using incrDecrCommand_answers [OF s(1) _ _ n'(3,2), of "c_argv (clients s c) ! 1"] a1 by simp
  qed
qed

subsection \<open>APPEND\<close>

lemma changes_fresh: "changes (at j e) s s' \<Longrightarrow> \<not> 0 < ext s j \<Longrightarrow> step s s'"
  unfolding changes_def at_def by (metis add.right_neutral)

text \<open>The value of a key that nobody else refers to.\<close>

definition sole :: "redisServer \<Rightarrow> dbid \<Rightarrow> bytes \<Rightarrow> oid \<Rightarrow> bytes \<Rightarrow> bool" where
  "sole s d k j b \<longleftrightarrow> db_dict (dbs s d) k = Some j \<and>
     objs s j = Some \<lparr>ob_type = REDIS_STRING, ob_enc = REDIS_ENCODING_RAW, refcount = 1, ob_ptr = Sds b\<rparr>"

lemma getDecodedObject_counted:
  assumes s: "good s" and ob: "objs s i = Some ob" "is_str ob"
  obtains j s' where "getDecodedObject i s = Some (j, s')" "changes (at j 1) s s'" "same_dbs s s'" "owned s' j"
    "sds_at s' j = Some (content ob)" "\<And>x. 0 < refs s x \<Longrightarrow> vals s' x = vals s x"
proof (cases "sdsEncodedObject ob")
  case True
  then obtain b where b: "ob_ptr ob = Sds b" using live(1) [OF goodD(1) [OF s] ob(1)] ob(2) by (auto simp: obj_ok_def sdsEncodedObject_def)
  obtain s' where 1: "incrRefCount i s = Some s'" "changes (at i 1) s s'" "same_dbs s s'" "owned s' i" "vals s' = vals s"
      "objs s' i = Some (ob\<lparr>refcount := refcount ob + 1\<rparr>)"
    by (rule incr_changes [OF s ob(1)]) (rule that)
  show ?thesis
    by (rule that [OF _ 1(2-4)]) (use True 1(1,5,6) ob b in \<open>simp_all add: getDecodedObject_def sds_at_def obj_sds_def content_def\<close>)
next
  case False
  then obtain n where n: "ob_ptr ob = Long n" "in_ll n" "ob_enc ob = REDIS_ENCODING_INT"
    using live(1) [OF goodD(1) [OF s] ob(1)] ob(2) by (auto simp: obj_ok_def)
  let ?b = "dec_int n" and ?j = "Dyn (fresh s)"
  define e where "e = (if length ?b \<le> REDIS_ENCODING_EMBSTR_SIZE_LIMIT then REDIS_ENCODING_EMBSTR else REDIS_ENCODING_RAW)"
  let ?ob = "\<lparr>ob_type = REDIS_STRING, ob_enc = e, refcount = 1, ob_ptr = Sds ?b\<rparr>"
  let ?s = "(update_obj ?j (Some ?ob) s)\<lparr>fresh := fresh s + 1\<rparr>"
  have ok: "obj_ok ?ob" "refcount ?ob = 1" by (simp_all add: obj_ok_def sdsEncodedObject_def e_def)
  note c = new_changes [OF s ok refl]
  have "objs s ?j = None" using server_invD(1) [OF goodD(1) [OF s]] by auto
  note cc = new_counted [OF c(1) this]
  have "createStringObject ?b s = (?j, ?s)"
    by (simp add: createStringObject_def createEmbeddedStringObject_def createRawStringObject_def createObject_def Let_def e_def)
  then have "getDecodedObject i s = Some (?j, ?s)"
    using False ob n ll2string_dec [OF n(2), of 32] by (simp add: getDecodedObject_def obj_long_def)
  then show ?thesis
    by (rule that [OF _ cc c(2,3)]) (use c(4,5) n(1) in \<open>auto simp: sds_at_def obj_sds_def content_def\<close>)
qed

lemma unshare_value_sole:
  assumes s: "serving c d s" "named s i k" and j: "db_dict (dbs s d) k = Some j" "objs s j = Some ob" "value_of ob = Str b"
  obtains j' s' where "unshare_value d i j s = Some (j', s')" "step s s'" "becomes s s' d (keyspace s d) (db_expires (dbs s d))"
    "sole s' d k j' b"
proof (cases "refcount ob \<noteq> 1 \<or> ob_enc ob \<noteq> REDIS_ENCODING_RAW")
  case False
  then have "ob_ptr ob = Sds b"
    using live(1) [OF servingD(5) [OF s(1)] j(2)] value_of_Str [OF j(3)] by (auto simp: obj_ok_def content_def)
  then have "ob = \<lparr>ob_type = REDIS_STRING, ob_enc = REDIS_ENCODING_RAW, refcount = 1, ob_ptr = Sds b\<rparr>"
    using False value_of_Str [OF j(3)] by (intro redisObject.equality) auto
  then show ?thesis
    using that [OF _ step_refl [OF servingD(1) [OF s(1)]] becomes_same [OF same_dbs_refl], of j] False j by (simp add: unshare_value_def sole_def)
next
  case True
  note S = servingD [OF s(1)] and b = value_of_Str [OF j(3)]
  obtain dj s1 where 1: "getDecodedObject j s = Some (dj, s1)" "changes (at dj 1) s s1" "same_dbs s s1" "owned s1 dj"
      "sds_at s1 dj = Some b" "\<And>x. 0 < refs s x \<Longrightarrow> vals s1 x = vals s x"
    by (rule getDecodedObject_counted [OF S(1) j(2)]) (use b in \<open>auto intro: that\<close>)
  let ?j = "Dyn (fresh s1)" and ?ob = "\<lparr>ob_type = REDIS_STRING, ob_enc = REDIS_ENCODING_RAW, refcount = 1, ob_ptr = Sds b\<rparr>"
  define s2 where "s2 = (update_obj ?j (Some ?ob) s1)\<lparr>fresh := fresh s1 + 1\<rparr>"
  have ok: "obj_ok ?ob" "refcount ?ob = 1" by (simp_all add: obj_ok_def sdsEncodedObject_def)
  note n = new_changes [OF stepD(1) [OF 1(2)] ok s2_def]
  have dead: "objs s1 ?j = None" using server_invD(1) [OF goodD(1) [OF stepD(1) [OF 1(2)]]] by auto
  have jd: "?j \<noteq> dj" using dead ext_live [OF owned_ext [OF 1(4)]] by auto
  obtain s3 where 3: "decrRefCount dj s2 = Some s3" "changes (at dj (-1)) s2 s3" "same_dbs s2 s3"
      "\<And>x. 0 < refs s2 x \<Longrightarrow> vals s3 x = vals s2 x" "\<And>x. x \<noteq> dj \<Longrightarrow> objs s3 x = objs s2 x"
    by (rule decr_changes [OF stepD(1) [OF n(1)] step_owned [OF n(1) 1(4)]]) (rule that)
  have s12: "changes (at dj 1) s s2" by (rule changes_trans [OF 1(2) n(1)]) (auto simp: at_def)
  have st3: "step s s3" by (rule changes_trans [OF s12 3(2)]) (auto simp: at_def)
  have same: "same_dbs s s3" "dbs s3 = dbs s"
    using 1(3) n(2) 3(3) frameD(2) [OF stepD(2) [OF 1(2)]] frameD(2) [OF stepD(2) [OF n(1)]] by (auto simp: same_dbs_def)
  have "ext s3 ?j = ext s2 ?j" using 3(2) owned_ext [OF n(3)] jd by (auto simp: changes_def at_def)
  then have own: "owned s3 ?j" using n(3) frame_other_refs [OF stepD(2) [OF 3(2)]] by (simp add: owned_def)
  have ob3: "objs s3 ?j = Some ?ob" using 3(5) [OF jd] n(4) by simp
  have d3: "d < dbnum s3" using S(4) frameD(2) [OF stepD(2) [OF st3]] by simp
  note n3 = named_step [OF s(2) st3]
  obtain s4 where 4: "dbInsert d i ?j (db_dict (dbs s3 d) k) s3 = Some s4" "changes (at ?j (-1)) s3 s4"
      "becomes s3 s4 d ((keyspace s3 d)(k := vals s3 ?j)) (db_expires (dbs s3 d))" "vals s4 ?j = vals s3 ?j"
      "db_dict (dbs s4 d) k = Some ?j" "\<And>x. db_dict (dbs s3 d) k \<noteq> Some x \<Longrightarrow> objs s4 x = objs s3 x"
    by (rule dbInsert_changes [OF stepD(1) [OF st3] d3 named_sds [OF n3] own]) (rule that)
  have "\<not> 0 < ext s ?j"
  proof
    assume "0 < ext s ?j"
    then have "0 < ext s1 ?j" using 1(2) by (auto simp: changes_def at_def split: if_splits)
    then show False using ext_live dead by force
  qed
  moreover have "changes (at ?j (-1)) s s4" by (rule changes_trans [OF st3 4(2)]) auto
  ultimately have st4: "step s s4" using changes_fresh by blast
  have d1: "d < dbnum s1" "db_dict (dbs s1 d) k = Some j" using S(4) j(1) 1(3) frameD(2) [OF stepD(2) [OF 1(2)]] by (auto simp: same_dbs_def)
  have "j \<noteq> ?j" using dict_live [OF goodD(1) [OF stepD(1) [OF 1(2)]] d1] dead by fastforce
  then have ob4: "objs s4 ?j = Some ?ob" using 4(6) [of ?j] ob3 j(1) same(2) by simp
  have "(keyspace s d)(k \<mapsto> Str b) = keyspace s d" using j by (auto simp: keyspace_def vals_def fun_eq_iff)
  moreover have "vals s3 ?j = Some (Str b)" using ob3 by (simp add: vals_def value_of_def content_def)
  ultimately have "becomes s s4 d (keyspace s d) (db_expires (dbs s d))"
    using 4(3) same S(4) frameD(2) [OF stepD(2) [OF st3]] by (auto simp: becomes_def same_dbs_def)
  moreover have "unshare_value d i j s = Some (?j, s4)"
    using True j(1,2) 1(1,5) 3(1) 4(1) same(2)
    by (simp add: unshare_value_def createRawStringObject_def createObject_def Let_def s2_def dbInsert_def)
  ultimately show ?thesis using that [OF _ st4] 4(5) ob4 by (simp add: sole_def)
qed

lemma sole_refs:
  assumes s: "server_inv s" "d < dbnum s" and p: "sole s d k j b"
  shows "refs s j = 1" "ext s j = 0" "shared_refs j = 0" "\<And>d' k'. d' < dbnum s \<Longrightarrow> db_dict (dbs s d') k' = Some j \<Longrightarrow> d' = d \<and> k' = k"
proof -
  have j: "db_dict (dbs s d) k = Some j" and ob: "objs s j = Some \<lparr>ob_type = REDIS_STRING, ob_enc = REDIS_ENCODING_RAW, refcount = 1, ob_ptr = Sds b\<rparr>"
    using p by (auto simp: sole_def)
  have le: "refs s j \<le> 1" using live(2) [OF s(1) ob] by simp
  have pos: "0 < dict_refs (db_dict (dbs s d)) j" by (rule dict_refs_pos [OF server_invD(4) [OF s] j])
  have db: "dict_refs (db_dict (dbs s d)) j \<le> db_total s j"
    using member_le_sum_nat [of "{..<dbnum s}" d "\<lambda>x. db_refs (dbs s x) j"] s(2) by (simp add: db_total_def db_refs_def)
  then have t: "db_total s j = 1" "other_refs s j = 0" using le pos refs_split [of s j] by linarith+
  show "refs s j = 1" "shared_refs j = 0" using t refs_split [of s j] by (auto simp: other_refs_def)
  show "ext s j = 0" using ob t by (simp add: ext_def)
  fix d' k' assume d': "d' < dbnum s" "db_dict (dbs s d') k' = Some j"
  have dd: "d' = d"
  proof (rule ccontr)
    assume "d' \<noteq> d"
    then have "2 \<le> refs s j"
      using two_dbs_refs_le [OF s(2) d'(1), of j] pos dict_refs_pos [OF server_invD(4) [OF s(1) d'(1)] d'(2)] by (simp add: db_refs_def)
    then show False using le by simp
  qed
  have "k' = k"
  proof (rule ccontr)
    assume "k' \<noteq> k"
    then have "card {k, k'} \<le> dict_refs (db_dict (dbs s d)) j"
      unfolding dict_refs_def using j d'(2) dd server_invD(4) [OF s]
      by (intro card_mono) (auto intro: finite_subset [of _ "dom (db_dict (dbs s d))"])
    then show False using \<open>k' \<noteq> k\<close> le dict_refs_le [OF s(2), of j] by simp
  qed
  then show "d' = d \<and> k' = k" using dd by simp
qed

lemma set_ptr_works:
  assumes s: "good s" "d < dbnum s" and p: "sole s d k j b"
  obtains s' where "set_ptr j (Sds b') s = Some s'" "step s s'" "becomes s s' d ((keyspace s d)(k \<mapsto> Str b')) (db_expires (dbs s d))"
proof -
  let ?ob = "\<lambda>b. \<lparr>ob_type = REDIS_STRING, ob_enc = REDIS_ENCODING_RAW, refcount = 1, ob_ptr = Sds b\<rparr>"
  let ?s = "update_obj j (Some (?ob b')) s"
  note r = sole_refs [OF goodD(1) [OF s(1)] s(2) p]
  have j: "db_dict (dbs s d) k = Some j" "objs s j = Some (?ob b)" using p by (auto simp: sole_def)
  have inv: "server_inv ?s"
    by (rule inv_update_obj [OF goodD(1) [OF s(1)] j(2)]) (use r in \<open>auto simp: obj_ok_def sdsEncodedObject_def\<close>)
  have "changes (at j 0) s ?s"
    by (rule changes_obj [OF s(1) inv, where v = "Some (?ob b')" and n = "fresh s"]) (use r(2) in \<open>auto simp: update_obj_def\<close>)
  moreover have "at j 0 = (\<lambda>i. 0)" by (simp add: at_def fun_eq_iff)
  ultimately have st: "step s ?s" by simp
  have "keyspace ?s d' k' = (if d' = d then ((keyspace s d)(k \<mapsto> Str b')) k' else keyspace s d' k')" if "d' < dbnum s" for d' k'
  proof (cases "db_dict (dbs s d') k' = Some j")
    case True
    then show ?thesis using r(4) [OF that True] by (simp add: keyspace_def vals_def update_obj_def value_of_def content_def)
  next
    case False
    then have "keyspace ?s d' k' = keyspace s d' k'"
      by (cases "db_dict (dbs s d') k'") (simp_all add: keyspace_def vals_def update_obj_def)
    then show ?thesis using False j(1) by auto
  qed
  then have "becomes s ?s d ((keyspace s d)(k \<mapsto> Str b')) (db_expires (dbs s d))"
    by (auto simp: becomes_def update_obj_def)
  then show ?thesis using that [OF _ st] j(2) by (simp add: set_ptr_def)
qed

text \<open>The parts of \<open>appendCommand\<close>.\<close>

definition append_absent :: "cid \<Rightarrow> dbid \<Rightarrow> oid \<Rightarrow> redisServer \<Rightarrow> (nat option \<times> redisServer) option" where
  "append_absent c d key s1 =
     do {
       (val, s2) \<leftarrow> encode_arg c 2 s1;
       s3 \<leftarrow> dbAdd d key val s2;
       s4 \<leftarrow> incrRefCount val s3;
       ob \<leftarrow> objs s4 val;
       n \<leftarrow> stringObjectLen ob;
       Some (Some n, s4)
     }"

definition append_found :: "cid \<Rightarrow> dbid \<Rightarrow> oid \<Rightarrow> oid \<Rightarrow> redisServer \<Rightarrow> (nat option \<times> redisServer) option" where
  "append_found c d key i s1 =
     do {
       (bad, s2) \<leftarrow> checkType c i REDIS_STRING s1;
       (if bad then Some (None, s2)
        else do {
          a \<leftarrow> arg c 2 s2;
          append \<leftarrow> sds_at s2 a;
          ob \<leftarrow> objs s2 i;
          n \<leftarrow> stringObjectLen ob;
          (ok, s3) \<leftarrow> checkStringLength c (int (n + length append)) s2;
          (if \<not> ok then Some (None, s3)
           else do {
             (j, s4) \<leftarrow> unshare_value d key i s3;
             b \<leftarrow> sds_at s4 j;
             s5 \<leftarrow> set_ptr j (Sds (b @ append)) s4;
             Some (Some (length (b @ append)), s5)
           })
        })
     }"

definition append_reply :: "cid \<Rightarrow> dbid \<Rightarrow> oid \<Rightarrow> nat option \<times> redisServer \<Rightarrow> redisServer option" where
  "append_reply c d key = (\<lambda>(totlen, s2).
     case totlen of
       None \<Rightarrow> Some s2
     | Some n \<Rightarrow> do {
         s3 \<leftarrow> signalModifiedKey d key s2;
         s4 \<leftarrow> notifyKeyspaceEvent REDIS_NOTIFY_STRING ''append'' key d s3;
         addReplyLongLong c (int n) (s4\<lparr>dirty := dirty s4 + 1\<rparr>)
       })"

lemma appendCommand_parts:
  "appendCommand c s =
     do {
       key \<leftarrow> arg c 1 s;
       (v, s1) \<leftarrow> lookupKeyWrite (c_db (clients s c)) key s;
       r \<leftarrow> (case v of None \<Rightarrow> append_absent c (c_db (clients s c)) key s1 | Some i \<Rightarrow> append_found c (c_db (clients s c)) key i s1);
       append_reply c (c_db (clients s c)) key r
     }"
  unfolding appendCommand_def append_absent_def append_found_def append_reply_def Let_def ..

lemma append_reply_answers:
  assumes s: "serving c d s" "named s i k" and st: "step s s1" "stores s s1 d ((store s d)(k \<mapsto> x))" and n: "in_ll (int n)"
  shows "answers c (print_reply (RInt (int n))) d ((store s d)(k \<mapsto> x)) s (append_reply c d i (Some n, s1))"
proof -
  note S = servingD [OF s(1)] and g1 = stepD(1) [OF st(1)]
  have d1: "d < dbnum s1" using S(4) frameD(2) [OF stepD(2) [OF st(1)]] by simp
  obtain s2 where 2: "signalModifiedKey d i s1 = Some s2" "step s1 s2" "same_dbs s1 s2"
      "\<And>ko cs c. db_watched_keys (dbs s1 d) k = Some (ko, cs) \<Longrightarrow> c \<in> set cs \<Longrightarrow> REDIS_DIRTY_CAS \<in> c_flags (clients s2 c)"
    by (rule touch_step [OF g1 named_sds [OF named_step [OF s(2) st(1)]], of d]) (rule that)
  have "stores s s2 d ((store s d)(k \<mapsto> x))"
    using stores_trans [OF st(2) stepD(2) [OF st(1)] stores_same [OF 2(3) stepD(2) [OF 2(2)] d1]] stores_d [OF st(2) S(4)] by simp
  then have w: "works s s2 d ((store s d)(k \<mapsto> x))"
    by (rule works_key [OF step_trans [OF st(1) 2(2)] S(4)]) (use 2(4) frameD(11) [OF stepD(2) [OF st(1)]] in auto)
  have w': "works s (s2\<lparr>dirty := dirty s2 + 1\<rparr>) d ((store s d)(k \<mapsto> x))"
    by (rule works_more [OF w step_fields(1) [OF worksD(4) [OF w]] same_dbs_fields(1)])
  show ?thesis
    using answers_int [OF s(1) w' n] 2(1) good_notify [OF worksD(4) [OF w]] by (simp add: append_reply_def)
qed

lemma append_found_answers:
  assumes s: "serving c d s" "named s i k" "looked_up s d k (Some j)" and ob: "objs s j = Some ob"
    and a: "arg c 2 s = Some a" "named s a v" and t: "kv_append k v (store s d) = (t, m)"
  shows "answers c (print_reply t) d m s (append_found c d i j s \<bind> append_reply c d i)"
proof -
  note S = servingD [OF s(1)] and w = works_refl [OF servingD(1,4) [OF s(1)]]
  let ?e = "db_expires (dbs s d) k"
  have st: "store s d k = Some (value_of ob, ?e)" "db_dict (dbs s d) k = Some j" "\<not> expired s ?e"
    using s(3) ob by (auto simp: looked_up_def vals_def)
  show ?thesis
  proof (cases "value_of ob")
    case (Agg ty x)
    let ?r = "addReply c (Shared S_wrongtypeerr) s"
    have "append_found c d i j s \<bind> append_reply c d i = ?r"
      using ob value_of_Agg [OF Agg] by (cases ?r) (simp_all add: append_found_def append_reply_def checkType_def)
    then show ?thesis using answers_shared' [OF s(1) w print_shared(2)] t st(1) Agg by (simp add: kv_append_def)
  next
    case (Str b)
    note b = value_of_Str [OF Str]
    have len: "stringObjectLen ob = Some (length b)" using stringObjectLen_ok [OF live(1) [OF S(5) ob]] b by simp
    note e = append_found_def checkType_def a(1) named_sds [OF a(2)] ob len checkStringLength_def
    show ?thesis
    proof (cases "length (b @ v) > 512 * 1024 * 1024")
      case True
      let ?r = "addReplyError c ''string exceeds maximum allowed size (512MB)'' s"
      have "append_found c d i j s \<bind> append_reply c d i = ?r"
        using True b by (cases ?r) (simp_all add: e append_reply_def)
      then show ?thesis
        using answers_error [OF s(1) w, of "''string exceeds maximum allowed size (512MB)''"] t st(1) Str True
        by (simp add: kv_append_def c_str_def)
    next
      case False
      obtain j' s4 where 4: "unshare_value d i j s = Some (j', s4)" "step s s4" "becomes s s4 d (keyspace s d) (db_expires (dbs s d))"
          "sole s4 d k j' b"
        by (rule unshare_value_sole [OF s(1,2) st(2) ob Str])
      have d4: "d < dbnum s4" using S(4) frameD(2) [OF stepD(2) [OF 4(2)]] by simp
      obtain s5 where 5: "set_ptr j' (Sds (b @ v)) s4 = Some s5" "step s4 s5"
          "becomes s4 s5 d ((keyspace s4 d)(k \<mapsto> Str (b @ v))) (db_expires (dbs s4 d))"
        by (rule set_ptr_works [OF stepD(1) [OF 4(2)] d4 4(4)])
      have st5: "step s s5" by (rule step_trans [OF 4(2) 5(2)])
      have "becomes s s5 d ((keyspace s d)(k \<mapsto> Str (b @ v))) (db_expires (dbs s d))"
        using becomes_trans [OF 4(3) stepD(2) [OF 4(2)] 5(3)] becomes_d [OF 4(3) S(4)] by simp
      then have sto: "stores s s5 d ((store s d)(k \<mapsto> (Str (b @ v), ?e)))"
        by (rule becomes_stores [OF _ stepD(2) [OF st5] S(4)]) (use st(3) in \<open>auto simp: store_def entry_def\<close>)
      have ll: "in_ll (int (length (b @ v)))" using False by (simp add: in_ll_def)
      have sd: "sds_at s4 j' = Some b" using 4(4) by (simp add: sole_def sds_at_def obj_sds_def)
      have "append_found c d i j s = Some (Some (length (b @ v)), s5)"
        using False b 4(1) sd 5(1) by (simp add: e)
      then show ?thesis
        using append_reply_answers [OF s(1,2) st5 sto ll] t st(1) Str False by (simp add: kv_append_def)
    qed
  qed
qed

lemma append_absent_answered:
  assumes s: "serving c d s" "args c s [nm, k, v]" and k: "db_dict (dbs s d) k = None" and n: "in_ll (int (length v))"
  shows "\<exists>s'. append_absent c d (c_argv (clients s c) ! 1) s \<bind> append_reply c d (c_argv (clients s c) ! 1) = Some s' \<and>
    answered c (print_reply (RInt (int (length v)))) d ((store s d)(k \<mapsto> (Str v, None))) s s'"
proof -
  let ?i = "c_argv (clients s c) ! 1"
  let ?F = "\<lambda>j s2. do { s3 \<leftarrow> dbAdd d ?i j s2; s4 \<leftarrow> incrRefCount j s3; ob \<leftarrow> objs s4 j; n \<leftarrow> stringObjectLen ob; append_reply c d ?i (Some n, s4) }"
  have "\<exists>s'. encode_arg c 2 s \<bind> (\<lambda>(j, s2). ?F j s2) = Some s' \<and>
    answered c (print_reply (RInt (int (length v)))) d ((store s d)(k \<mapsto> (Str v, None))) s s'"
  proof (rule encode_then [OF s])
    fix j s2
    assume 2: "serving c d s2" "vals s2 j = Some (Str ([nm, k, v] ! 2))" "0 < ext s2 j" "store s2 d = store s d"
      and a: "\<And>m. m < length [nm, k, v] \<Longrightarrow> m \<noteq> 2 \<Longrightarrow> arg c m s2 = Some (c_argv (clients s c) ! m) \<and>
        named s2 (c_argv (clients s c) ! m) ([nm, k, v] ! m)" and dbs: "dbs s2 = dbs s"
    have i: "named s2 ?i k" and v: "vals s2 j = Some (Str v)" using a [of 1] 2(2) by simp_all
    have dk: "db_dict (dbs s2 d) k = None" using k dbs by simp
    obtain s4 where 4: "dbInsert d ?i j (db_dict (dbs s2 d) k) s2 \<bind> incrRefCount j = Some s4" "step s2 s4"
        "becomes s2 s4 d ((keyspace s2 d)(k \<mapsto> Str v)) (db_expires (dbs s2 d))" "db_dict (dbs s4 d) k = Some j"
      by (rule insert_counted [OF servingD(1,4) [OF 2(1)] i 2(3) v])
    have "stores s2 s4 d ((store s2 d)(k \<mapsto> (Str v, None)))"
      by (rule becomes_stores [OF 4(3) stepD(2) [OF 4(2)] servingD(4) [OF 2(1)]])
        (use expires_None [OF servingD(1,4) [OF 2(1)] dk] in \<open>auto simp: store_def\<close>)
    note ans = append_reply_answers [OF 2(1) i 4(2) this n]
    have "keyspace s4 d k = Some (Str v)" using becomes_d [OF 4(3) servingD(4) [OF 2(1)]] by simp
    then obtain ob where ob: "objs s4 j = Some ob" "value_of ob = Str v" using 4(4) by (auto simp: keyspace_def vals_def)
    have "stringObjectLen ob = Some (length v)"
      using stringObjectLen_ok [OF live(1) [OF goodD(1) [OF stepD(1) [OF 4(2)]] ob(1)]] value_of_Str [OF ob(2)] by simp
    then have "?F j s2 = append_reply c d ?i (Some (length v), s4)"
      using 4(1) ob(1) dk by (cases "dbAdd d ?i j s2") (simp_all add: dbInsert_def)
    then show "answers c (print_reply (RInt (int (length v)))) d ((store s d)(k \<mapsto> (Str v, None))) s2 (?F j s2)"
      using ans 2(4) by simp
  qed simp
  moreover have "append_absent c d ?i s \<bind> append_reply c d ?i = encode_arg c 2 s \<bind> (\<lambda>(j, s2). ?F j s2)"
    by (cases "encode_arg c 2 s") (auto simp: append_absent_def split: prod.splits)
  ultimately show ?thesis by simp
qed

lemma args_works:
  assumes "serving c d s" "args c s bs" "works s s1 d f"
  shows "args c s1 bs" "c_argv (clients s1 c) = c_argv (clients s c)"
proof -
  show a: "c_argv (clients s1 c) = c_argv (clients s c)" by (rule step_arg(3) [OF worksD(1) [OF assms(3)]])
  have "sds_at s1 i = sds_at s i" if "i \<in> set (c_argv (clients s c))" for i
    using step_oview [OF worksD(1) [OF assms(3)] argv_ext [OF servingD(5,6) [OF assms(1)] that]] oviewD(2) by blast
  then have "map (sds_at s1) (c_argv (clients s c)) = map (sds_at s) (c_argv (clients s c))" by (rule map_cong [OF refl])
  then show "args c s1 bs" using assms(2) unfolding args_def a by (rule trans)
qed

lemma appendCommand_answered:
  assumes s: "serving c d s" "args c s [nm, k, v]" and t: "kv_append k v (store s d) = (t, m)" "sendable t"
  shows "\<exists>s'. appendCommand c s = Some s' \<and> answered c (print_reply t) d m s s'"
proof -
  let ?i = "c_argv (clients s c) ! 1"
  note a1 = argsD [OF s, of 1, simplified]
  have i: "named s ?i k" using a1(2) by simp
  obtain w s1 where 1: "lookupKeyWrite d ?i s = Some (w, s1)" "works s s1 d (store s d)" "looked_up s1 d k w" "store s1 d = store s d"
    by (rule lookupKeyWrite_works [OF s(1) i])
  note s1 = serving_works [OF s(1) 1(2)] and n1 = named_step [OF i worksD(1) [OF 1(2)]] and A = args_works [OF s 1(2)]
  note e = appendCommand_parts a1(1) servingD(3) [OF s(1)] 1(1) [simplified]
  have "\<exists>s'. appendCommand c s = Some s' \<and> answered c (print_reply t) d m s1 s'"
    using 1(3)
  proof (cases rule: looked_up_cases)
    case absent
    have tm: "t = RInt (int (length v))" "m = (store s1 d)(k \<mapsto> (Str v, None))"
      using t(1) absent(2) 1(4) by (auto simp: kv_append_def)
    then show ?thesis
      using append_absent_answered [OF s1 A(1) absent(3)] t(2) absent(1) A(2) a1(1) by (simp add: e)
  next
    case (found j ob)
    have a2: "arg c 2 s1 = Some (c_argv (clients s1 c) ! 2)" "named s1 (c_argv (clients s1 c) ! 2) v"
      using argsD [OF s1 A(1), of 2] by simp_all
    have "answers c (print_reply t) d m s1 (append_found c d ?i j s1 \<bind> append_reply c d ?i)"
      by (rule append_found_answers [OF s1 n1 _ found(2) a2]) (use 1(3) found(1) t(1) 1(4) in auto)
    then show ?thesis using answers_then [OF _ s1] found(1) a1(1) by (simp add: e)
  qed
  then show ?thesis using works_answered [OF servingD(1) [OF s(1)] 1(2)] by blast
qed

end
