(* ===== verification/Slowlog.thy ===== *)
theory Slowlog
  imports Db
begin

text \<open>
  The slow log (\<open>src/lib/src/slowlog.c\<close>): a list of entries, the newest first, that keep references to the
  arguments of slow commands. The text of a format string is written out.
\<close>

definition SLOWLOG_ENTRY_MAX_ARGC :: nat where "SLOWLOG_ENTRY_MAX_ARGC = 32"
definition SLOWLOG_ENTRY_MAX_STRING :: nat where "SLOWLOG_ENTRY_MAX_STRING = 128"

text \<open>One argument of the entry, the \<open>j\<close>-th of \<open>slargc\<close>.\<close>

definition entry_arg :: "oid list \<Rightarrow> nat \<Rightarrow> nat \<Rightarrow> redisServer \<Rightarrow> (oid \<times> redisServer) option" where
  "entry_arg argv slargc j s =
     (if slargc \<noteq> length argv \<and> j = slargc - 1
      then Some (createObject REDIS_STRING (Sds (''... ('' @ dec (length argv - slargc + 1) @ '' more arguments)'')) s)
      else if j \<ge> length argv then None
      else do {
        ob \<leftarrow> objs s (argv ! j);
        (if ob_type ob = REDIS_STRING \<and> sdsEncodedObject ob then do {
           b \<leftarrow> obj_sds ob;
           (if length b > SLOWLOG_ENTRY_MAX_STRING
            then Some (createObject REDIS_STRING (Sds (take SLOWLOG_ENTRY_MAX_STRING b @ ''... ('' @
              dec (length b - SLOWLOG_ENTRY_MAX_STRING) @ '' more bytes)'')) s)
            else map_option (Pair (argv ! j)) (incrRefCount (argv ! j) s))
         }
         else map_option (Pair (argv ! j)) (incrRefCount (argv ! j) s))
      })"

fun entry_args :: "oid list \<Rightarrow> nat \<Rightarrow> nat list \<Rightarrow> redisServer \<Rightarrow> (oid list \<times> redisServer) option" where
  "entry_args argv slargc [] s = Some ([], s)"
| "entry_args argv slargc (j # js) s =
     do {
       (i, s1) \<leftarrow> entry_arg argv slargc j s;
       (is, s2) \<leftarrow> entry_args argv slargc js s1;
       Some (i # is, s2)
     }"

definition slowlogCreateEntry :: "oid list \<Rightarrow> int \<Rightarrow> redisServer \<Rightarrow> (slowlogEntry \<times> redisServer) option" where
  "slowlogCreateEntry argv duration s =
     (let slargc = (if length argv > SLOWLOG_ENTRY_MAX_ARGC then SLOWLOG_ENTRY_MAX_ARGC else length argv)
      in do {
        (args, s1) \<leftarrow> entry_args argv slargc [0..<slargc] s;
        Some (\<lparr>se_argv = args, se_id = slowlog_entry_id s1, se_duration = duration, se_time = mstime s1 div 1000\<rparr>,
          s1\<lparr>slowlog_entry_id := slowlog_entry_id s1 + 1\<rparr>)
      })"

definition slowlogFreeEntry :: "slowlogEntry \<Rightarrow> redisServer \<Rightarrow> redisServer option" where
  "slowlogFreeEntry se s = release_all (se_argv se) s"

definition slowlogInit :: "redisServer \<Rightarrow> redisServer" where
  "slowlogInit s = s\<lparr>slowlog := [], slowlog_entry_id := 0\<rparr>"

text \<open>Removing the last \<open>n\<close> entries.\<close>

fun drop_oldest :: "nat \<Rightarrow> redisServer \<Rightarrow> redisServer option" where
  "drop_oldest 0 s = Some s"
| "drop_oldest (Suc n) s =
     (if slowlog s = [] then None
      else do {
        s1 \<leftarrow> slowlogFreeEntry (last (slowlog s)) (s\<lparr>slowlog := butlast (slowlog s)\<rparr>);
        drop_oldest n s1
      })"

definition slowlogPushEntryIfNeeded :: "oid list \<Rightarrow> int \<Rightarrow> redisServer \<Rightarrow> redisServer option" where
  "slowlogPushEntryIfNeeded argv duration s =
     (if slowlog_log_slower_than s < 0 then Some s
      else do {
        s1 \<leftarrow> (if duration \<ge> slowlog_log_slower_than s
               then do { (se, s1) \<leftarrow> slowlogCreateEntry argv duration s; Some (s1\<lparr>slowlog := se # slowlog s1\<rparr>) }
               else Some s);
        drop_oldest (length (slowlog s1) - slowlog_max_len s1) s1
      })"

definition slowlogReset :: "redisServer \<Rightarrow> redisServer option" where
  "slowlogReset s = drop_oldest (length (slowlog s)) s"

fun reply_bulks :: "cid \<Rightarrow> oid list \<Rightarrow> redisServer \<Rightarrow> redisServer option" where
  "reply_bulks c [] s = Some s"
| "reply_bulks c (i # is) s = do { s1 \<leftarrow> addReplyBulk c i s; reply_bulks c is s1 }"

fun reply_entries :: "cid \<Rightarrow> slowlogEntry list \<Rightarrow> redisServer \<Rightarrow> redisServer option" where
  "reply_entries c [] s = Some s"
| "reply_entries c (se # ses) s =
     do {
       s1 \<leftarrow> addReplyMultiBulkLen c 4 s;
       s2 \<leftarrow> addReplyLongLong c (se_id se) s1;
       s3 \<leftarrow> addReplyLongLong c (se_time se) s2;
       s4 \<leftarrow> addReplyLongLong c (se_duration se) s3;
       s5 \<leftarrow> addReplyMultiBulkLen c (int (length (se_argv se))) s4;
       s6 \<leftarrow> reply_bulks c (se_argv se) s5;
       reply_entries c ses s6
     }"

definition slowlogCommand :: "cid \<Rightarrow> redisServer \<Rightarrow> redisServer option" where
  "slowlogCommand c s =
     (let argc = length (c_argv (clients s c))
      in do {
        a1 \<leftarrow> arg c 1 s;
        b \<leftarrow> sds_at s a1;
        (if argc = 2 \<and> strcaseeq (c_str b) ''reset'' then do { s1 \<leftarrow> slowlogReset s; addReply c (Shared S_ok) s1 }
         else if argc = 2 \<and> strcaseeq (c_str b) ''len'' then addReplyLongLong c (int (length (slowlog s))) s
         else if (argc = 2 \<or> argc = 3) \<and> strcaseeq (c_str b) ''get'' then do {
           (r, s1) \<leftarrow> (if argc = 3 then do { a2 \<leftarrow> arg c 2 s; getLongFromObjectOrReply c (Some a2) None s } else Some (Some 10, s));
           (case r of
              None \<Rightarrow> Some s1
            | Some count \<Rightarrow>
                let sent = (if count < 0 then slowlog s1 else take (nat count) (slowlog s1));
                    (totentries, s2) = addDeferredMultiBulkLength c s1
                in do {
                  s3 \<leftarrow> reply_entries c sent s2;
                  setDeferredMultiBulkLength c totentries (int (length sent)) s3
                })
         }
         else addReplyError c ''Unknown SLOWLOG subcommand or wrong # of args. Try GET, RESET, LEN.'' s)
      })"

end
