(* ===== verification/Multi.thy ===== *)
theory Multi
  imports Watch Slowlog
begin

text \<open>
  Transactions (\<open>src/lib/src/multi.c\<close>). \<open>EXEC\<close> runs the queued commands with the function \<open>call\<close> of
  \<open>redis.c\<close>, an argument here, and asks with \<open>readonly\<close> for the flags of a command. There are no clients
  in \<open>MONITOR\<close> mode.
\<close>

definition initClientMultiState :: "cid \<Rightarrow> redisServer \<Rightarrow> redisServer" where
  "initClientMultiState c s = update_client c (\<lambda>cl. cl\<lparr>c_mstate := []\<rparr>) s"

definition freeClientMultiState :: "cid \<Rightarrow> redisServer \<Rightarrow> redisServer option" where
  "freeClientMultiState c s = release_all (concat (map mc_argv (c_mstate (clients s c)))) s"

definition queueMultiCommand :: "cid \<Rightarrow> redisServer \<Rightarrow> redisServer option" where
  "queueMultiCommand c s =
     (let cl = clients s c
      in retain_all (c_argv cl)
           (update_client c (\<lambda>cl. cl\<lparr>c_mstate := c_mstate cl @ [\<lparr>mc_argv = c_argv cl, mc_cmd = c_cmd cl\<rparr>]\<rparr>) s))"

definition discardTransaction :: "cid \<Rightarrow> redisServer \<Rightarrow> redisServer option" where
  "discardTransaction c s =
     do {
       s1 \<leftarrow> freeClientMultiState c s;
       unwatchAllKeys c (update_client c (\<lambda>cl. cl\<lparr>c_flags := c_flags cl - {REDIS_MULTI, REDIS_DIRTY_CAS, REDIS_DIRTY_EXEC}\<rparr>)
         (initClientMultiState c s1))
     }"

definition flagTransaction :: "cid \<Rightarrow> redisServer \<Rightarrow> redisServer" where
  "flagTransaction c s =
     (if REDIS_MULTI \<in> c_flags (clients s c)
      then update_client c (\<lambda>cl. cl\<lparr>c_flags := insert REDIS_DIRTY_EXEC (c_flags cl)\<rparr>) s else s)"

definition multiCommand :: "cid \<Rightarrow> redisServer \<Rightarrow> redisServer option" where
  "multiCommand c s =
     (if REDIS_MULTI \<in> c_flags (clients s c) then addReplyError c ''MULTI calls can not be nested'' s
      else addReply c (Shared S_ok) (update_client c (\<lambda>cl. cl\<lparr>c_flags := insert REDIS_MULTI (c_flags cl)\<rparr>) s))"

definition discardCommand :: "cid \<Rightarrow> redisServer \<Rightarrow> redisServer option" where
  "discardCommand c s =
     (if REDIS_MULTI \<notin> c_flags (clients s c) then addReplyError c ''DISCARD without MULTI'' s
      else do { s1 \<leftarrow> discardTransaction c s; addReply c (Shared S_ok) s1 })"

text \<open>The arguments of a command as the append only file and the slaves get them.\<close>

fun arg_strings :: "redisServer \<Rightarrow> oid list \<Rightarrow> bytes list option" where
  "arg_strings s [] = Some []"
| "arg_strings s (i # is) = do { b \<leftarrow> obj_str s i; bs \<leftarrow> arg_strings s is; Some (b # bs) }"

definition propagate :: "dbid \<Rightarrow> oid list \<Rightarrow> redisServer \<Rightarrow> redisServer option" where
  "propagate d argv s = do { bs \<leftarrow> arg_strings s argv; Some (s\<lparr>propagated := propagated s @ [(d, bs)]\<rparr>) }"

definition execCommandPropagateMulti :: "cid \<Rightarrow> redisServer \<Rightarrow> redisServer option" where
  "execCommandPropagateMulti c s =
     (let (multistring, s1) = createStringObject ''MULTI'' s
      in do { s2 \<leftarrow> propagate (c_db (clients s c)) [multistring] s1; decrRefCount multistring s2 })"

text \<open>
  The commands still to run are the queue from position \<open>j\<close>. A command may change its argument vector, which
  goes back to the queue.
\<close>

fun exec_loop :: "(bytes \<Rightarrow> bool) \<Rightarrow> (cid \<Rightarrow> redisServer \<Rightarrow> redisServer option) \<Rightarrow> cid \<Rightarrow> nat \<Rightarrow> multiCmd list \<Rightarrow>
    bool \<Rightarrow> redisServer \<Rightarrow> (bool \<times> redisServer) option" where
  "exec_loop readonly call c j [] must_propagate s = Some (must_propagate, s)"
| "exec_loop readonly call c j (m # ms) must_propagate s =
     do {
       let s1 = update_client c (\<lambda>cl. cl\<lparr>c_argv := mc_argv m, c_cmd := mc_cmd m\<rparr>) s;
       s2 \<leftarrow> (if \<not> must_propagate \<and> \<not> readonly (mc_cmd m) then execCommandPropagateMulti c s1 else Some s1);
       s3 \<leftarrow> call c s2;
       exec_loop readonly call c (j + 1) ms (must_propagate \<or> \<not> readonly (mc_cmd m))
         (update_client c (\<lambda>cl. cl\<lparr>c_mstate := (c_mstate cl)[j := \<lparr>mc_argv = c_argv cl, mc_cmd = c_cmd cl\<rparr>]\<rparr>) s3)
     }"

definition execCommand :: "(bytes \<Rightarrow> bool) \<Rightarrow> (cid \<Rightarrow> redisServer \<Rightarrow> redisServer option) \<Rightarrow> cid \<Rightarrow> redisServer \<Rightarrow> redisServer option" where
  "execCommand readonly call c s =
     (let cl = clients s c
      in if REDIS_MULTI \<notin> c_flags cl then addReplyError c ''EXEC without MULTI'' s
         else if REDIS_DIRTY_CAS \<in> c_flags cl \<or> REDIS_DIRTY_EXEC \<in> c_flags cl then do {
           s1 \<leftarrow> addReply c (Shared (if REDIS_DIRTY_EXEC \<in> c_flags cl then S_execaborterr else S_nullmultibulk)) s;
           discardTransaction c s1
         }
         else do {
           s1 \<leftarrow> unwatchAllKeys c s;
           s2 \<leftarrow> addReplyMultiBulkLen c (int (length (c_mstate cl))) s1;
           (must_propagate, s3) \<leftarrow> exec_loop readonly call c 0 (c_mstate cl) False s2;
           s4 \<leftarrow> discardTransaction c (update_client c (\<lambda>x. x\<lparr>c_argv := c_argv cl, c_cmd := c_cmd cl\<rparr>) s3);
           Some (if must_propagate then s4\<lparr>dirty := dirty s4 + 1\<rparr> else s4)
         })"

fun watch_loop :: "cid \<Rightarrow> oid list \<Rightarrow> redisServer \<Rightarrow> redisServer option" where
  "watch_loop c [] s = Some s"
| "watch_loop c (i # is) s = do { s1 \<leftarrow> watchForKey c i s; watch_loop c is s1 }"

definition watchCommand :: "cid \<Rightarrow> redisServer \<Rightarrow> redisServer option" where
  "watchCommand c s =
     (if REDIS_MULTI \<in> c_flags (clients s c) then addReplyError c ''WATCH inside MULTI is not allowed'' s
      else do { s1 \<leftarrow> watch_loop c (tl (c_argv (clients s c))) s; addReply c (Shared S_ok) s1 })"

definition unwatchCommand :: "cid \<Rightarrow> redisServer \<Rightarrow> redisServer option" where
  "unwatchCommand c s =
     do {
       s1 \<leftarrow> unwatchAllKeys c s;
       addReply c (Shared S_ok) (update_client c (\<lambda>cl. cl\<lparr>c_flags := c_flags cl - {REDIS_DIRTY_CAS}\<rparr>) s1)
     }"

end
