(* ===== verification/Command.thy ===== *)
theory Command
  imports T_string Multi
begin

text \<open>
  Commands (\<open>src/lib/src/redis.c\<close>): the rows of \<open>redisCommandTable\<close> whose commands are modelled, \<open>call\<close> and
  \<open>processCommand\<close>. The other rows of the table are the argument \<open>other\<close>. \<open>EXEC\<close> cannot be queued, so that the
  table with which it runs the queue is the one without it. The server is not in a cluster, no Lua script is
  running and nobody monitors; the statistics of commands are left out.
\<close>

record redisCommand =
  cmd_name :: bytes
  cmd_arity :: int
  cmd_sflags :: bytes
  cmd_proc :: "cid \<Rightarrow> redisServer \<Rightarrow> redisServer option"

definition pingCommand :: "cid \<Rightarrow> redisServer \<Rightarrow> redisServer option" where
  "pingCommand c s = addReply c (Shared S_pong) s"

definition echoCommand :: "cid \<Rightarrow> redisServer \<Rightarrow> redisServer option" where
  "echoCommand c s = do { a \<leftarrow> arg c 1 s; addReplyBulk c a s }"

definition row :: "bytes \<Rightarrow> (cid \<Rightarrow> redisServer \<Rightarrow> redisServer option) \<Rightarrow> int \<Rightarrow> bytes \<Rightarrow> redisCommand" where
  "row name proc arity sflags = \<lparr>cmd_name = name, cmd_arity = arity, cmd_sflags = sflags, cmd_proc = proc\<rparr>"

definition redisCommandTable :: "redisCommand list" where
  "redisCommandTable =
    [row ''get'' getCommand 2 ''r'',
     row ''set'' setCommand (-3) ''wm'',
     row ''setnx'' setnxCommand 3 ''wm'',
     row ''setex'' setexCommand 4 ''wm'',
     row ''psetex'' psetexCommand 4 ''wm'',
     row ''append'' appendCommand 3 ''wm'',
     row ''strlen'' strlenCommand 2 ''r'',
     row ''del'' delCommand (-2) ''w'',
     row ''exists'' existsCommand 2 ''r'',
     row ''setrange'' setrangeCommand 4 ''wm'',
     row ''getrange'' getrangeCommand 4 ''r'',
     row ''substr'' getrangeCommand 4 ''r'',
     row ''incr'' incrCommand 2 ''wm'',
     row ''decr'' decrCommand 2 ''wm'',
     row ''mget'' mgetCommand (-2) ''r'',
     row ''incrby'' incrbyCommand 3 ''wm'',
     row ''decrby'' decrbyCommand 3 ''wm'',
     row ''getset'' getsetCommand 3 ''wm'',
     row ''mset'' msetCommand (-3) ''wm'',
     row ''msetnx'' msetnxCommand (-3) ''wm'',
     row ''select'' selectCommand 2 ''rl'',
     row ''move'' moveCommand 3 ''w'',
     row ''rename'' renameCommand 3 ''w'',
     row ''renamenx'' renamenxCommand 3 ''w'',
     row ''expire'' expireCommand 3 ''w'',
     row ''expireat'' expireatCommand 3 ''w'',
     row ''pexpire'' pexpireCommand 3 ''w'',
     row ''pexpireat'' pexpireatCommand 3 ''w'',
     row ''ping'' pingCommand 1 ''rt'',
     row ''echo'' echoCommand 2 ''r'',
     row ''type'' typeCommand 2 ''r'',
     row ''multi'' multiCommand 1 ''rs'',
     row ''discard'' discardCommand 1 ''rs'',
     row ''ttl'' ttlCommand 2 ''r'',
     row ''pttl'' pttlCommand 2 ''r'',
     row ''persist'' persistCommand 2 ''w'',
     row ''subscribe'' subscribeCommand (-2) ''rpslt'',
     row ''unsubscribe'' unsubscribeCommand (-1) ''rpslt'',
     row ''psubscribe'' psubscribeCommand (-2) ''rpslt'',
     row ''punsubscribe'' punsubscribeCommand (-1) ''rpslt'',
     row ''publish'' publishCommand 3 ''pltr'',
     row ''watch'' watchCommand (-2) ''rs'',
     row ''unwatch'' unwatchCommand 1 ''rs'',
     row ''slowlog'' slowlogCommand (-2) ''r'']"

text \<open>The keys of the dict of commands are compared without regard to case.\<close>

definition find_command :: "redisCommand list \<Rightarrow> bytes \<Rightarrow> redisCommand option" where
  "find_command table name = find (\<lambda>r. strcaseeq (cmd_name r) name) table"

text \<open>\<open>duration\<close> is the time the command takes.\<close>

definition call :: "redisCommand list \<Rightarrow> bool \<Rightarrow> bool \<Rightarrow> int \<Rightarrow> cid \<Rightarrow> redisServer \<Rightarrow> redisServer option" where
  "call table slowlog_flag propagate_flag duration c s =
     (let forced = {REDIS_FORCE_AOF, REDIS_FORCE_REPL}; old = c_flags (clients s c)
      in do {
        r \<leftarrow> find_command table (c_cmd (clients s c));
        s1 \<leftarrow> cmd_proc r c (update_client c (\<lambda>cl. cl\<lparr>c_flags := c_flags cl - forced\<rparr>) s);
        let dirtied = (dirty s1 \<noteq> dirty s);
        let cl = clients s1 c;
        s2 \<leftarrow> (if slowlog_flag \<and> c_cmd cl \<noteq> ''exec'' \<and> \<not> (loading s1 \<and> REDIS_LUA_CLIENT \<in> c_flags cl)
               then slowlogPushEntryIfNeeded (c_argv cl) duration s1 else Some s1);
        s3 \<leftarrow> (if propagate_flag \<and> (dirtied \<or> c_flags cl \<inter> forced \<noteq> {}) then propagate (c_db cl) (c_argv cl) s2 else Some s2);
        Some (update_client c (\<lambda>cl. cl\<lparr>c_flags := (c_flags cl - forced) \<union> (old \<inter> forced)\<rparr>) s3)
      })"

definition is_readonly :: "redisCommand list \<Rightarrow> bytes \<Rightarrow> bool" where
  "is_readonly table name =
     (case find_command table name of None \<Rightarrow> False | Some r \<Rightarrow> CHR ''r'' \<in> set (cmd_sflags r))"

definition commands :: "redisCommand list \<Rightarrow> int \<Rightarrow> redisCommand list" where
  "commands other duration =
     (let queued = redisCommandTable @ other
      in queued @ [row ''exec'' (execCommand (is_readonly queued) (call queued True True duration)) 1 ''sM''])"

text \<open>The settings and the state of the server on which the checks of \<open>processCommand\<close> depend.\<close>

record policy =
  requirepass :: bool
  authenticated :: "cid \<Rightarrow> bool"
  freeMemoryIfNeeded :: "redisServer \<Rightarrow> (bool \<times> redisServer) option"
  stop_writes_on_bgsave_err :: bool
  saveparamslen :: nat
  lastbgsave_ok :: bool
  repl_min_slaves_to_write :: nat
  repl_min_slaves_max_lag :: nat
  repl_good_slaves_count :: nat
  repl_slave_ro :: bool
  repl_connected :: bool
  repl_serve_stale_data :: bool
  lua_timedout :: bool

definition refuse :: "cid \<Rightarrow> shared \<Rightarrow> redisServer \<Rightarrow> (bool \<times> redisServer) option" where
  "refuse c err s = map_option (Pair True) (addReply c (Shared err) (flagTransaction c s))"

definition wrong_arity :: "redisCommand \<Rightarrow> int \<Rightarrow> bool" where
  "wrong_arity r argc \<longleftrightarrow> (cmd_arity r > 0 \<and> cmd_arity r \<noteq> argc) \<or> argc < - cmd_arity r"

definition timedout_allows :: "redisCommand \<Rightarrow> redisServer \<Rightarrow> cid \<Rightarrow> bool" where
  "timedout_allows r s c \<longleftrightarrow>
     (let argv = c_argv (clients s c);
          letter = (\<lambda>x. length argv = 2 \<and> (case sds_at s (argv ! 1) of Some (a # as) \<Rightarrow> tolower a = x | _ \<Rightarrow> False))
      in cmd_name r \<in> {''auth'', ''replconf''} \<or> (cmd_name r = ''shutdown'' \<and> letter (CHR ''n'')) \<or>
         (cmd_name r = ''script'' \<and> letter (CHR ''k'')))"

text \<open>The result says whether the client is ready for the next command (\<open>REDIS_OK\<close>).\<close>

definition processCommand :: "policy \<Rightarrow> redisCommand list \<Rightarrow> int \<Rightarrow> cid \<Rightarrow> redisServer \<Rightarrow> (bool \<times> redisServer) option" where
  "processCommand p other duration c s =
     do {
       a0 \<leftarrow> arg c 0 s;
       name \<leftarrow> sds_at s a0;
       let argc = int (length (c_argv (clients s c)));
       (if strcaseeq (c_str name) ''quit'' then do {
          s1 \<leftarrow> addReply c (Shared S_ok) s;
          Some (False, update_client c (\<lambda>cl. cl\<lparr>c_flags := insert REDIS_CLOSE_AFTER_REPLY (c_flags cl)\<rparr>) s1)
        }
        else case find_command (commands other duration) name of
          None \<Rightarrow> map_option (Pair True) (addReplyErrorFormat c (''unknown command '' @ [CHR 0x27] @ c_str name @ [CHR 0x27])
            (flagTransaction c (update_client c (\<lambda>cl. cl\<lparr>c_cmd := []\<rparr>) s)))
        | Some r \<Rightarrow>
            let s0 = update_client c (\<lambda>cl. cl\<lparr>c_cmd := cmd_name r\<rparr>) s;
                has = (\<lambda>x. x \<in> set (cmd_sflags r)); cl = clients s0 c
            in if wrong_arity r argc
               then map_option (Pair True) (addReplyErrorFormat c (''wrong number of arguments for '' @ [CHR 0x27] @ cmd_name r @
                 [CHR 0x27] @ '' command'') (flagTransaction c s0))
               else if requirepass p \<and> \<not> authenticated p c \<and> cmd_name r \<noteq> ''auth'' then refuse c S_noautherr s0
               else do {
                 (enough, s1) \<leftarrow> (if maxmemory s0 > 0 then freeMemoryIfNeeded p s0 else Some (True, s0));
                 (if has (CHR ''m'') \<and> \<not> enough then refuse c S_oomerr s1
                  else if stop_writes_on_bgsave_err p \<and> saveparamslen p > 0 \<and> \<not> lastbgsave_ok p \<and> masterhost s1 \<and>
                    (has (CHR ''w'') \<or> cmd_name r = ''ping'') then refuse c S_bgsaveerr s1
                  else if repl_min_slaves_to_write p > 0 \<and> repl_min_slaves_max_lag p > 0 \<and> has (CHR ''w'') \<and>
                    repl_good_slaves_count p < repl_min_slaves_to_write p then refuse c S_noreplicaserr s1
                  else if masterhost s1 \<and> repl_slave_ro p \<and> REDIS_MASTER \<notin> c_flags cl \<and> has (CHR ''w'')
                  then map_option (Pair True) (addReply c (Shared S_roslaveerr) s1)
                  else if (c_pubsub_channels cl \<noteq> [] \<or> c_pubsub_patterns cl \<noteq> []) \<and>
                    cmd_name r \<notin> {''subscribe'', ''unsubscribe'', ''psubscribe'', ''punsubscribe''}
                  then map_option (Pair True)
                    (addReplyError c ''only (P)SUBSCRIBE / (P)UNSUBSCRIBE / QUIT allowed in this context'' s1)
                  else if masterhost s1 \<and> \<not> repl_connected p \<and> \<not> repl_serve_stale_data p \<and> \<not> has (CHR ''t'')
                  then refuse c S_masterdownerr s1
                  else if loading s1 \<and> \<not> has (CHR ''l'') then map_option (Pair True) (addReply c (Shared S_loadingerr) s1)
                  else if lua_timedout p \<and> \<not> timedout_allows r s1 c then refuse c S_slowscripterr s1
                  else if REDIS_MULTI \<in> c_flags cl \<and> cmd_name r \<notin> {''exec'', ''discard'', ''multi'', ''watch''}
                  then do { s2 \<leftarrow> queueMultiCommand c s1; map_option (Pair True) (addReply c (Shared S_queued) s2) }
                  else map_option (Pair True) (call (commands other duration) True True duration c s1))
               })
     }"

end
