(* ===== verification/V8Script.thy ===== *)
theory V8Script
  imports Command V8Parser
begin

text \<open>
  Scripting with V8: the functions that JavaScript programs call (\<open>src/lib/src/v8scripting.cc\<close>), and how
  programs are run and answered (\<open>src/lib/src/v8run_js.cc\<close>). A value of JavaScript that is passed on as a
  string is given by its UTF-8 bytes. The client of the scripts is \<open>c\<close>, the global \<open>client\<close>; the state of the
  parser (\<open>redisReply\<close>, \<open>lastError\<close> and the buffer for strings) is the record of \<open>V8Parser\<close>. V8 itself, with
  everything that a program does while it runs, is the argument \<open>engine\<close>.
\<close>

type_synonym v8_state = "pstate \<times> redisServer"

text \<open>\<open>memset(lastError,0,4096); strcpy(lastError,msg)\<close>\<close>

definition set_lastError :: "bytes \<Rightarrow> pstate \<Rightarrow> pstate" where
  "set_lastError msg ps = ps\<lparr>lastError := msg @ replicate (4096 - length msg) NUL\<rparr>"

definition getLastError :: "pstate \<Rightarrow> jsval" where
  "getLastError ps = JString (c_str (lastError ps))"

definition raw_get :: "cid \<Rightarrow> bytes \<Rightarrow> redisServer \<Rightarrow> (jsval \<times> redisServer) option" where
  "raw_get c strkey s =
     (let (i, s1) = createStringObject strkey s
      in do {
        (reply, s2) \<leftarrow> lookupKeyRead (c_db (clients s1 c)) i s1;
        s3 \<leftarrow> decrRefCount i s2;
        (case reply of
           None \<Rightarrow> Some (JNull, s3)
         | Some r \<Rightarrow> do {
             ob \<leftarrow> objs s3 r;
             (if ob_type ob \<noteq> REDIS_STRING then Some (JNull, s3)
              else do { b \<leftarrow> obj_sds ob; Some (JString (c_str b), s3) })
           })
      })"

definition raw_set :: "cid \<Rightarrow> bytes \<Rightarrow> bytes \<Rightarrow> redisServer \<Rightarrow> (jsval \<times> redisServer) option" where
  "raw_set c strkey strval s =
     (let (i, s1) = createStringObject strkey s; (v, s2) = createStringObject strval s1; d = c_db (clients s c)
      in do {
        s3 \<leftarrow> setKey d i v s2;
        s4 \<leftarrow> notifyKeyspaceEvent REDIS_NOTIFY_STRING ''set'' i d s3;
        s5 \<leftarrow> decrRefCount i s4;
        s6 \<leftarrow> decrRefCount v s5;
        Some (JBoolean True, s6)
      })"

definition V8_MAX_INTEGER :: int where
  "V8_MAX_INTEGER = 9007199254740992"

text \<open>A value that JavaScript cannot represent is printed into a buffer of 20 bytes.\<close>

definition raw_incrby :: "cid \<Rightarrow> bytes \<Rightarrow> int \<Rightarrow> v8_state \<Rightarrow> (jsval \<times> v8_state) option" where
  "raw_incrby c strkey incr = (\<lambda>(ps, s).
     let (i, s1) = createStringObject strkey s; d = c_db (clients s c)
     in do {
       (reply, s2) \<leftarrow> lookupKeyRead d i s1;
       (bad, s3) \<leftarrow> (case reply of None \<Rightarrow> Some (False, s2) | Some r \<Rightarrow> checkType c r REDIS_STRING s2);
       (if bad then do {
          s4 \<leftarrow> decrRefCount i s3;
          Some (JBoolean False, set_lastError ''-value is not integer'' ps, s4)
        }
        else do {
          (r, s4) \<leftarrow> getLongLongFromObjectOrReply c reply None s3;
          (case r of
             None \<Rightarrow> Some (JBoolean False, set_lastError ''-getLongLongFromObjectOrReply failed'' ps, s4)
           | Some oldvalue \<Rightarrow>
               if incr_overflows oldvalue incr then do {
                 s5 \<leftarrow> decrRefCount i s4;
                 Some (JBoolean False, set_lastError ''-increment or decrement would overflow'' ps, s5)
               }
               else do {
                 value \<leftarrow> checked (oldvalue + incr);
                 (newvalue, s5) \<leftarrow> createStringObjectFromLongLong value s4;
                 s6 \<leftarrow> (if reply \<noteq> None then dbOverwrite d i newvalue s5 else dbAdd d i newvalue s5);
                 s7 \<leftarrow> signalModifiedKey d i s6;
                 s8 \<leftarrow> notifyKeyspaceEvent REDIS_NOTIFY_STRING ''incrby'' i d s7;
                 (if value > V8_MAX_INTEGER \<or> value < - V8_MAX_INTEGER then
                    if length (dec_int value) + 1 > 20 then None
                    else do {
                      s9 \<leftarrow> decrRefCount i s8;
                      s10 \<leftarrow> decrRefCount newvalue s9;
                      Some (JString (dec_int value), ps, s10)
                    }
                  else do { s9 \<leftarrow> decrRefCount i s8; Some (JNumber value, ps, s9) })
               })
        })
     })"

subsection \<open>Running a command\<close>

fun create_args :: "bytes list \<Rightarrow> redisServer \<Rightarrow> oid list \<times> redisServer" where
  "create_args [] s = ([], s)"
| "create_args (b # bs) s =
     (let (i, s1) = createStringObject b s; (is, s2) = create_args bs s1 in (i # is, s2))"

text \<open>The loop that takes the objects off the output list; each is read up to its first NUL.\<close>

fun take_replies :: "oid list \<Rightarrow> redisServer \<Rightarrow> (bytes \<times> redisServer) option" where
  "take_replies [] s = Some ([], s)"
| "take_replies (i # is) s =
     do {
       b \<leftarrow> sds_at s i;
       s1 \<leftarrow> decrRefCount i s;
       (r, s2) \<leftarrow> take_replies is s1;
       Some (c_str b @ r, s2)
     }"

definition collect_reply :: "cid \<Rightarrow> redisServer \<Rightarrow> (bytes \<times> redisServer) option" where
  "collect_reply c s =
     (let cl = clients s c
      in do {
        (r, s1) \<leftarrow> take_replies (c_reply cl) (update_client c (\<lambda>cl. cl\<lparr>c_buf := [], c_reply := []\<rparr>) s);
        Some (c_buf cl @ r, s1)
      })"

text \<open>
  \<open>redis.__run(args)\<close>. The argument vector is freed at the end; the field \<open>argv\<close>, which then dangles until
  the next command, is set to the empty vector here.
\<close>

definition run :: "redisCommand list \<Rightarrow> cid \<Rightarrow> bytes list \<Rightarrow> v8_state \<Rightarrow> (jsval \<times> v8_state) option" where
  "run table c args = (\<lambda>(ps, s).
     let (argv, s1) = create_args args s; s2 = update_client c (\<lambda>cl. cl\<lparr>c_argv := argv\<rparr>) s1
     in if argv = [] then None
        else do {
          name \<leftarrow> sds_at s2 (hd argv);
          (case find_command table (c_str name) of
             None \<Rightarrow> Some (JUndefined, ps, s2)
           | Some r \<Rightarrow> do {
               s3 \<leftarrow> cmd_proc r c (update_client c (\<lambda>cl. cl\<lparr>c_cmd := cmd_name r\<rparr>) s2);
               (reply, s4) \<leftarrow> collect_reply c s3;
               (v, ps1) \<leftarrow> parse_response (ps\<lparr>redisReply := reply\<rparr>);
               s5 \<leftarrow> release_all (c_argv (clients s4 c)) s4;
               Some (v, ps1, update_client c (\<lambda>cl. cl\<lparr>c_argv := []\<rparr>) s5)
             })
        })"

subsection \<open>Running a program\<close>

text \<open>What V8 makes of a program: it does not compile, it throws, or it has a result.\<close>

datatype js_outcome = Compile_error bytes | Exception bytes bytes | Result bytes

text \<open>The sizes of \<open>wrapcodebuf\<close> and \<open>run_js_returnbuf\<close>, with the pointers that may be \<open>NULL\<close>.\<close>

record js_buffers =
  wrapcodebuf :: bool
  wrapcodebuf_len :: nat
  run_js_returnbuf :: bool
  run_js_returnbuf_len :: nat

record run_js_return =
  json :: bytes
  ret_len :: nat

definition wrap_code :: "bool \<Rightarrow> bytes \<Rightarrow> bytes" where
  "wrap_code async_call prog =
     (if \<not> async_call then ''inline_redis_func = function(){'' @ prog @ ''}; redis.inline_return()''
      else ''(function(){ setTimeout(function(){'' @ prog @ ''},1); return '' @ [CHR 0x27] @ ''{'' @ [CHR 0x22] @ ''ret'' @ [CHR 0x22] @
        '':true,'' @ [CHR 0x22] @ ''cmds'' @ [CHR 0x22] @ '':0}'' @ [CHR 0x27] @ '' })();'')"

text \<open>\<open>sprintf\<close> into a buffer of the given size\<close>

definition sprintf_buf :: "nat \<Rightarrow> bytes \<Rightarrow> bytes option" where
  "sprintf_buf sz t = (if length t + 1 \<le> sz then Some t else None)"

definition quoted :: "bytes \<Rightarrow> bytes" where
  "quoted t = [CHR 0x22] @ c_str t @ [CHR 0x22]"

definition make_wrapcodebuf :: "nat \<Rightarrow> js_buffers \<Rightarrow> js_buffers" where
  "make_wrapcodebuf code_length bf =
     (let bf1 = (if \<not> wrapcodebuf bf then bf\<lparr>wrapcodebuf := True, wrapcodebuf_len := code_length + 170\<rparr> else bf)
      in if code_length + 170 > wrapcodebuf_len bf1 then bf1\<lparr>wrapcodebuf_len := code_length + 170\<rparr> else bf1)"

definition make_returnbuf :: "nat \<Rightarrow> js_buffers \<Rightarrow> js_buffers" where
  "make_returnbuf sz bf =
     (let bf1 = bf\<lparr>run_js_returnbuf := True\<rparr>
      in if sz \<ge> run_js_returnbuf_len bf1 then bf1\<lparr>run_js_returnbuf_len := ((sz + 1) div 1024 + 1) * 1024\<rparr> else bf1)"

definition return_result :: "bytes \<Rightarrow> js_buffers \<Rightarrow> (run_js_return \<times> js_buffers) option" where
  "return_result t bf =
     (let bf1 = make_returnbuf (length t) bf
      in if length t + 1 \<le> run_js_returnbuf_len bf1 then Some (\<lparr>json = t, ret_len = length t\<rparr>, bf1) else None)"

definition run_js :: "(bytes \<Rightarrow> redisServer \<Rightarrow> (js_outcome \<times> redisServer) option) \<Rightarrow> bytes \<Rightarrow> bool \<Rightarrow>
    js_buffers \<times> redisServer \<Rightarrow> (run_js_return \<times> js_buffers \<times> redisServer) option" where
  "run_js engine prog async_call = (\<lambda>(bf, s).
     let bf1 = make_wrapcodebuf (length (c_str prog)) bf
     in do {
       src \<leftarrow> sprintf_buf (wrapcodebuf_len bf1) (wrap_code async_call (c_str prog));
       (out, s1) \<leftarrow> engine src s;
       (case out of
          Compile_error e \<Rightarrow> do {
            t \<leftarrow> sprintf_buf (length e + 100) (''-Compile error: '' @ quoted e);
            Some (\<lparr>json = t, ret_len = length e\<rparr>, bf1, s1)
          }
        | Exception e st \<Rightarrow> do {
            t \<leftarrow> sprintf_buf (length e + length st + 100)
              (if c_str e = ''null'' then ''-Script runs too long, Exception error: '' @ quoted e
               else if length st > 0 then ''-Exception error: '' @ quoted e @ '', stackTrace: '' @ quoted st
               else ''-Exception error: '' @ quoted e);
            Some (\<lparr>json = t, ret_len = length e\<rparr>, bf1, s1)
          }
        | Result t \<Rightarrow> do { (r, bf2) \<leftarrow> return_result t bf1; Some (r, bf2, s1) })
     })"

text \<open>
  \<open>call_js\<close> calls the JavaScript function \<open>jscall_wrapper_function\<close> with the arguments of the command, each up
  to its first NUL.
\<close>

fun js_args :: "redisServer \<Rightarrow> oid list \<Rightarrow> bytes list option" where
  "js_args s [] = Some []"
| "js_args s (i # is) = do { b \<leftarrow> sds_at s i; bs \<leftarrow> js_args s is; Some (c_str b # bs) }"

definition call_js :: "(bytes list \<Rightarrow> redisServer \<Rightarrow> (js_outcome \<times> redisServer) option) \<Rightarrow> cid \<Rightarrow>
    js_buffers \<times> redisServer \<Rightarrow> (run_js_return \<times> js_buffers \<times> redisServer) option" where
  "call_js engine c = (\<lambda>(bf, s).
     do {
       args \<leftarrow> js_args s (tl (c_argv (clients s c)));
       (out, s1) \<leftarrow> engine args s;
       (case out of
          Result t \<Rightarrow> do { (r, bf2) \<leftarrow> return_result t bf; Some (r, bf2, s1) }
        | Exception e st \<Rightarrow> do {
            t \<leftarrow> sprintf_buf (length e + 100)
              (if c_str e = ''null'' then ''-Script runs too long, Exception error: '' @ quoted e
               else ''-Exception error: '' @ quoted e);
            Some (\<lparr>json = t, ret_len = length e\<rparr>, bf, s1)
          }
        | Compile_error e \<Rightarrow> None)
     })"

subsection \<open>The commands\<close>

definition reply_js :: "cid \<Rightarrow> run_js_return \<Rightarrow> redisServer \<Rightarrow> redisServer option" where
  "reply_js c ret s =
     (if json ret \<noteq> [] \<and> hd (json ret) = CHR ''-'' then addReplyError c (json ret) s
      else let (i, s1) = createStringObject (json ret) s
           in do { s2 \<leftarrow> addReplyBulk c i s1; decrRefCount i s2 })"

definition v8_exec :: "(bytes \<Rightarrow> redisServer \<Rightarrow> (js_outcome \<times> redisServer) option) \<Rightarrow> cid \<Rightarrow> bytes \<Rightarrow>
    js_buffers \<times> redisServer \<Rightarrow> (js_buffers \<times> redisServer) option" where
  "v8_exec engine c prog st = do { (ret, bf, s1) \<leftarrow> run_js engine prog False st; s2 \<leftarrow> reply_js c ret s1; Some (bf, s2) }"

definition v8_exec_async :: "(bytes \<Rightarrow> redisServer \<Rightarrow> (js_outcome \<times> redisServer) option) \<Rightarrow> cid \<Rightarrow> bytes \<Rightarrow>
    js_buffers \<times> redisServer \<Rightarrow> (js_buffers \<times> redisServer) option" where
  "v8_exec_async engine c prog st = do { (ret, bf, s1) \<leftarrow> run_js engine prog True st; s2 \<leftarrow> reply_js c ret s1; Some (bf, s2) }"

definition v8_exec_call :: "(bytes list \<Rightarrow> redisServer \<Rightarrow> (js_outcome \<times> redisServer) option) \<Rightarrow> cid \<Rightarrow>
    js_buffers \<times> redisServer \<Rightarrow> (js_buffers \<times> redisServer) option" where
  "v8_exec_call engine c = (\<lambda>(bf, s).
     if length (c_argv (clients s c)) < 2
     then do { s1 \<leftarrow> addReplyError c ''-Wrong number of arguments, must be at least 2'' s; Some (bf, s1) }
     else do { (ret, bf1, s1) \<leftarrow> call_js engine c (bf, s); s2 \<leftarrow> reply_js c ret s1; Some (bf1, s2) })"

definition v8Command :: "(bytes \<Rightarrow> redisServer \<Rightarrow> (js_outcome \<times> redisServer) option) \<Rightarrow> cid \<Rightarrow>
    js_buffers \<times> redisServer \<Rightarrow> (js_buffers \<times> redisServer) option" where
  "v8Command engine c st = do { a \<leftarrow> arg c 1 (snd st); prog \<leftarrow> sds_at (snd st) a; v8_exec engine c prog st }"

definition v8CommandAsync :: "(bytes \<Rightarrow> redisServer \<Rightarrow> (js_outcome \<times> redisServer) option) \<Rightarrow> cid \<Rightarrow>
    js_buffers \<times> redisServer \<Rightarrow> (js_buffers \<times> redisServer) option" where
  "v8CommandAsync engine c st = do { a \<leftarrow> arg c 1 (snd st); prog \<leftarrow> sds_at (snd st) a; v8_exec_async engine c prog st }"

text \<open>The client of the scripts that \<open>v8setup\<close> makes, without a socket.\<close>

definition v8_client :: redisClient where
  "v8_client = (createClient (-1) False)\<lparr>c_flags := {REDIS_LUA_CLIENT}\<rparr>"

end
