(* ===== verification/Argv.thy ===== *)
theory Argv
  imports Updates V8Script
begin

text \<open>
  Argument vectors: making the objects of a request, handing them to a client and releasing them again. None of
  this shows in the replies or in the stores.
\<close>

definition bare :: "redisClient \<Rightarrow> redisClient" where
  "bare cl = cl\<lparr>c_argv := [], c_cmd := []\<rparr>"

lemma bareD:
  assumes "bare a = bare b"
  shows "c_fd a = c_fd b" "c_db a = c_db b" "c_flags a = c_flags b" "c_buf a = c_buf b" "c_reply a = c_reply b"
    "c_mstate a = c_mstate b" "c_watched_keys a = c_watched_keys b" "accepts a = accepts b"
    "c_pubsub_channels a = c_pubsub_channels b" "c_pubsub_patterns a = c_pubsub_patterns b"
  using assms by (cases a; cases b; simp add: bare_def accepts_def)+

definition quiet :: "cid \<Rightarrow> redisServer \<Rightarrow> redisServer \<Rightarrow> bool" where
  "quiet c s s' \<longleftrightarrow>
     good s' \<and> same_dbs s s' \<and> settings s' = settings s \<and> (\<forall>c'. c' \<noteq> c \<longrightarrow> clients s' c' = clients s c') \<and>
     bare (clients s' c) = bare (clients s c) \<and> (\<forall>c'<nclients s. out s' c' = out s c')"

lemma quietD:
  assumes "quiet c s s'"
  shows "good s'" "same_dbs s s'" "settings s' = settings s" "nclients s' = nclients s" "dbnum s' = dbnum s" "mstime s' = mstime s"
    "c' \<noteq> c \<Longrightarrow> clients s' c' = clients s c'" "c' < nclients s \<Longrightarrow> out s' c' = out s c'" "bare (clients s' c) = bare (clients s c)"
    "dbs s' = dbs s"
  using assms by (auto simp: quiet_def settings_def same_dbs_def)

lemmas quiet_client = bareD [OF quietD(9)]

lemma quiet_refl: "good s \<Longrightarrow> quiet c s s"
  by (simp add: quiet_def same_dbs_refl)

lemma quiet_trans:
  assumes 1: "quiet c s s1" and 2: "quiet c s1 s2"
  shows "quiet c s s2"
  using same_dbs_trans [OF quietD(2) [OF 1] quietD(5) [OF 1] quietD(2) [OF 2]] quietD [OF 1] quietD [OF 2] by (simp add: quiet_def)

lemma quiet_store: "quiet c s s' \<Longrightarrow> d < dbnum s \<Longrightarrow> store s' d = store s d"
  by (rule store_cong) (auto simp: quiet_def same_dbs_def)

lemma quiet_serving: "quiet c s s' \<Longrightarrow> serving c d s \<Longrightarrow> serving c d s'"
  using quietD [of c s s'] quiet_client(2,8) [of c s s'] by (simp add: serving_def ready_def goodD)

subsection \<open>Handing objects to a client\<close>

lemma inv_give_args:
  assumes s: "server_inv s" "c < nclients s" and xs: "distinct xs" "\<And>i. i \<in> set xs \<Longrightarrow> owned s i"
  shows "server_inv (update_client c (\<lambda>cl. cl\<lparr>c_argv := xs\<rparr>) s)"
proof -
  let ?s = "\<lambda>xs. update_client c (\<lambda>cl. cl\<lparr>c_argv := xs\<rparr>) s"
  have r: "refs (?s ys) i + count_list (c_argv (clients s c)) i = refs s i + count_list ys i" for ys i
    using refs_update_client [OF s(2), of "\<lambda>cl. cl\<lparr>c_argv := ys\<rparr>" i] by (simp add: client_refs_def)
  have "server_inv (?s xs)" using xs
  proof (induction xs)
    case Nil
    show ?case by (rule inv_update_client [OF s, where i = None]) (simp_all add: client_refs_def)
  next
    case (Cons x xs)
    then have inv: "server_inv (?s xs)" by simp
    obtain ob where ob: "objs s x = Some ob" "int (refs s x) < refcount ob" using Cons.prems owned_iff [OF s(1)] by auto
    have "count_list xs x = 0" using Cons.prems(1) by (simp add: count_list_0_iff)
    then have le: "refs (?s xs) x \<le> refs s x" using r [of xs x] by simp
    have "server_inv (update_client c (\<lambda>cl. cl\<lparr>c_argv := x # xs\<rparr>) (?s xs))"
      by (rule inv_update_client [OF inv, where i = "Some x"])
        (use s(2) ob le in \<open>auto simp: client_refs_def update_client_def\<close>)
    then show ?case by (simp add: update_client_def)
  qed
  then show ?thesis .
qed

lemma update_argv_fields:
  "objs (update_client c (\<lambda>cl. cl\<lparr>c_argv := xs\<rparr>) s) = objs s" "dbs (update_client c (\<lambda>cl. cl\<lparr>c_argv := xs\<rparr>) s) = dbs s"
  "settings (update_client c (\<lambda>cl. cl\<lparr>c_argv := xs\<rparr>) s) = settings s" "dbnum (update_client c (\<lambda>cl. cl\<lparr>c_argv := xs\<rparr>) s) = dbnum s"
  "clients (update_client c (\<lambda>cl. cl\<lparr>c_argv := xs\<rparr>) s) = (clients s)(c := (clients s c)\<lparr>c_argv := xs\<rparr>)"
  "nclients (update_client c (\<lambda>cl. cl\<lparr>c_argv := xs\<rparr>) s) = nclients s"
  by (simp_all add: update_client_def settings_def)

lemma update_client_quiet:
  assumes s: "good s" and inv: "server_inv (update_client c (\<lambda>cl. cl\<lparr>c_argv := xs\<rparr>) s)"
  shows "quiet c s (update_client c (\<lambda>cl. cl\<lparr>c_argv := xs\<rparr>) s)"
proof -
  let ?s = "update_client c (\<lambda>cl. cl\<lparr>c_argv := xs\<rparr>) s"
  have v: "vals ?s = vals s" "sds_at ?s = sds_at s" by (simp_all add: vals_def sds_at_def fun_eq_iff update_argv_fields)
  have "good ?s" using s inv by (simp add: good_def db_ok_def) (simp add: update_client_def)
  moreover have "same_dbs s ?s" by (rule same_dbsI [OF goodD(1) [OF s]]) (simp_all add: v update_argv_fields)
  moreover have "out ?s c' = out s c'" for c' by (rule out_update_obj) (simp_all add: v update_argv_fields)
  ultimately show ?thesis by (simp add: quiet_def update_argv_fields bare_def)
qed

lemma set_cmd_quiet:
  assumes "good s" "c < nclients s"
  shows "quiet c s (update_client c (\<lambda>cl. cl\<lparr>c_cmd := n\<rparr>) s)"
proof -
  let ?s = "update_client c (\<lambda>cl. cl\<lparr>c_cmd := n\<rparr>) s"
  have i: "server_inv ?s"
    by (rule inv_update_client [OF goodD(1) [OF assms(1)] assms(2), where i = None]) (simp_all add: client_refs_def)
  have f: "objs ?s = objs s" "dbs ?s = dbs s" "dbnum ?s = dbnum s" "settings ?s = settings s"
    "clients ?s = (clients s)(c := (clients s c)\<lparr>c_cmd := n\<rparr>)" by (simp_all add: update_client_def settings_def)
  have v: "vals ?s = vals s" by (simp add: vals_def fun_eq_iff f)
  have "good ?s" using assms(1) i by (simp add: good_def db_ok_def f) (simp add: update_client_def)
  moreover have "same_dbs s ?s" by (rule same_dbsI [OF goodD(1) [OF assms(1)]]) (simp_all add: v f)
  moreover have "out ?s c' = out s c'" for c' by (rule out_update_obj) (simp_all add: v f)
  ultimately show ?thesis by (simp add: quiet_def f bare_def)
qed

subsection \<open>Releasing them\<close>

lemma decr_clients: "decrRefCount i s = Some s' \<Longrightarrow> clients s' = clients s"
  by (auto simp: decrRefCount_def update_obj_def split: option.splits if_splits)

lemma decr_quiet:
  assumes "good s" "owned s i"
  obtains s' where "decrRefCount i s = Some s'" "quiet c s s'"
proof -
  obtain s' where 1: "decrRefCount i s = Some s'" "changes (at i (-1)) s s'" "same_dbs s s'"
      "\<And>j. 0 < refs s j \<Longrightarrow> vals s' j = vals s j" "\<And>j. j \<noteq> i \<Longrightarrow> objs s' j = objs s j"
    by (rule decr_changes [OF assms]) (rule that)
  have cl: "clients s' = clients s" by (rule decr_clients [OF 1(1)])
  have "out s' c' = out s c'" if "c' < nclients s" for c'
  proof (rule out_update_obj)
    fix j assume "j \<in> set (c_reply (clients s c'))"
    then show "vals s' j = vals s j"
      using 1(4) client_refs_le [OF that, of j] count_list_0_iff [of "c_reply (clients s c')" j] by (simp add: client_refs_def)
  qed (simp_all add: cl)
  then have "quiet c s s'" using 1(2,3) cl by (simp add: quiet_def changes_def frame_def)
  then show ?thesis using that 1(1) by blast
qed

lemma release_list:
  assumes "good (update_client c (\<lambda>cl. cl\<lparr>c_argv := xs\<rparr>) s)" "c < nclients s"
  shows "\<exists>s1. release_all xs s = Some s1 \<and>
    quiet c (update_client c (\<lambda>cl. cl\<lparr>c_argv := xs\<rparr>) s) (update_client c (\<lambda>cl. cl\<lparr>c_argv := []\<rparr>) s1)"
  using assms
proof (induction xs arbitrary: s)
  case Nil
  then show ?case by (simp add: quiet_refl)
next
  case (Cons x xs)
  let ?u = "\<lambda>xs. update_client c (\<lambda>cl. cl\<lparr>c_argv := xs\<rparr>)"
  let ?s = "?u (x # xs) s" and ?sB = "?u xs s"
  have n: "c < nclients ?s" "0 < length (c_argv (clients ?s c))" "c_argv (clients ?s c) ! 0 = x"
    using Cons.prems(2) by (simp_all add: update_argv_fields)
  have e: "unarg c 0 ?s = ?sB" "?u xs ?s = ?sB" by (simp_all add: unarg_def update_client_def)
  note B = unarg_good [OF Cons.prems(1) n(1,2), unfolded e n(3)]
  have q1: "quiet c ?s ?sB" using update_client_quiet [OF Cons.prems(1), of c xs] goodD(1) [OF B(1)] unfolding e(2) by simp
  obtain sB' where 1: "decrRefCount x ?sB = Some sB'" "quiet c ?sB sB'" by (rule decr_quiet [OF B])
  obtain s' where s': "decrRefCount x s = Some s'" "sB' = ?u xs s'" using 1(1) by (auto simp: update_client_commute(2))
  have "nclients s' = nclients s" using quietD(4) [OF 1(2)] by (simp add: s'(2) update_argv_fields)
  then obtain s1 where "release_all xs s' = Some s1" "quiet c (?u xs s') (?u [] s1)"
    using Cons.IH [of s'] Cons.prems(2) quietD(1) [OF 1(2)] s'(2) by auto
  then show ?case using s' quiet_trans [OF q1 quiet_trans [OF 1(2)]] by auto
qed

lemma release_args:
  assumes "good s" "c < nclients s"
  obtains s1 where "release_all (c_argv (clients s c)) s = Some s1" "quiet c s (update_client c (\<lambda>cl. cl\<lparr>c_argv := []\<rparr>) s1)"
proof -
  have "update_client c (\<lambda>cl. cl\<lparr>c_argv := c_argv (clients s c)\<rparr>) s = s" by (simp add: update_client_def)
  then show ?thesis using release_list [of c "c_argv (clients s c)" s] assms that by auto
qed

subsection \<open>Making them\<close>

lemma new_string_step:
  assumes s: "good s" and e: "e = REDIS_ENCODING_RAW \<or> e = REDIS_ENCODING_EMBSTR"
    and eq: "i = Dyn (fresh s)"
      "s' = (update_obj i (Some \<lparr>ob_type = REDIS_STRING, ob_enc = e, refcount = 1, ob_ptr = Sds b\<rparr>) s)\<lparr>fresh := fresh s + 1\<rparr>"
  shows "step s s'" "same_dbs s s'" "owned s' i" "sds_at s' i = Some b" "clients s' = clients s" "objs s i = None"
    "\<And>j. objs s' j = None \<Longrightarrow> objs s j = None" "objs s' i \<noteq> None"
proof -
  let ?ob = "\<lparr>ob_type = REDIS_STRING, ob_enc = e, refcount = 1, ob_ptr = Sds b\<rparr>"
  have ok: "obj_ok ?ob" "refcount ?ob = 1" using e by (auto simp: obj_ok_def sdsEncodedObject_def)
  note n = new_changes [OF s ok eq(2) [unfolded eq(1)]]
  show "step s s'" "same_dbs s s'" "owned s' i" "sds_at s' i = Some b" "objs s' i \<noteq> None"
    using n eq(1) by (simp_all add: sds_at_def obj_sds_def)
  show "clients s' = clients s" "objs s i = None" "\<And>j. objs s' j = None \<Longrightarrow> objs s j = None"
    using server_invD(1) [OF goodD(1) [OF s]] eq by (auto simp: update_obj_def split: if_splits)
qed

lemma createStringObject_new:
  assumes "createStringObject b s = (i, s')"
  obtains e where "e = REDIS_ENCODING_RAW \<or> e = REDIS_ENCODING_EMBSTR" "i = Dyn (fresh s)"
    "s' = (update_obj i (Some \<lparr>ob_type = REDIS_STRING, ob_enc = e, refcount = 1, ob_ptr = Sds b\<rparr>) s)\<lparr>fresh := fresh s + 1\<rparr>"
  using assms that
  by (auto simp: createStringObject_def createEmbeddedStringObject_def createRawStringObject_def createObject_def Let_def split: if_splits)

lemma createObject_new:
  assumes "createObject REDIS_STRING (Sds b) s = (i, s')"
  obtains e where "e = REDIS_ENCODING_RAW \<or> e = REDIS_ENCODING_EMBSTR" "i = Dyn (fresh s)"
    "s' = (update_obj i (Some \<lparr>ob_type = REDIS_STRING, ob_enc = e, refcount = 1, ob_ptr = Sds b\<rparr>) s)\<lparr>fresh := fresh s + 1\<rparr>"
  using assms that by (auto simp: createObject_def Let_def)

lemma createStringObject_step:
  assumes s: "good s" and i: "createStringObject b s = (i, s')"
  shows "step s s'" "same_dbs s s'" "owned s' i" "sds_at s' i = Some b" "clients s' = clients s" "objs s i = None"
    "\<And>j. objs s' j = None \<Longrightarrow> objs s j = None" "objs s' i \<noteq> None"
proof -
  obtain e where e: "e = REDIS_ENCODING_RAW \<or> e = REDIS_ENCODING_EMBSTR" "i = Dyn (fresh s)"
    "s' = (update_obj i (Some \<lparr>ob_type = REDIS_STRING, ob_enc = e, refcount = 1, ob_ptr = Sds b\<rparr>) s)\<lparr>fresh := fresh s + 1\<rparr>"
    by (rule createStringObject_new [OF i])
  show "step s s'" "same_dbs s s'" "owned s' i" "sds_at s' i = Some b" "clients s' = clients s" "objs s i = None"
    "\<And>j. objs s' j = None \<Longrightarrow> objs s j = None" "objs s' i \<noteq> None"
    by (fact new_string_step [OF s e])+
qed

lemma create_args_steps:
  assumes "good s" "create_args bs s = (argv, s1)"
  shows "step s s1 \<and> same_dbs s s1 \<and> clients s1 = clients s \<and> distinct argv \<and>
    (\<forall>i\<in>set argv. owned s1 i \<and> objs s i = None) \<and> map (sds_at s1) argv = map Some bs"
  using assms
proof (induction bs arbitrary: s argv)
  case Nil
  then show ?case by (simp add: step_refl same_dbs_refl)
next
  case (Cons b bs)
  obtain i s' where i: "createStringObject b s = (i, s')" by (cases "createStringObject b s")
  obtain rest where rest: "create_args bs s' = (rest, s1)" "argv = i # rest" using Cons.prems(2) i by (auto split: prod.splits)
  note c = createStringObject_step [OF Cons.prems(1) i]
  have IH: "step s' s1" "same_dbs s' s1" "clients s1 = clients s'" "distinct rest" "\<forall>i\<in>set rest. owned s1 i \<and> objs s' i = None"
      "map (sds_at s1) rest = map Some bs"
    using Cons.IH [OF stepD(1) [OF c(1)] rest(1)] by auto
  have "sds_at s1 i = Some b" using step_oview [OF IH(1) owned_ext [OF c(3)]] c(4) oviewD(2) by metis
  moreover have "i \<notin> set rest" using IH(5) c(8) by auto
  ultimately show ?case
    using IH c rest(2) step_trans [OF c(1) IH(1)] same_dbs_trans [OF c(2) _ IH(2)] step_owned [OF IH(1) c(3)]
      frameD(2) [OF stepD(2) [OF c(1)]] by auto
qed

text \<open>A client that is about to run a command with the arguments \<open>bs\<close>.\<close>

definition requesting :: "cid \<Rightarrow> bytes list \<Rightarrow> redisServer \<Rightarrow> redisServer" where
  "requesting c bs s = (let (argv, s1) = create_args bs s in update_client c (\<lambda>cl. cl\<lparr>c_argv := argv\<rparr>) s1)"

lemma requesting_quiet:
  assumes s: "good s" "c < nclients s"
  shows "quiet c s (requesting c bs s)" "args c (requesting c bs s) bs"
proof -
  obtain argv s1 where a: "create_args bs s = (argv, s1)" by (cases "create_args bs s")
  note c = create_args_steps [OF s(1) a]
  have st: "step s s1" and cl: "clients s1 = clients s" using c by auto
  have f: "nclients s1 = nclients s" "settings s1 = settings s" using frameD(1) [OF stepD(2) [OF st]] stepD(2) [OF st] by (auto simp: frame_def)
  have q1: "quiet c s s1" using c cl f step_out [OF st s(1)] stepD(1) [OF st] by (simp add: quiet_def)
  have "server_inv (update_client c (\<lambda>cl. cl\<lparr>c_argv := argv\<rparr>) s1)"
    by (rule inv_give_args [OF goodD(1) [OF stepD(1) [OF st]]]) (use c s(2) f in auto)
  then show "quiet c s (requesting c bs s)"
    using quiet_trans [OF q1 update_client_quiet [OF stepD(1) [OF st]]] a by (simp add: requesting_def)
  have "sds_at (update_client c (\<lambda>cl. cl\<lparr>c_argv := argv\<rparr>) s1) = sds_at s1" by (simp add: sds_at_def fun_eq_iff update_argv_fields)
  then show "args c (requesting c bs s) bs" using c a by (simp add: requesting_def args_def update_argv_fields)
qed

end
