(* ===== verification/StringCommands.thy ===== *)
theory StringCommands
  imports Argv
begin

text \<open>
  The commands on strings, as the table of commands has them, refine functions on stores: whatever the server
  holds, the reply and the new store are those of \<open>kv_run\<close>.
\<close>

definition kv_run :: "int \<Rightarrow> bytes \<Rightarrow> bytes list \<Rightarrow> kvstore \<Rightarrow> (reply \<times> kvstore) option" where
  "kv_run now name as m =
     (if name = ''get'' then (case as of [k] \<Rightarrow> Some (kv_get k m, m) | _ \<Rightarrow> None)
      else if name = ''strlen'' then (case as of [k] \<Rightarrow> Some (kv_strlen k m, m) | _ \<Rightarrow> None)
      else if name = ''exists'' then (case as of [k] \<Rightarrow> Some (kv_exists k m, m) | _ \<Rightarrow> None)
      else if name = ''set'' then (case as of k # v # opts \<Rightarrow> kv_set_command now opts k v m | _ \<Rightarrow> None)
      else if name = ''setnx'' then (case as of [k, v] \<Rightarrow> kv_set now True False None (RInt 1) (RInt 0) k v m | _ \<Rightarrow> None)
      else if name = ''setex'' then
        (case as of [k, e, v] \<Rightarrow> kv_set now False False (Some (UNIT_SECONDS, e)) (RStatus ''OK'') RNil k v m | _ \<Rightarrow> None)
      else if name = ''psetex'' then
        (case as of [k, e, v] \<Rightarrow> kv_set now False False (Some (UNIT_MILLISECONDS, e)) (RStatus ''OK'') RNil k v m | _ \<Rightarrow> None)
      else if name = ''append'' then (case as of [k, v] \<Rightarrow> Some (kv_append k v m) | _ \<Rightarrow> None)
      else if name = ''incr'' then (case as of [k] \<Rightarrow> Some (kv_incr 1 k m) | _ \<Rightarrow> None)
      else if name = ''decr'' then (case as of [k] \<Rightarrow> Some (kv_incr (-1) k m) | _ \<Rightarrow> None)
      else if name = ''incrby'' then (case as of [k, b] \<Rightarrow> kv_incrby False k b m | _ \<Rightarrow> None)
      else if name = ''decrby'' then (case as of [k, b] \<Rightarrow> kv_incrby True k b m | _ \<Rightarrow> None)
      else None)"

text \<open>The names of the table are distinct, so that a name determines its row.\<close>

definition proc_of :: "bytes \<Rightarrow> (cid \<Rightarrow> redisServer \<Rightarrow> redisServer option) option" where
  "proc_of name = map_option cmd_proc (find (\<lambda>r. cmd_name r = name) redisCommandTable)"

lemma find_row:
  assumes "r \<in> set redisCommandTable"
  shows "find (\<lambda>x. cmd_name x = cmd_name r) redisCommandTable = Some r"
proof -
  have d: "distinct (map cmd_name redisCommandTable)" by (simp add: redisCommandTable_def row_def)
  have "find (\<lambda>x. cmd_name x = cmd_name r) rs = Some r" if "distinct (map cmd_name rs)" "r \<in> set rs" for rs
    using that by (induction rs) (auto simp: image_iff)
  then show ?thesis using d assms by simp
qed

lemma proc_of_row: "r \<in> set redisCommandTable \<Longrightarrow> proc_of (cmd_name r) = Some (cmd_proc r)"
  using find_row [of r] by (simp add: proc_of_def)

lemma proc_of_names:
  "proc_of ''get'' = Some getCommand" "proc_of ''strlen'' = Some strlenCommand" "proc_of ''exists'' = Some existsCommand"
  "proc_of ''set'' = Some setCommand" "proc_of ''setnx'' = Some setnxCommand" "proc_of ''setex'' = Some setexCommand"
  "proc_of ''psetex'' = Some psetexCommand" "proc_of ''append'' = Some appendCommand" "proc_of ''incr'' = Some incrCommand"
  "proc_of ''decr'' = Some decrCommand" "proc_of ''incrby'' = Some incrbyCommand" "proc_of ''decrby'' = Some decrbyCommand"
  by (simp_all add: proc_of_def redisCommandTable_def row_def)

lemma case_args:
  "(case as of [k] \<Rightarrow> f k | _ \<Rightarrow> None) = Some x \<longleftrightarrow> (\<exists>k. as = [k] \<and> f k = Some x)"
  "(case as of [k, v] \<Rightarrow> g k v | _ \<Rightarrow> None) = Some x \<longleftrightarrow> (\<exists>k v. as = [k, v] \<and> g k v = Some x)"
  "(case as of [k, e, v] \<Rightarrow> h k e v | _ \<Rightarrow> None) = Some x \<longleftrightarrow> (\<exists>k e v. as = [k, e, v] \<and> h k e v = Some x)"
  "(case as of k # v # opts \<Rightarrow> j k v opts | _ \<Rightarrow> None) = Some x \<longleftrightarrow> (\<exists>k v opts. as = k # v # opts \<and> j k v opts = Some x)"
  by (simp_all split: list.split)

text \<open>The names and argument lists on which \<open>kv_run\<close> is defined.\<close>

lemma kv_run_cases:
  assumes "kv_run now name as m = Some (t, m')"
  obtains (get) k where "name = ''get''" "as = [k]" "t = kv_get k m" "m' = m"
  | (strlen) k where "name = ''strlen''" "as = [k]" "t = kv_strlen k m" "m' = m"
  | (exists) k where "name = ''exists''" "as = [k]" "t = kv_exists k m" "m' = m"
  | (set) k v opts where "name = ''set''" "as = k # v # opts" "kv_set_command now opts k v m = Some (t, m')"
  | (setnx) k v where "name = ''setnx''" "as = [k, v]" "kv_set now True False None (RInt 1) (RInt 0) k v m = Some (t, m')"
  | (setex) k e v where "name = ''setex''" "as = [k, e, v]"
      "kv_set now False False (Some (UNIT_SECONDS, e)) (RStatus ''OK'') RNil k v m = Some (t, m')"
  | (psetex) k e v where "name = ''psetex''" "as = [k, e, v]"
      "kv_set now False False (Some (UNIT_MILLISECONDS, e)) (RStatus ''OK'') RNil k v m = Some (t, m')"
  | (append) k v where "name = ''append''" "as = [k, v]" "kv_append k v m = (t, m')"
  | (incr) k where "name = ''incr''" "as = [k]" "kv_incr 1 k m = (t, m')"
  | (decr) k where "name = ''decr''" "as = [k]" "kv_incr (-1) k m = (t, m')"
  | (incrby) k b where "name = ''incrby''" "as = [k, b]" "kv_incrby False k b m = Some (t, m')"
  | (decrby) k b where "name = ''decrby''" "as = [k, b]" "kv_incrby True k b m = Some (t, m')"
proof -
  have "name \<in> set [''get'', ''strlen'', ''exists'', ''set'', ''setnx'', ''setex'', ''psetex'', ''append'', ''incr'', ''decr'', ''incrby'', ''decrby'']"
    using assms unfolding kv_run_def by (simp split: if_splits)
  then show ?thesis
    unfolding list.set insert_iff empty_iff
  proof (elim disjE FalseE)
    assume "name = ''get''"
    then show ?thesis using assms get by (force simp: kv_run_def case_args)
  next
    assume "name = ''strlen''"
    then show ?thesis using assms strlen by (force simp: kv_run_def case_args)
  next
    assume "name = ''exists''"
    then show ?thesis using assms exists by (force simp: kv_run_def case_args)
  next
    assume "name = ''set''"
    then show ?thesis using assms set by (force simp: kv_run_def case_args)
  next
    assume "name = ''setnx''"
    then show ?thesis using assms setnx by (force simp: kv_run_def case_args)
  next
    assume "name = ''setex''"
    then show ?thesis using assms setex by (force simp: kv_run_def case_args)
  next
    assume "name = ''psetex''"
    then show ?thesis using assms psetex by (force simp: kv_run_def case_args)
  next
    assume "name = ''append''"
    then show ?thesis using assms append by (force simp: kv_run_def case_args)
  next
    assume "name = ''incr''"
    then show ?thesis using assms incr by (force simp: kv_run_def case_args)
  next
    assume "name = ''decr''"
    then show ?thesis using assms decr by (force simp: kv_run_def case_args)
  next
    assume "name = ''incrby''"
    then show ?thesis using assms incrby by (force simp: kv_run_def case_args)
  next
    assume "name = ''decrby''"
    then show ?thesis using assms decrby by (force simp: kv_run_def case_args)
  qed
qed

lemma string_command_answered:
  assumes s: "serving c d s" "args c s (nm # as)" and r: "r \<in> set redisCommandTable"
    and t: "kv_run (mstime s) (cmd_name r) as (store s d) = Some (t, m)" "sendable t"
  shows "\<exists>s'. cmd_proc r c s = Some s' \<and> answered c (print_reply t) d m s s'"
proof -
  have p: "proc_of (cmd_name r) = Some (cmd_proc r)" by (rule proc_of_row [OF r])
  have key: "arg c 1 s = Some (c_argv (clients s c) ! 1)" "named s (c_argv (clients s c) ! 1) k" if "args c s (nm # k # bs)" for k bs
    using argsD [OF s(1) that, of 1] by simp_all
  note then_ = answers_then [OF _ s(1)]
  have one: "in_ll 1" "in_ll (-1)" by (simp_all add: in_ll_def)
  from t(1) show ?thesis
  proof (cases rule: kv_run_cases)
    case (get k)
    then show ?thesis using then_ [OF getCommand_answers [OF s(1) key]] s(2) t(2) p by (simp add: proc_of_names)
  next
    case (strlen k)
    then show ?thesis using then_ [OF strlenCommand_answers [OF s(1) key]] s(2) t(2) p by (simp add: proc_of_names)
  next
    case (exists k)
    then show ?thesis using then_ [OF existsCommand_answers [OF s(1) key]] s(2) p by (simp add: proc_of_names)
  next
    case (set k v opts)
    then show ?thesis using setCommand_answered [OF s(1)] s(2) p by (simp add: proc_of_names)
  next
    case (setnx k v)
    then show ?thesis using setnxCommand_answered [OF s(1)] s(2) p by (simp add: proc_of_names)
  next
    case (setex k e v)
    then show ?thesis using setexCommand_answered [OF s(1)] s(2) p by (simp add: proc_of_names)
  next
    case (psetex k e v)
    then show ?thesis using psetexCommand_answered [OF s(1)] s(2) p by (simp add: proc_of_names)
  next
    case (append k v)
    then show ?thesis using appendCommand_answered [OF s(1)] s(2) t(2) p by (simp add: proc_of_names)
  next
    case (incr k)
    then show ?thesis
      using then_ [OF incrDecrCommand_answers [OF s(1) key one(1)]] s(2) p by (simp add: proc_of_names incrCommand_def)
  next
    case (decr k)
    then show ?thesis
      using then_ [OF incrDecrCommand_answers [OF s(1) key one(2)]] s(2) p by (simp add: proc_of_names decrCommand_def)
  next
    case (incrby k b)
    then show ?thesis using then_ [OF incrby_answers [OF s(1), where decr = False]] s(2) p by (simp add: proc_of_names)
  next
    case (decrby k b)
    then show ?thesis using then_ [OF incrby_answers [OF s(1), where decr = True]] s(2) p by (simp add: proc_of_names)
  qed
qed

lemma find_command_in: "find_command rs name = Some r \<Longrightarrow> r \<in> set rs"
  by (auto simp: find_command_def find_Some_iff)

lemma answeredD:
  assumes "answered c t d f s s'" "serving c d s"
  shows "good s'" "out s' c = out s c @ t" "\<And>c'. c' < nclients s \<Longrightarrow> c' \<noteq> c \<Longrightarrow> out s' c' = out s c'" "store s' d = f"
    "\<And>d'. d' < dbnum s \<Longrightarrow> d' \<noteq> d \<Longrightarrow> store s' d' = store s d'" "settings s' = settings s" "serving c d s'"
    "fits c t s \<Longrightarrow> c_buf (clients s' c) = c_buf (clients s c) @ t" "fits c t s \<Longrightarrow> c_reply (clients s' c) = []"
proof -
  note S = servingD [OF assms(2)]
  show g: "good s'" "settings s' = settings s" "fits c t s \<Longrightarrow> c_buf (clients s' c) = c_buf (clients s c) @ t"
    "fits c t s \<Longrightarrow> c_reply (clients s' c) = []" using assms(1) by (simp_all add: answered_def)
  show "out s' c = out s c @ t" "\<And>c'. c' < nclients s \<Longrightarrow> c' \<noteq> c \<Longrightarrow> out s' c' = out s c'"
    using assms(1) S(6) by (simp_all add: answered_def)
  show "store s' d = f" "\<And>d'. d' < dbnum s \<Longrightarrow> d' \<noteq> d \<Longrightarrow> store s' d' = store s d'"
    using assms(1) S(4) by (simp_all add: answered_def stores_def)
  have u: "unflag (clients s' c) = (unflag (clients s c))
      \<lparr>c_argv := c_argv (clients s' c), c_buf := c_buf (clients s' c), c_reply := c_reply (clients s' c)\<rparr>"
    using assms(1) by (simp add: answered_def)
  have "accepts (clients s' c)" "c_db (clients s' c) = d"
    using u S(2,3) by (cases "clients s c"; cases "clients s' c"; auto simp: unflag_def ready_def accepts_def)+
  then show "serving c d s'" using g(1,2) S(4,6) by (simp add: serving_def ready_def goodD settings_def)
qed

text \<open>
  C2. Whatever the server holds, \<open>GET\<close>, \<open>STRLEN\<close>, \<open>EXISTS\<close>, \<open>SET\<close> with all its options, \<open>SETNX\<close>, \<open>SETEX\<close>,
  \<open>PSETEX\<close>, \<open>APPEND\<close>, \<open>INCR\<close>, \<open>DECR\<close>, \<open>INCRBY\<close> and \<open>DECRBY\<close> return, reply what the functions on stores say,
  errors included, and change the store of their database as these say, whatever the encoding of the objects is
  and whoever shares them. The other databases and what the other clients will receive stay the same.
\<close>

theorem string_commands_refine:
  assumes "serving c d s" "args c s (name # as)" "find_command redisCommandTable name = Some r"
    and "kv_run (mstime s) (cmd_name r) as (store s d) = Some (t, m)" "sendable t"
  shows "\<exists>s'. cmd_proc r c s = Some s' \<and> serving c d s' \<and> store s' d = m \<and> (\<forall>d'<dbnum s. d' \<noteq> d \<longrightarrow> store s' d' = store s d') \<and>
    out s' c = out s c @ print_reply t \<and> (\<forall>c'<nclients s. c' \<noteq> c \<longrightarrow> out s' c' = out s c')"
proof -
  obtain s' where 1: "cmd_proc r c s = Some s'" "answered c (print_reply t) d m s s'"
    using string_command_answered [OF assms(1,2) find_command_in [OF assms(3)] assms(4,5)] by blast
  show ?thesis using 1(1) answeredD [OF 1(2) assms(1)] by auto
qed

lemma demo_serving: "serving 0 0 demo" "good demo"
proof -
  show "good demo" using demo_ready(1) by (simp add: good_def db_ok_def ready_def) (simp add: demo_def initServer_def)
  then show "serving 0 0 demo" using demo_ready(1) by (simp add: serving_def) (simp add: demo_def initServer_def createClient_def)
qed

lemma demo_requesting:
  "serving 0 0 (requesting 0 bs demo)" "args 0 (requesting 0 bs demo) bs" "store (requesting 0 bs demo) 0 = (\<lambda>k. None)"
  "mstime (requesting 0 bs demo) = 0" "out (requesting 0 bs demo) 0 = []"
proof -
  have c: "0 < nclients demo" by (rule servingD(6) [OF demo_serving(1)])
  note q = requesting_quiet [OF demo_serving(2) c, of bs]
  show "serving 0 0 (requesting 0 bs demo)" by (rule quiet_serving [OF q(1) demo_serving(1)])
  show "args 0 (requesting 0 bs demo) bs" by (rule q(2))
  have "store demo 0 = (\<lambda>k. None)" by (simp add: store_def keyspace_def demo_def initServer_def fun_eq_iff)
  then show "store (requesting 0 bs demo) 0 = (\<lambda>k. None)" using quiet_store [OF q(1) servingD(4) [OF demo_serving(1)]] by simp
  have "mstime demo = 0" "out demo 0 = []" by (simp_all add: demo_def initServer_def out_def createClient_def)
  then show "mstime (requesting 0 bs demo) = 0" "out (requesting 0 bs demo) 0 = []"
    using quietD(6) [OF q(1)] quietD(8) [OF q(1) c] by simp_all
qed

theorem string_commands_refine_witness:
  "\<exists>s'. setCommand 0 (requesting 0 [''SET'', ''k'', ''12'', ''PX'', ''500''] demo) = Some s' \<and>
    store s' 0 ''k'' = Some (Str ''12'', Some 500) \<and> out s' 0 = ''+OK'' @ CRLF"
proof -
  let ?s = "requesting 0 [''SET'', ''k'', ''12'', ''PX'', ''500''] demo"
  have f: "find_command redisCommandTable ''SET'' = Some (row ''set'' setCommand (-3) ''wm'')"
    by (simp add: find_command_def redisCommandTable_def row_def) code_simp
  have o: "kv_options [''PX'', ''500''] (False, False, None) = Some (False, False, Some (UNIT_MILLISECONDS, ''500''))" by code_simp
  have e: "int_of ''500'' = Some 500" by code_simp
  have r: "kv_run (mstime ?s) (cmd_name (row ''set'' setCommand (-3) ''wm'')) [''k'', ''12'', ''PX'', ''500''] (store ?s 0) =
      Some (RStatus ''OK'', (\<lambda>k. None)(''k'' \<mapsto> (Str ''12'', Some 500)))"
    unfolding demo_requesting(3,4) by (simp add: kv_run_def kv_set_command_def o e kv_set_def kv_expire_def checked_def in_ll_def row_def del: kv_options.simps)
  show ?thesis
    using string_commands_refine [OF demo_requesting(1,2) f r] demo_requesting(5) [of "[''SET'', ''k'', ''12'', ''PX'', ''500'']"]
    by (auto simp: row_def print_reply.simps)
qed

end
