(* ===== verification/Scripts.thy ===== *)
theory Scripts
  imports StringCommands
begin

text \<open>
  What a JavaScript program sees when it calls \<open>redis.__run\<close>: the objects of the arguments, the command, its
  reply in the buffer of the client without a socket, and the parser together are one function from stores to
  JavaScript values.
\<close>

subsection \<open>Sequences of calls\<close>

fun call_seq :: "('a \<Rightarrow> 's \<Rightarrow> ('b \<times> 's) option) \<Rightarrow> 'a list \<Rightarrow> 's \<Rightarrow> ('b list \<times> 's) option" where
  "call_seq f [] st = Some ([], st)"
| "call_seq f (x # xs) st = do { (y, st1) \<leftarrow> f x st; (ys, st2) \<leftarrow> call_seq f xs st1; Some (y # ys, st2) }"

text \<open>
  An interface through which a program works on a store: a call returns the value of the reply that the
  specification gives, and leaves the state of which the store is the view.
\<close>

locale store_api =
  fixes call_api :: "bytes list \<Rightarrow> 'st \<Rightarrow> (jsval \<times> 'st) option"
    and view :: "'st \<Rightarrow> kvstore"
    and invar :: "'st \<Rightarrow> bool"
    and spec :: "bytes list \<Rightarrow> kvstore \<Rightarrow> (reply \<times> kvstore) option"
  assumes call_ok: "invar st \<Longrightarrow> spec bs (view st) = Some (t, m) \<Longrightarrow>
    \<exists>st'. call_api bs st = Some (js_value t, st') \<and> invar st' \<and> view st' = m"
begin

lemma calls_ok:
  "invar st \<Longrightarrow> call_seq spec bss (view st) = Some (ts, m) \<Longrightarrow>
    \<exists>st'. call_seq call_api bss st = Some (map js_value ts, st') \<and> invar st' \<and> view st' = m"
proof (induction bss arbitrary: st ts)
  case (Cons bs bss)
  obtain t m1 where 1: "spec bs (view st) = Some (t, m1)" using Cons.prems(2) by (cases "spec bs (view st)") auto
  obtain ts' where 2: "call_seq spec bss m1 = Some (ts', m)" "ts = t # ts'"
    using Cons.prems(2) 1 by (cases "call_seq spec bss m1") auto
  obtain st1 where 3: "call_api bs st = Some (js_value t, st1)" "invar st1" "view st1 = m1"
    using call_ok [OF Cons.prems(1) 1] by blast
  show ?case using Cons.IH [OF 3(2)] 2 3 by auto
qed simp

end

subsection \<open>The reply in the buffer\<close>

lemma kv_run_reply:
  assumes "kv_run now name as m = Some (t, m')"
  shows "(\<forall>x. t = RStatus x \<longrightarrow> x = ''OK'') \<and> (\<forall>rs. t \<noteq> RMulti rs)"
  using assms
  by (cases rule: kv_run_cases)
    (auto simp: kv_get_def kv_strlen_def kv_exists_def kv_set_command_def kv_set_def kv_expire_def kv_append_def kv_incr_def kv_incrby_def
      wrongtype_def not_integer_def err_def Let_def split: option.splits val.splits if_splits prod.splits sum.splits Option.bind_splits)

lemma readable_short:
  assumes "readable t" "\<And>x. t = RStatus x \<Longrightarrow> x = ''OK''" "\<And>rs. t \<noteq> RMulti rs"
  shows "length (print_reply t) + 32 \<le> REDIS_REPLY_CHUNK_BYTES"
proof (cases t)
  case (RInt n)
  then have "in_ll n" using assms(1) by (auto simp: readable_def in_ll_def)
  then show ?thesis using RInt dec_int_length [of n] by (simp add: print_reply.simps REDIS_REPLY_CHUNK_BYTES_def CRLF_def)
next
  case (RBulk b)
  then have "length b < 4096" using assms(1) by (auto simp: readable_def)
  then have "length (dec (length b)) \<le> 4" "length b < 4096" by (auto intro!: dec_length_le)
  then show ?thesis using RBulk by (simp add: print_reply.simps REDIS_REPLY_CHUNK_BYTES_def CRLF_def)
qed (use assms in \<open>auto simp: readable_def print_reply.simps REDIS_REPLY_CHUNK_BYTES_def CRLF_def\<close>)

text \<open>The client of the scripts between two calls.\<close>

definition script_ready :: "cid \<Rightarrow> dbid \<Rightarrow> redisServer \<Rightarrow> bool" where
  "script_ready c d s \<longleftrightarrow> serving c d s \<and> c_buf (clients s c) = [] \<and> c_reply (clients s c) = []"

lemma collect_reply_ok:
  assumes s: "serving c d s" and r: "c_reply (clients s c) = []"
  obtains s' where "collect_reply c s = Some (c_buf (clients s c), s')" "good s'" "script_ready c d s'" "settings s' = settings s"
    "\<And>d'. d' < dbnum s \<Longrightarrow> store s' d' = store s d'" "\<And>c'. c' < nclients s \<Longrightarrow> c' \<noteq> c \<Longrightarrow> out s' c' = out s c'"
proof -
  note S = servingD [OF s]
  define s' where "s' = update_client c (\<lambda>cl. cl\<lparr>c_buf := [], c_reply := []\<rparr>) s"
  have f: "objs s' = objs s" "dbs s' = dbs s" "settings s' = settings s" "dbnum s' = dbnum s" "mstime s' = mstime s" "nclients s' = nclients s"
    "loading s' = loading s" "masterhost s' = masterhost s" "notify_keyspace_events s' = notify_keyspace_events s"
    "clients s' = (clients s)(c := (clients s c)\<lparr>c_buf := [], c_reply := []\<rparr>)"
    by (simp_all add: s'_def update_client_def settings_def)
  have v: "vals s' = vals s" by (simp add: vals_def fun_eq_iff f)
  have "server_inv s'" unfolding s'_def
    by (rule inv_update_client [OF S(5,6), where i = None]) (simp_all add: client_refs_def r)
  then have g: "good s'" using S(1) by (simp add: good_def db_ok_def f)
  moreover have "script_ready c d s'"
    using g S f by (simp add: script_ready_def serving_def ready_def goodD accepts_def)
  moreover have "keyspace s' = keyspace s" by (intro ext) (simp add: keyspace_def f v)
  then have "store s' d' = store s d'" for d'
    by (intro store_cong) (simp_all add: f)
  moreover have "out s' c' = out s c'" if "c' \<noteq> c" for c' by (rule out_update_obj) (use that in \<open>simp_all add: v f\<close>)
  moreover have "collect_reply c s = Some (c_buf (clients s c), s')" by (simp add: collect_reply_def r s'_def)
  ultimately show ?thesis using that f(3) by blast
qed

subsection \<open>redis.__run\<close>

definition script_spec :: "int \<Rightarrow> bytes list \<Rightarrow> kvstore \<Rightarrow> (reply \<times> kvstore) option" where
  "script_spec now bs m =
     (case bs of
        [] \<Rightarrow> None
      | name # as \<Rightarrow> do {
          r \<leftarrow> find_command redisCommandTable (c_str name);
          (t, m') \<leftarrow> kv_run now (cmd_name r) as m;
          (if sendable t \<and> readable t then Some (t, m') else None)
        })"

definition script_inv :: "cid \<Rightarrow> dbid \<Rightarrow> redisServer \<Rightarrow> v8_state \<Rightarrow> bool" where
  "script_inv c d s0 = (\<lambda>(ps, s).
     script_ready c d s \<and> settings s = settings s0 \<and> (\<forall>d'<dbnum s0. d' \<noteq> d \<longrightarrow> store s d' = store s0 d') \<and>
     (\<forall>c'<nclients s0. c' \<noteq> c \<longrightarrow> out s c' = out s0 c'))"

lemma run_command:
  assumes s: "script_ready c d s" and f: "find_command redisCommandTable (c_str name) = Some r"
    and t: "kv_run (mstime s) (cmd_name r) as (store s d) = Some (t, m)" "sendable t" "readable t"
  obtains ps' s' where "run redisCommandTable c (name # as) (ps, s) = Some (js_value t, ps', s')" "script_ready c d s'" "store s' d = m"
    "settings s' = settings s" "\<And>d'. d' < dbnum s \<Longrightarrow> d' \<noteq> d \<Longrightarrow> store s' d' = store s d'"
    "\<And>c'. c' < nclients s \<Longrightarrow> c' \<noteq> c \<Longrightarrow> out s' c' = out s c'"
proof -
  have sv: "serving c d s" and b: "c_buf (clients s c) = []" "c_reply (clients s c) = []" using s by (auto simp: script_ready_def)
  note S = servingD [OF sv]
  let ?bs = "name # as"
  let ?s2 = "requesting c ?bs s"
  let ?s3 = "update_client c (\<lambda>cl. cl\<lparr>c_cmd := cmd_name r\<rparr>) ?s2"
  note q2 = requesting_quiet [OF S(1,6), of ?bs]
  have q3: "quiet c s ?s3" using quiet_trans [OF q2(1) set_cmd_quiet [OF quietD(1) [OF q2(1)]]] quietD(4) [OF q2(1)] S(6) by simp
  have sv3: "serving c d ?s3" by (rule quiet_serving [OF q3 sv])
  have "sds_at ?s3 = sds_at ?s2" by (simp add: sds_at_def fun_eq_iff update_client_def)
  then have a3: "args c ?s3 ?bs" using q2(2) by (simp add: args_def) (simp add: update_client_def)
  have "kv_run (mstime ?s3) (cmd_name r) as (store ?s3 d) = Some (t, m)" using t(1) quietD(6) [OF q3] quiet_store [OF q3 S(4)] by simp
  then obtain s4 where 4: "cmd_proc r c ?s3 = Some s4" "answered c (print_reply t) d m ?s3 s4"
    using string_command_answered [OF sv3 a3 find_command_in [OF f] _ t(2)] by blast
  note A = answeredD [OF 4(2) sv3]
  have fit: "fits c (print_reply t) ?s3"
    using quiet_client(4,5) [OF q3] b readable_short [OF t(3)] kv_run_reply [OF t(1)] by (simp add: fits_def)
  have b4: "c_buf (clients s4 c) = print_reply t" "c_reply (clients s4 c) = []" using A(8,9) [OF fit] quiet_client(4) [OF q3] b by simp_all
  obtain s5 where 5: "collect_reply c s4 = Some (c_buf (clients s4 c), s5)" "good s5" "script_ready c d s5" "settings s5 = settings s4"
      "\<And>d'. d' < dbnum s4 \<Longrightarrow> store s5 d' = store s4 d'" "\<And>c'. c' < nclients s4 \<Longrightarrow> c' \<noteq> c \<Longrightarrow> out s5 c' = out s4 c'"
    by (rule collect_reply_ok [OF A(7) b4(2)]) (rule that)
  obtain ps' where ps': "parse_response (ps\<lparr>redisReply := print_reply t\<rparr>) = Some (js_value t, ps')"
    using parse_readable [OF t(3), of "ps\<lparr>redisReply := print_reply t\<rparr>" "[]"] by auto
  have sv5: "serving c d s5" using 5(3) by (simp add: script_ready_def)
  obtain s6 where 6: "release_all (c_argv (clients s5 c)) s5 = Some s6" "quiet c s5 (update_client c (\<lambda>cl. cl\<lparr>c_argv := []\<rparr>) s6)"
    by (rule release_args [OF servingD(1,6) [OF sv5]])
  let ?s7 = "update_client c (\<lambda>cl. cl\<lparr>c_argv := []\<rparr>) s6"
  have n: "nclients s4 = nclients s" "dbnum s4 = dbnum s" "nclients s5 = nclients s" "dbnum s5 = dbnum s" "settings s5 = settings s"
      "nclients ?s3 = nclients s" "dbnum ?s3 = dbnum s"
    using A(6) 5(4) quietD(3-5) [OF q3] by (auto simp: settings_def)
  obtain argv s1 where cr: "create_args ?bs s = (argv, s1)" by (cases "create_args ?bs s")
  have s2: "?s2 = update_client c (\<lambda>cl. cl\<lparr>c_argv := argv\<rparr>) s1" using cr by (simp add: requesting_def)
  have "map (sds_at ?s2) argv = map Some ?bs" using q2(2) s2 by (simp add: args_def update_argv_fields)
  then have hd: "argv \<noteq> []" "sds_at ?s2 (hd argv) = Some name" by (cases argv; simp)+
  have "run redisCommandTable c ?bs (ps, s) = Some (js_value t, ps', ?s7)"
    using cr s2 hd f 4(1) 5(1) b4(1) ps' 6(1) by (simp add: run_def Let_def)
  moreover have "script_ready c d ?s7"
    using quiet_serving [OF 6(2) sv5] quiet_client(4,5) [OF 6(2)] 5(3) by (simp add: script_ready_def)
  moreover have "store ?s7 d = m" using quiet_store [OF 6(2)] 5(5) A(4) S(4) n by simp
  moreover have "settings ?s7 = settings s" using quietD(3) [OF 6(2)] n(5) by simp
  moreover have "store ?s7 d' = store s d'" if "d' < dbnum s" "d' \<noteq> d" for d'
    using quiet_store [OF 6(2)] 5(5) A(5) quiet_store [OF q3] that n by simp
  moreover have "out ?s7 c' = out s c'" if "c' < nclients s" "c' \<noteq> c" for c'
    using quietD(8) [OF 6(2)] 5(6) A(3) quietD(8) [OF q3] that n by simp
  ultimately show ?thesis using that by blast
qed

interpretation v8: store_api "run redisCommandTable c" "\<lambda>(ps, s). store s d" "script_inv c d s0" "script_spec (mstime s0)" for c d s0
proof
  fix st bs t m
  assume i: "script_inv c d s0 st" and sp: "script_spec (mstime s0) bs (case st of (ps, s) \<Rightarrow> store s d) = Some (t, m)"
  obtain ps s where st: "st = (ps, s)" by (cases st)
  have s: "script_ready c d s" and ms: "mstime s = mstime s0" "dbnum s = dbnum s0" "nclients s = nclients s0"
    using i by (auto simp: st script_inv_def settings_def)
  obtain name as r where r: "bs = name # as" "find_command redisCommandTable (c_str name) = Some r"
      "kv_run (mstime s) (cmd_name r) as (store s d) = Some (t, m)" "sendable t" "readable t"
    using sp by (auto simp: script_spec_def st ms(1) split: list.splits Option.bind_splits if_splits)
  obtain ps' s' where 1: "run redisCommandTable c (name # as) (ps, s) = Some (js_value t, ps', s')" "script_ready c d s'" "store s' d = m"
    "settings s' = settings s" "\<And>d'. d' < dbnum s \<Longrightarrow> d' \<noteq> d \<Longrightarrow> store s' d' = store s d'"
    "\<And>c'. c' < nclients s \<Longrightarrow> c' \<noteq> c \<Longrightarrow> out s' c' = out s c'"
    by (rule run_command [OF s r(2-5)]) (rule that)
  then have "script_inv c d s0 (ps', s')" using i ms by (simp add: st script_inv_def)
  then show "\<exists>st'. run redisCommandTable c bs st = Some (js_value t, st') \<and> script_inv c d s0 st' \<and> (case st' of (ps, s) \<Rightarrow> store s d) = m"
    using 1(1,3) r(1) st by auto
qed


definition v8_demo :: redisServer where
  "v8_demo = initServer [v8_client]"

lemma v8_demo_ready: "script_ready 0 0 v8_demo" "mstime v8_demo = 0" "store v8_demo 0 = (\<lambda>k. None)"
proof -
  have "ready 0 v8_demo" unfolding v8_demo_def
    by (rule initServer_ready) (simp_all add: v8_client_def createClient_def accepts_def idle_client_def)
  moreover from this have "good v8_demo" by (simp add: good_def db_ok_def ready_def) (simp add: v8_demo_def initServer_def)
  ultimately show "script_ready 0 0 v8_demo"
    by (simp add: script_ready_def serving_def) (simp add: v8_demo_def initServer_def v8_client_def createClient_def)
  show "mstime v8_demo = 0" by (simp add: v8_demo_def initServer_def)
  show "store v8_demo 0 = (\<lambda>k. None)" by (simp add: store_def keyspace_def v8_demo_def initServer_def fun_eq_iff)
qed

lemma find_command_demo:
  "find_command redisCommandTable ''SET'' = Some (row ''set'' setCommand (-3) ''wm'')"
  "find_command redisCommandTable ''INCR'' = Some (row ''incr'' incrCommand 2 ''wm'')"
  "find_command redisCommandTable ''GET'' = Some (row ''get'' getCommand 2 ''r'')"
  by (simp_all add: find_command_def redisCommandTable_def row_def) code_simp+


end
