(* ===== verification/Request.thy ===== *)
theory Request
  imports Command SdsText
begin

text \<open>
  The input side of \<open>src/lib/src/networking.c\<close>: requests are taken from the query buffer of a client, which
  holds what has arrived so far. The fields of the client that only this code uses are the record \<open>input\<close>.
  The verbose log of protocol errors and the time of the last acknowledgement of a slave are left out.
\<close>

definition REDIS_INLINE_MAX_SIZE :: nat where "REDIS_INLINE_MAX_SIZE = 1024 * 64"
definition REDIS_MBULK_BIG_ARG :: nat where "REDIS_MBULK_BIG_ARG = 1024 * 32"

datatype reqtype = REDIS_REQ_INLINE | REDIS_REQ_MULTIBULK

record input =
  querybuf :: bytes
  reqtype :: "reqtype option"
  multibulklen :: nat
  bulklen :: int

definition no_input :: input where
  "no_input = \<lparr>querybuf = [], reqtype = None, multibulklen = 0, bulklen = -1\<rparr>"

text \<open>\<open>strchr(p,x)-p\<close> on a buffer that ends with a NUL\<close>

definition strchr_pos :: "char \<Rightarrow> bytes \<Rightarrow> nat option" where
  "strchr_pos x p =
     (let n = length (takeWhile (\<lambda>y. y \<noteq> x \<and> y \<noteq> NUL) p)
      in if n < length p \<and> p ! n = x then Some n else None)"

definition freeClientArgv :: "cid \<Rightarrow> redisServer \<Rightarrow> redisServer option" where
  "freeClientArgv c s =
     do {
       s1 \<leftarrow> release_all (c_argv (clients s c)) s;
       Some (update_client c (\<lambda>cl. cl\<lparr>c_argv := [], c_cmd := []\<rparr>) s1)
     }"

definition resetClient :: "cid \<Rightarrow> input \<times> redisServer \<Rightarrow> (input \<times> redisServer) option" where
  "resetClient c = (\<lambda>(inp, s).
     let asking = (c_cmd (clients s c) = ''asking'')
     in do {
       s1 \<leftarrow> freeClientArgv c s;
       Some (inp\<lparr>reqtype := None, multibulklen := 0, bulklen := -1\<rparr>,
         if REDIS_MULTI \<notin> c_flags (clients s1 c) \<and> \<not> asking
         then update_client c (\<lambda>cl. cl\<lparr>c_flags := c_flags cl - {REDIS_ASKING}\<rparr>) s1 else s1)
     })"

definition setProtocolError :: "cid \<Rightarrow> nat \<Rightarrow> input \<times> redisServer \<Rightarrow> input \<times> redisServer" where
  "setProtocolError c pos = (\<lambda>(inp, s).
     (inp\<lparr>querybuf := drop pos (querybuf inp)\<rparr>,
      update_client c (\<lambda>cl. cl\<lparr>c_flags := insert REDIS_CLOSE_AFTER_REPLY (c_flags cl)\<rparr>) s))"

definition protocol_error :: "cid \<Rightarrow> bytes \<Rightarrow> nat \<Rightarrow> input \<times> redisServer \<Rightarrow> (input \<times> redisServer) option" where
  "protocol_error c msg pos = (\<lambda>(inp, s). do { s1 \<leftarrow> addReplyError c msg s; Some (setProtocolError c pos (inp, s1)) })"

definition push_arg :: "cid \<Rightarrow> oid \<times> redisServer \<Rightarrow> redisServer" where
  "push_arg c = (\<lambda>(i, s). update_client c (\<lambda>cl. cl\<lparr>c_argv := c_argv cl @ [i]\<rparr>) s)"

subsection \<open>Inline requests\<close>

fun push_words :: "cid \<Rightarrow> bytes list \<Rightarrow> redisServer \<Rightarrow> redisServer" where
  "push_words c [] s = s"
| "push_words c (w # ws) s =
     push_words c ws (if w \<noteq> [] then push_arg c (createObject REDIS_STRING (Sds w) s) else s)"

text \<open>The result says whether a request is complete (\<open>REDIS_OK\<close>).\<close>

definition processInlineBuffer :: "cid \<Rightarrow> input \<times> redisServer \<Rightarrow> (bool \<times> input \<times> redisServer) option" where
  "processInlineBuffer c = (\<lambda>(inp, s).
     let q = querybuf inp
     in case strchr_pos (CHR 0x0A) q of
          None \<Rightarrow>
            if length q > REDIS_INLINE_MAX_SIZE
            then map_option (Pair False) (protocol_error c ''Protocol error: too big inline request'' 0 (inp, s))
            else Some (False, inp, s)
        | Some newline \<Rightarrow>
            let querylen = (if newline \<noteq> 0 \<and> q ! (newline - 1) = CHR 0x0D then newline - 1 else newline)
            in case sdssplitargs (take querylen q) of
                 None \<Rightarrow> map_option (Pair False) (protocol_error c ''Protocol error: unbalanced quotes in request'' 0 (inp, s))
               | Some argv \<Rightarrow>
                   Some (True, inp\<lparr>querybuf := drop (querylen + 2) q\<rparr>,
                     push_words c argv (update_client c (\<lambda>cl. cl\<lparr>c_argv := []\<rparr>) s)))"

subsection \<open>Multi bulk requests\<close>

text \<open>
  The loop over the arguments, \<open>n\<close> of which are missing. It ends with a protocol error, or with the position
  up to which the buffer is used.
\<close>

datatype mbulk_end = Stop nat | Failed

definition read_bulklen :: "cid \<Rightarrow> nat \<Rightarrow> input \<times> redisServer \<Rightarrow> ((nat option \<times> mbulk_end) \<times> input \<times> redisServer) option" where
  "read_bulklen c pos = (\<lambda>(inp, s).
     if bulklen inp \<noteq> -1 then Some ((Some pos, Stop pos), inp, s)
     else
       let q = querybuf inp
       in case strchr_pos (CHR 0x0D) (drop pos q) of
            None \<Rightarrow>
              if length q > REDIS_INLINE_MAX_SIZE
              then map_option (Pair (None, Stop pos)) (protocol_error c ''Protocol error: too big bulk count string'' 0 (inp, s))
              else Some ((None, Stop pos), inp, s)
          | Some n \<Rightarrow>
              if int (pos + n) > int (length q) - 2 then Some ((None, Stop pos), inp, s)
              else if q ! pos \<noteq> CHR ''$''
              then do {
                s1 \<leftarrow> addReplyErrorFormat c (''Protocol error: expected '' @ [CHR 0x27, CHR ''$'', CHR 0x27] @ '', got '' @
                  [CHR 0x27, q ! pos, CHR 0x27]) s;
                Some ((None, Failed), setProtocolError c pos (inp, s1))
              }
              else case string2ll (take (n - 1) (drop (pos + 1) q)) of
                None \<Rightarrow> map_option (Pair (None, Failed)) (protocol_error c ''Protocol error: invalid bulk length'' pos (inp, s))
              | Some ll \<Rightarrow>
                  if ll < 0 \<or> ll > 512 * 1024 * 1024
                  then map_option (Pair (None, Failed)) (protocol_error c ''Protocol error: invalid bulk length'' pos (inp, s))
                  else if ll \<ge> int REDIS_MBULK_BIG_ARG
                  then Some ((Some 0, Stop 0), inp\<lparr>querybuf := drop (pos + n + 2) q, bulklen := ll\<rparr>, s)
                  else Some ((Some (pos + n + 2), Stop (pos + n + 2)), inp\<lparr>bulklen := ll\<rparr>, s))"

fun mbulk_loop :: "nat \<Rightarrow> cid \<Rightarrow> nat \<Rightarrow> input \<times> redisServer \<Rightarrow> (mbulk_end \<times> input \<times> redisServer) option" where
  "mbulk_loop 0 c pos (inp, s) = Some (Stop pos, inp, s)"
| "mbulk_loop (Suc n) c pos (inp, s) =
     do {
       ((go, e), inp1, s1) \<leftarrow> read_bulklen c pos (inp, s);
       (case go of
          None \<Rightarrow> Some (e, inp1, s1)
        | Some pos1 \<Rightarrow>
            let q = querybuf inp1; len = nat (bulklen inp1)
            in if length q - pos1 < len + 2 then Some (Stop pos1, inp1, s1)
               else if pos1 = 0 \<and> len \<ge> REDIS_MBULK_BIG_ARG \<and> length q = len + 2
               then mbulk_loop n c 0 (inp1\<lparr>querybuf := [], multibulklen := multibulklen inp1 - 1, bulklen := -1\<rparr>,
                 push_arg c (createObject REDIS_STRING (Sds (take len q)) s1))
               else mbulk_loop n c (pos1 + len + 2) (inp1\<lparr>multibulklen := multibulklen inp1 - 1, bulklen := -1\<rparr>,
                 push_arg c (createStringObject (take len (drop pos1 q)) s1)))
     }"

definition mbulk_args :: "cid \<Rightarrow> nat \<Rightarrow> input \<times> redisServer \<Rightarrow> (bool \<times> input \<times> redisServer) option" where
  "mbulk_args c pos = (\<lambda>(inp, s).
     do {
       (e, inp1, s1) \<leftarrow> mbulk_loop (multibulklen inp) c pos (inp, s);
       (case e of
          Failed \<Rightarrow> Some (False, inp1, s1)
        | Stop pos1 \<Rightarrow> Some (multibulklen inp1 = 0, inp1\<lparr>querybuf := drop pos1 (querybuf inp1)\<rparr>, s1))
     })"

definition processMultibulkBuffer :: "cid \<Rightarrow> input \<times> redisServer \<Rightarrow> (bool \<times> input \<times> redisServer) option" where
  "processMultibulkBuffer c = (\<lambda>(inp, s).
     let q = querybuf inp
     in if multibulklen inp \<noteq> 0 then mbulk_args c 0 (inp, s)
        else if c_argv (clients s c) \<noteq> [] then None
        else case strchr_pos (CHR 0x0D) q of
          None \<Rightarrow>
            if length q > REDIS_INLINE_MAX_SIZE
            then map_option (Pair False) (protocol_error c ''Protocol error: too big mbulk count string'' 0 (inp, s))
            else Some (False, inp, s)
        | Some newline \<Rightarrow>
            if int newline > int (length q) - 2 then Some (False, inp, s)
            else if q ! 0 \<noteq> CHR ''*'' then None
            else case string2ll (take (newline - 1) (drop 1 q)) of
              None \<Rightarrow> map_option (Pair False) (protocol_error c ''Protocol error: invalid multibulk length'' 0 (inp, s))
            | Some ll \<Rightarrow>
                if ll > 1024 * 1024
                then map_option (Pair False) (protocol_error c ''Protocol error: invalid multibulk length'' 0 (inp, s))
                else if ll \<le> 0 then Some (True, inp\<lparr>querybuf := drop (newline + 2) q\<rparr>, s)
                else mbulk_args c (newline + 2) (inp\<lparr>multibulklen := nat ll\<rparr>, s))"

subsection \<open>The loop over requests\<close>

text \<open>\<open>process\<close> is \<open>processCommand\<close>. Every round takes at least a byte from the buffer, which bounds their number.\<close>

primrec input_loop :: "nat \<Rightarrow> (cid \<Rightarrow> redisServer \<Rightarrow> (bool \<times> redisServer) option) \<Rightarrow> cid \<Rightarrow> input \<times> redisServer \<Rightarrow>
    (input \<times> redisServer) option" where
  "input_loop 0 process c st = (if querybuf (fst st) = [] then Some st else None)"
| "input_loop (Suc n) process c st =
     (let (inp, s) = st; flags = c_flags (clients s c)
      in if querybuf inp = [] \<or> REDIS_BLOCKED \<in> flags \<or> REDIS_CLOSE_AFTER_REPLY \<in> flags then Some st
         else
           let t = (case reqtype inp of
                      Some t \<Rightarrow> t
                    | None \<Rightarrow> if hd (querybuf inp) = CHR ''*'' then REDIS_REQ_MULTIBULK else REDIS_REQ_INLINE);
               st1 = (inp\<lparr>reqtype := Some t\<rparr>, s)
           in do {
             (ok, inp2, s2) \<leftarrow> (if t = REDIS_REQ_INLINE then processInlineBuffer c st1 else processMultibulkBuffer c st1);
             (if \<not> ok then Some (inp2, s2)
              else do {
                (again, s3) \<leftarrow> (if c_argv (clients s2 c) = [] then Some (True, s2) else process c s2);
                st4 \<leftarrow> (if again then resetClient c (inp2, s3) else Some (inp2, s3));
                input_loop n process c st4
              })
           })"

definition processInputBuffer :: "(cid \<Rightarrow> redisServer \<Rightarrow> (bool \<times> redisServer) option) \<Rightarrow> cid \<Rightarrow> input \<times> redisServer \<Rightarrow>
    (input \<times> redisServer) option" where
  "processInputBuffer process c st = input_loop (length (querybuf (fst st))) process c st"

subsection \<open>Reading from the socket\<close>

definition REDIS_IOBUF_LEN :: nat where "REDIS_IOBUF_LEN = 1024 * 16"

text \<open>How much is read at most: of a big argument no more than what is missing of it.\<close>

definition readlen :: "input \<Rightarrow> int" where
  "readlen inp =
     (if reqtype inp = Some REDIS_REQ_MULTIBULK \<and> multibulklen inp \<noteq> 0 \<and> bulklen inp \<noteq> -1 \<and> bulklen inp \<ge> int REDIS_MBULK_BIG_ARG
      then let remaining = bulklen inp + 2 - int (length (querybuf inp))
           in if remaining < int REDIS_IOBUF_LEN then remaining else int REDIS_IOBUF_LEN
      else int REDIS_IOBUF_LEN)"

text \<open>What \<open>read\<close> returns: a failure, of which \<open>EAGAIN\<close> is one, the end of the stream, or bytes.\<close>

datatype nread = Errno | Eagain | Eof | Bytes bytes

text \<open>
  The result has no input when \<open>freeClient\<close> is called. \<open>maxlen\<close> is \<open>server.client_max_querybuf_len\<close>. The times
  and the offset of the replication link are left out.
\<close>

definition readQueryFromClient :: "nat \<Rightarrow> (cid \<Rightarrow> redisServer \<Rightarrow> (bool \<times> redisServer) option) \<Rightarrow> cid \<Rightarrow> nread \<Rightarrow> input \<times> redisServer \<Rightarrow>
    (input option \<times> redisServer) option" where
  "readQueryFromClient maxlen process c nread = (\<lambda>(inp, s).
     case nread of
       Errno \<Rightarrow> Some (None, s)
     | Eof \<Rightarrow> Some (None, s)
     | Eagain \<Rightarrow> Some (Some inp, s)
     | Bytes b \<Rightarrow>
         let inp1 = inp\<lparr>querybuf := querybuf inp @ b\<rparr>
         in if length (querybuf inp1) > maxlen then Some (None, s)
            else map_option (\<lambda>(inp2, s2). (Some inp2, s2)) (processInputBuffer process c (inp1, s)))"

end
