(* ===== verification/RequestRead.thy ===== *)
theory RequestRead
  imports Scripts Request
begin

text \<open>
  Reading a request in the form in which clients send them: an array of bulk strings. The bytes come in pieces that
  the network chooses, and the reader stops after each of them at whatever point of the request it has reached.
\<close>

definition encode_request :: "bytes list \<Rightarrow> bytes" where
  "encode_request bs = ''*'' @ dec (length bs) @ CRLF @ concat (map bulk bs)"

subsection \<open>Lines\<close>

lemma strchr_pos_line:
  assumes "p @ r = l @ CRLF @ x" "NUL \<notin> set l" "CHR 0x0D \<notin> set l"
  shows "strchr_pos (CHR 0x0D) p = (if length p \<le> length l then None else Some (length l))"
proof (cases "length p \<le> length l")
  case True
  then have "p = take (length p) l" using arg_cong [OF assms(1), of "take (length p)"] by simp
  then have "\<forall>y\<in>set p. y \<noteq> CHR 0x0D \<and> y \<noteq> NUL" using assms(2,3) in_set_takeD by metis
  then have tw: "takeWhile (\<lambda>y. y \<noteq> CHR 0x0D \<and> y \<noteq> NUL) p = p" by (simp add: takeWhile_eq_all_conv)
  show ?thesis unfolding strchr_pos_def Let_def tw using True by simp
next
  case False
  have "take (Suc (length l)) (p @ r) = l @ [CHR 0x0D]" by (simp add: assms(1) CRLF_def)
  then have "take (Suc (length l)) p = l @ [CHR 0x0D]" using False by simp
  then obtain y where y: "p = l @ CHR 0x0D # y" using append_take_drop_id [of "Suc (length l)" p] by (metis append.assoc append_Cons append_Nil)
  have "takeWhile (\<lambda>y. y \<noteq> CHR 0x0D \<and> y \<noteq> NUL) p = l"
    using assms(2,3) by (auto simp: y takeWhile_append)
  then show ?thesis using False by (simp add: strchr_pos_def y)
qed

lemma line_complete:
  assumes "p @ r = l @ CRLF @ x" "length l + 2 \<le> length p"
  obtains w where "p = l @ CRLF @ w" "w @ r = x"
proof -
  have p: "p = take (length p) (l @ CRLF @ x)" using arg_cong [OF assms(1), of "take (length p)"] by simp
  have "p = l @ CRLF @ take (length p - length l - 2) x"
    by (subst p) (use assms(2) in \<open>simp add: CRLF_def take_Cons' numeral_2_eq_2\<close>)
  then show ?thesis using assms(1) that by (metis append.assoc same_append_eq)
qed

lemma string2ll_dec: "n \<le> 512 * 1024 * 1024 \<Longrightarrow> string2ll (dec n) = Some (int n)"
  using string2ll_dec_int [of "int n"] by (simp add: in_ll_def)

lemma dec_no_line: "NUL \<notin> set (dec n)" "CHR 0x0D \<notin> set (dec n)"
  by (simp_all add: dec_no_ctrl isdigit_def)

subsection \<open>Arguments\<close>

lemma push_arg_quiet:
  assumes s: "good s" "c < nclients s" "args c s bs"
    and i: "e = REDIS_ENCODING_RAW \<or> e = REDIS_ENCODING_EMBSTR" "i = Dyn (fresh s)"
      "s1 = (update_obj i (Some \<lparr>ob_type = REDIS_STRING, ob_enc = e, refcount = 1, ob_ptr = Sds b\<rparr>) s)\<lparr>fresh := fresh s + 1\<rparr>"
  shows "quiet c s (push_arg c (i, s1))" "args c (push_arg c (i, s1)) (bs @ [b])"
proof -
  note n = new_string_step [OF s(1) i]
  let ?s2 = "update_client c (\<lambda>cl. cl\<lparr>c_argv := c_argv (clients s c) @ [i]\<rparr>) s1"
  have e: "push_arg c (i, s1) = ?s2" using n(5) by (simp add: push_arg_def update_client_def)
  have f: "nclients s1 = nclients s" "settings s1 = settings s" using frameD(1) [OF stepD(2) [OF n(1)]] stepD(2) [OF n(1)] by (auto simp: frame_def)
  have q: "quiet c s s1" using n(2,5) f step_out [OF n(1) s(1)] stepD(1) [OF n(1)] by (simp add: quiet_def)
  have ow: "\<exists>ob. objs s1 i = Some ob \<and> int (refs s1 i) < refcount ob" using n(3) owned_iff [OF goodD(1) [OF stepD(1) [OF n(1)]]] by auto
  have "server_inv ?s2"
    by (rule inv_update_client [OF goodD(1) [OF stepD(1) [OF n(1)]], where i = "Some i"])
      (use s(2) f ow n(5) in \<open>auto simp: client_refs_def\<close>)
  then show "quiet c s (push_arg c (i, s1))" using quiet_trans [OF q update_client_quiet [OF stepD(1) [OF n(1)]]] e by simp
  have "sds_at s1 j = sds_at s j" if "j \<in> set (c_argv (clients s c))" for j
    using step_oview [OF n(1) argv_ext [OF goodD(1) [OF s(1)] s(2) that]] oviewD(2) by blast
  then have "map (sds_at s1) (c_argv (clients s c)) = map Some bs" using s(3) by (auto simp: args_def cong: map_cong)
  moreover have "sds_at ?s2 = sds_at s1" by (simp add: sds_at_def fun_eq_iff update_argv_fields)
  ultimately show "args c (push_arg c (i, s1)) (bs @ [b])" using n(4) by (simp add: e args_def update_argv_fields)
qed

lemma push_args:
  assumes "good s" "c < nclients s" "args c s bs"
  shows "quiet c s (push_arg c (createStringObject b s))" "args c (push_arg c (createStringObject b s)) (bs @ [b])"
    "quiet c s (push_arg c (createObject REDIS_STRING (Sds b) s))" "args c (push_arg c (createObject REDIS_STRING (Sds b) s)) (bs @ [b])"
proof -
  obtain i s1 where 1: "createStringObject b s = (i, s1)" by (cases "createStringObject b s")
  obtain j s2 where 2: "createObject REDIS_STRING (Sds b) s = (j, s2)" by (cases "createObject REDIS_STRING (Sds b) s")
  show "quiet c s (push_arg c (createStringObject b s))" "args c (push_arg c (createStringObject b s)) (bs @ [b])"
    using createStringObject_new [OF 1] push_arg_quiet [OF assms] 1 by metis+
  show "quiet c s (push_arg c (createObject REDIS_STRING (Sds b) s))" "args c (push_arg c (createObject REDIS_STRING (Sds b) s)) (bs @ [b])"
    using createObject_new [OF 2] push_arg_quiet [OF assms] 2 by metis+
qed

subsection \<open>The loop over the arguments\<close>

text \<open>
  Between two pieces: the arguments \<open>cs\<close> are missing, \<open>r\<close> has yet to arrive, and \<open>z\<close> follows this request; either
  the length of the next argument or the argument itself is incomplete.
\<close>

fun waiting :: "bytes list \<Rightarrow> input \<Rightarrow> bytes \<Rightarrow> bytes \<Rightarrow> bool" where
  "waiting [] inp r z = False"
| "waiting (b # cs) inp r z \<longleftrightarrow>
     reqtype inp = Some REDIS_REQ_MULTIBULK \<and> multibulklen inp = length (b # cs) \<and>
     (if bulklen inp = -1 then querybuf inp @ r = concat (map bulk (b # cs)) @ z \<and> length (querybuf inp) < length (dec (length b)) + 3
      else bulklen inp = int (length b) \<and> querybuf inp @ r = b @ CRLF @ concat (map bulk cs) @ z \<and> length (querybuf inp) < length b + 2)"

text \<open>
  In the loop. The query buffer is short enough for a line, but for a big argument, which is then alone in it.
\<close>

definition reading :: "bytes list \<Rightarrow> nat \<Rightarrow> input \<Rightarrow> bytes \<Rightarrow> bytes \<Rightarrow> bool" where
  "reading cs pos inp r z \<longleftrightarrow>
     reqtype inp = Some REDIS_REQ_MULTIBULK \<and> multibulklen inp = length cs \<and> pos \<le> length (querybuf inp) \<and>
     (if bulklen inp = -1 then drop pos (querybuf inp) @ r = concat (map bulk cs) @ z \<and> length (querybuf inp) \<le> REDIS_INLINE_MAX_SIZE
      else cs \<noteq> [] \<and> bulklen inp = int (length (hd cs)) \<and> drop pos (querybuf inp) @ r = hd cs @ CRLF @ concat (map bulk (tl cs)) @ z \<and>
        (length (querybuf inp) \<le> REDIS_INLINE_MAX_SIZE \<or>
         pos = 0 \<and> REDIS_MBULK_BIG_ARG \<le> length (hd cs) \<and> length (querybuf inp) \<le> length (hd cs) + 2))"

abbreviation short_args :: "bytes list \<Rightarrow> bool" where
  "short_args bs \<equiv> \<forall>b\<in>set bs. length b \<le> 512 * 1024 * 1024"

lemma read_bulklen_ok:
  assumes rd: "reading (b # cs) pos inp r z" and b: "length b \<le> 512 * 1024 * 1024"
  shows "(\<exists>p inp1. read_bulklen c pos (inp, s) = Some ((Some p, Stop p), inp1, s) \<and> reading (b # cs) p inp1 r z \<and> bulklen inp1 = int (length b)) \<or>
    read_bulklen c pos (inp, s) = Some ((None, Stop pos), inp, s) \<and> waiting (b # cs) (inp\<lparr>querybuf := drop pos (querybuf inp)\<rparr>) r z"
proof (cases "bulklen inp = -1")
  case False
  then show ?thesis using rd by (auto simp: read_bulklen_def reading_def)
next
  case True
  define q where "q = querybuf inp"
  define l where "l = ''$'' @ dec (length b)"
  have pos: "pos \<le> length q" "length q \<le> REDIS_INLINE_MAX_SIZE" and e: "drop pos q @ r = l @ CRLF @ b @ CRLF @ concat (map bulk cs) @ z"
    using rd True by (simp_all add: reading_def q_def l_def bulk_def)
  note st = strchr_pos_line [OF e, unfolded l_def, simplified, OF dec_no_line, folded l_def]
  have ll: "length l = length (dec (length b)) + 1" by (simp add: l_def)
  show ?thesis
  proof (cases "length l + 2 \<le> length (drop pos q)")
    case False
    have "read_bulklen c pos (inp, s) = Some ((None, Stop pos), inp, s)"
      using False st pos True ll by (auto simp: read_bulklen_def q_def Let_def)
    moreover have "waiting (b # cs) (inp\<lparr>querybuf := drop pos (querybuf inp)\<rparr>) r z"
      using rd True False ll by (simp add: reading_def q_def)
    ultimately show ?thesis by blast
  next
    case complete: True
    obtain w where w: "drop pos q = l @ CRLF @ w" "w @ r = b @ CRLF @ concat (map bulk cs) @ z"
      by (rule line_complete [OF e complete])
    have s1: "strchr_pos (CHR 0x0D) (drop pos q) = Some (length l)" using st complete ll by simp
    have dollar: "q ! pos = CHR ''$''" using nth_drop [OF pos(1), of 0] by (simp add: w(1) l_def)
    have "take (length l - 1) (drop (pos + 1) q) = dec (length b)"
      using arg_cong [OF w(1), of "\<lambda>x. take (length l - 1) (drop 1 x)"] by (simp add: l_def)
    then have n: "string2ll (take (length l - Suc 0) (drop (Suc pos) q)) = Some (int (length b))" using string2ll_dec [OF b] by simp
    have dw: "drop (pos + length l + 2) q = w" using arg_cong [OF w(1), of "drop (length l + 2)"] by (simp add: CRLF_def ac_simps)
    have fit: "pos + length l + 2 \<le> length q" using complete by simp
    let ?big = "int REDIS_MBULK_BIG_ARG \<le> int (length b)"
    let ?inp = "if ?big then inp\<lparr>querybuf := w, bulklen := int (length b)\<rparr> else inp\<lparr>bulklen := int (length b)\<rparr>"
    let ?p = "if ?big then 0 else pos + length l + 2"
    have "read_bulklen c pos (inp, s) = Some ((Some ?p, Stop ?p), ?inp, s)"
      using True s1 fit dollar n b dw by (simp add: read_bulklen_def q_def [symmetric] Let_def)
    moreover have "reading (b # cs) ?p ?inp r z"
      using rd True w(2) dw fit pos(2) by (auto simp: reading_def q_def [symmetric])
    moreover have "bulklen ?inp = int (length b)" by simp
    ultimately show ?thesis by blast
  qed
qed

lemma take_argument:
  assumes rd: "reading (b # cs) pos inp r z" "bulklen inp = int (length b)" and full: "length b + 2 \<le> length (querybuf inp) - pos"
  obtains w where "drop pos (querybuf inp) = b @ CRLF @ w" "w @ r = concat (map bulk cs) @ z"
    "drop (pos + length b + 2) (querybuf inp) = w" "pos = 0 \<Longrightarrow> length (querybuf inp) = length b + 2 \<Longrightarrow> w = []"
    "length (querybuf inp) \<le> REDIS_INLINE_MAX_SIZE \<or> pos = 0 \<and> REDIS_MBULK_BIG_ARG \<le> length b \<and> length (querybuf inp) = length b + 2"
proof -
  have e: "drop pos (querybuf inp) @ r = b @ CRLF @ concat (map bulk cs) @ z" using rd by (simp add: reading_def)
  obtain w where w: "drop pos (querybuf inp) = b @ CRLF @ w" "w @ r = concat (map bulk cs) @ z"
    by (rule line_complete [OF e]) (use full in \<open>simp_all\<close>)
  have "drop (pos + length b + 2) (querybuf inp) = w" using arg_cong [OF w(1), of "drop (length b + 2)"] by (simp add: CRLF_def ac_simps)
  moreover have "w = []" if "pos = 0" "length (querybuf inp) = length b + 2"
    using arg_cong [OF w(1), of length] that by (simp add: CRLF_def)
  ultimately show ?thesis using that w rd full by (auto simp: reading_def)
qed

lemma mbulk_loop_ok:
  assumes "reading cs pos inp r z" "good s" "c < nclients s" "args c s as" "short_args cs"
  shows "\<exists>pos' inp' s' ds cs'. mbulk_loop (length cs) c pos (inp, s) = Some (Stop pos', inp', s') \<and> quiet c s s' \<and> cs = ds @ cs' \<and>
    args c s' (as @ ds) \<and> reqtype inp' = reqtype inp \<and>
    (if cs' = [] then multibulklen inp' = 0 \<and> bulklen inp' = -1 \<and> drop pos' (querybuf inp') @ r = z \<and> length (querybuf inp') \<le> REDIS_INLINE_MAX_SIZE
     else waiting cs' (inp'\<lparr>querybuf := drop pos' (querybuf inp')\<rparr>) r z)"
  using assms
proof (induction cs arbitrary: pos inp s as)
  case Nil
  then show ?case by (intro exI [of _ pos] exI [of _ inp] exI [of _ s] exI [of _ "[]"]) (auto simp: reading_def quiet_refl split: if_splits)
next
  case (Cons b cs)
  have b: "length b \<le> 512 * 1024 * 1024" and short: "short_args cs" using Cons.prems(5) by auto
  from read_bulklen_ok [OF Cons.prems(1) b, of c s] show ?case
  proof (elim disjE exE conjE)
    assume r: "read_bulklen c pos (inp, s) = Some ((None, Stop pos), inp, s)"
      and w: "waiting (b # cs) (inp\<lparr>querybuf := drop pos (querybuf inp)\<rparr>) r z"
    show ?thesis
      by (intro exI [of _ pos] exI [of _ inp] exI [of _ s] exI [of _ "[]"] exI [of _ "b # cs"])
        (use r w Cons.prems in \<open>simp add: quiet_refl del: waiting.simps\<close>)
  next
    fix p inp1
    assume r: "read_bulklen c pos (inp, s) = Some ((Some p, Stop p), inp1, s)" and rd: "reading (b # cs) p inp1 r z"
      and bl: "bulklen inp1 = int (length b)"
    let ?q = "querybuf inp1"
    have rt: "reqtype inp1 = reqtype inp" using rd Cons.prems(1) by (simp add: reading_def)
    show ?thesis
    proof (cases "length b + 2 \<le> length ?q - p")
      case False
      then have "waiting (b # cs) (inp1\<lparr>querybuf := drop p ?q\<rparr>) r z" using rd bl by (simp add: reading_def)
      then show ?thesis
        by (intro exI [of _ p] exI [of _ inp1] exI [of _ s] exI [of _ "[]"] exI [of _ "b # cs"])
          (use r False bl rt Cons.prems in \<open>simp add: quiet_refl del: waiting.simps\<close>)
    next
      case full: True
      obtain w where w: "drop p ?q = b @ CRLF @ w" "w @ r = concat (map bulk cs) @ z" "drop (p + length b + 2) ?q = w"
        "p = 0 \<Longrightarrow> length ?q = length b + 2 \<Longrightarrow> w = []"
        "length ?q \<le> REDIS_INLINE_MAX_SIZE \<or> p = 0 \<and> REDIS_MBULK_BIG_ARG \<le> length b \<and> length ?q = length b + 2"
        by (rule take_argument [OF rd bl full]) (rule that)
      let ?whole = "p = 0 \<and> REDIS_MBULK_BIG_ARG \<le> length b \<and> length ?q = length b + 2"
      define s2 where "s2 = push_arg c (if ?whole then createObject REDIS_STRING (Sds b) s else createStringObject b s)"
      define inp2 where "inp2 = inp1\<lparr>querybuf := (if ?whole then [] else ?q), multibulklen := length cs, bulklen := -1\<rparr>"
      define p2 where "p2 = (if ?whole then 0 else p + length b + 2)"
      have q2: "quiet c s s2" "args c s2 (as @ [b])" using push_args [OF Cons.prems(2-4), of b] by (auto simp: s2_def)
      have tk: "take (length b) (drop p ?q) = b" by (simp add: w(1))
      have l: "mbulk_loop (length (b # cs)) c pos (inp, s) = mbulk_loop (length cs) c p2 (inp2, s2)"
        using r full bl tk rd by (cases ?whole) (auto simp: s2_def inp2_def p2_def reading_def Let_def)
      have rd2: "reading cs p2 inp2 r z" using w full rd by (auto simp: reading_def inp2_def p2_def)
      obtain pos' inp' s' ds cs' where IH: "mbulk_loop (length cs) c p2 (inp2, s2) = Some (Stop pos', inp', s')" "quiet c s2 s'" "cs = ds @ cs'"
          "args c s' ((as @ [b]) @ ds)" "reqtype inp' = reqtype inp2"
          "if cs' = [] then multibulklen inp' = 0 \<and> bulklen inp' = -1 \<and> drop pos' (querybuf inp') @ r = z \<and> length (querybuf inp') \<le> REDIS_INLINE_MAX_SIZE
           else waiting cs' (inp'\<lparr>querybuf := drop pos' (querybuf inp')\<rparr>) r z"
        using Cons.IH [OF rd2 quietD(1) [OF q2(1)] _ q2(2) short] Cons.prems(3) quietD(4) [OF q2(1)] by auto
      show ?thesis
        by (intro exI [of _ pos'] exI [of _ inp'] exI [of _ s'] exI [of _ "b # ds"] exI [of _ cs'])
          (use l IH rt quiet_trans [OF q2(1) IH(2)] in \<open>simp add: inp2_def\<close>)
    qed
  qed
qed

subsection \<open>One request\<close>

definition request_ok :: "bytes list \<Rightarrow> bool" where
  "request_ok bs \<longleftrightarrow> bs \<noteq> [] \<and> length bs \<le> 1024 * 1024 \<and> short_args bs"

text \<open>
  Before a request is complete: the reader is in its first line, where nothing has been taken from the buffer, or
  between its arguments.
\<close>

definition in_header :: "cid \<Rightarrow> bytes list \<Rightarrow> redisServer \<Rightarrow> input \<Rightarrow> bytes \<Rightarrow> bytes \<Rightarrow> bool" where
  "in_header c bs s inp r z \<longleftrightarrow>
     multibulklen inp = 0 \<and> bulklen inp = -1 \<and> args c s [] \<and> querybuf inp @ r = encode_request bs @ z \<and>
     length (querybuf inp) \<le> REDIS_INLINE_MAX_SIZE"

definition awaits :: "cid \<Rightarrow> bytes list \<Rightarrow> redisServer \<Rightarrow> input \<Rightarrow> bytes \<Rightarrow> bytes \<Rightarrow> bool" where
  "awaits c bs s inp r z \<longleftrightarrow>
     in_header c bs s inp r z \<and> length (querybuf inp) < length (dec (length bs)) + 3 \<and>
       reqtype inp = (if querybuf inp = [] then None else Some REDIS_REQ_MULTIBULK) \<or>
     (\<exists>ds cs. bs = ds @ cs \<and> args c s ds \<and> waiting cs inp r z)"

text \<open>When a piece has been added to the buffer.\<close>

definition parsing :: "cid \<Rightarrow> bytes list \<Rightarrow> redisServer \<Rightarrow> input \<Rightarrow> bytes \<Rightarrow> bytes \<Rightarrow> bool" where
  "parsing c bs s inp r z \<longleftrightarrow>
     in_header c bs s inp r z \<and> (reqtype inp = None \<or> querybuf inp \<noteq> [] \<and> reqtype inp = Some REDIS_REQ_MULTIBULK) \<or>
     (\<exists>ds cs. bs = ds @ cs \<and> cs \<noteq> [] \<and> args c s ds \<and> reading cs 0 inp r z)"

lemma mbulk_args_ok:
  assumes "reading cs pos inp r z" "good s" "c < nclients s" "args c s as" "short_args cs" "bs = as @ cs"
  shows "\<exists>ok inp' s'. mbulk_args c pos (inp, s) = Some (ok, inp', s') \<and> quiet c s s' \<and>
    (if ok then args c s' bs \<and> multibulklen inp' = 0 \<and> bulklen inp' = -1 \<and> querybuf inp' @ r = z \<and> length (querybuf inp') \<le> REDIS_INLINE_MAX_SIZE
     else awaits c bs s' inp' r z)"
proof -
  obtain pos' inp' s' ds cs' where l: "mbulk_loop (length cs) c pos (inp, s) = Some (Stop pos', inp', s')" "quiet c s s'" "cs = ds @ cs'"
      "args c s' (as @ ds)" "if cs' = [] then multibulklen inp' = 0 \<and> bulklen inp' = -1 \<and> drop pos' (querybuf inp') @ r = z \<and>
          length (querybuf inp') \<le> REDIS_INLINE_MAX_SIZE
        else waiting cs' (inp'\<lparr>querybuf := drop pos' (querybuf inp')\<rparr>) r z"
    using mbulk_loop_ok [OF assms(1-5)] by blast
  have m: "multibulklen inp = length cs" using assms(1) by (simp add: reading_def)
  have e: "mbulk_args c pos (inp, s) = Some (multibulklen inp' = 0, inp'\<lparr>querybuf := drop pos' (querybuf inp')\<rparr>, s')"
    using l(1) m by (simp add: mbulk_args_def)
  show ?thesis
  proof (cases cs')
    case Nil
    then show ?thesis using e l(2-5) assms(6) by (auto simp: le_diff_conv trans_le_add1)
  next
    case (Cons b cs1)
    moreover have "awaits c bs s' (inp'\<lparr>querybuf := drop pos' (querybuf inp')\<rparr>) r z"
      unfolding awaits_def
      by (rule disjI2, rule exI [of _ "as @ ds"], rule exI [of _ cs']) (use l(3-5) assms(6) Cons in \<open>simp del: waiting.simps\<close>)
    ultimately show ?thesis using e l(2,5) by auto
  qed
qed

lemma header_line:
  assumes h: "in_header c bs s inp r z" and q: "length (dec (length bs)) + 3 \<le> length (querybuf inp)" and bs: "request_ok bs"
  defines "n \<equiv> length (dec (length bs)) + 1"
  shows "strchr_pos (CHR 0x0D) (querybuf inp) = Some n" "int n \<le> int (length (querybuf inp)) - 2" "querybuf inp ! 0 = CHR ''*''"
    "string2ll (take (n - 1) (drop 1 (querybuf inp))) = Some (int (length bs))"
    "reading bs (n + 2) (inp\<lparr>reqtype := Some REDIS_REQ_MULTIBULK, multibulklen := length bs\<rparr>) r z"
proof -
  define l where "l = ''*'' @ dec (length bs)"
  have e: "querybuf inp @ r = l @ CRLF @ concat (map bulk bs) @ z" and n: "length l = n"
    using h by (simp_all add: in_header_def encode_request_def l_def n_def)
  note st = strchr_pos_line [OF e, unfolded l_def, simplified, OF dec_no_line, folded l_def]
  show "strchr_pos (CHR 0x0D) (querybuf inp) = Some n" "int n \<le> int (length (querybuf inp)) - 2" using st q n by (auto simp: n_def)
  have "length l + 2 \<le> length (querybuf inp)" using q n by (simp add: n_def)
  then obtain w where w: "querybuf inp = l @ CRLF @ w" "w @ r = concat (map bulk bs) @ z" by (rule line_complete [OF e])
  show "querybuf inp ! 0 = CHR ''*''" by (simp add: w(1) l_def)
  have "take (n - 1) (drop 1 (querybuf inp)) = dec (length bs)" by (simp add: w(1) n [symmetric] l_def)
  moreover have "length bs \<le> 512 * 1024 * 1024" using bs by (simp add: request_ok_def)
  ultimately show "string2ll (take (n - 1) (drop 1 (querybuf inp))) = Some (int (length bs))" using string2ll_dec by simp
  have "drop (n + 2) (querybuf inp) = w" by (simp add: w(1) n [symmetric] CRLF_def)
  then show "reading bs (n + 2) (inp\<lparr>reqtype := Some REDIS_REQ_MULTIBULK, multibulklen := length bs\<rparr>) r z"
    using h w q by (simp add: reading_def in_header_def n_def)
qed

lemma processMultibulkBuffer_ok:
  assumes p: "parsing c bs s inp r z" and s: "good s" "c < nclients s" and bs: "request_ok bs" and q: "querybuf inp \<noteq> []"
  shows "\<exists>ok inp' s'. processMultibulkBuffer c (inp\<lparr>reqtype := Some REDIS_REQ_MULTIBULK\<rparr>, s) = Some (ok, inp', s') \<and> quiet c s s' \<and>
    (if ok then args c s' bs \<and> multibulklen inp' = 0 \<and> bulklen inp' = -1 \<and> querybuf inp' @ r = z \<and> length (querybuf inp') \<le> REDIS_INLINE_MAX_SIZE
     else awaits c bs s' inp' r z)"
proof (cases "in_header c bs s inp r z")
  case False
  then obtain ds cs where d: "bs = ds @ cs" "cs \<noteq> []" "args c s ds" "reading cs 0 inp r z" using p by (auto simp: parsing_def)
  have "inp\<lparr>reqtype := Some REDIS_REQ_MULTIBULK\<rparr> = inp" "multibulklen inp \<noteq> 0" using d(2,4) by (auto simp: reading_def)
  moreover have "short_args cs" using bs d(1) by (auto simp: request_ok_def)
  ultimately show ?thesis using mbulk_args_ok [OF d(4) s d(3) _ d(1)] by (simp add: processMultibulkBuffer_def)
next
  case True
  let ?inp = "inp\<lparr>reqtype := Some REDIS_REQ_MULTIBULK\<rparr>"
  have m: "multibulklen inp = 0" "c_argv (clients s c) = []" "length (querybuf inp) \<le> REDIS_INLINE_MAX_SIZE" using True by (simp_all add: in_header_def args_def)
  show ?thesis
  proof (cases "length (dec (length bs)) + 3 \<le> length (querybuf inp)")
    case False
    have e: "querybuf inp @ r = (''*'' @ dec (length bs)) @ CRLF @ concat (map bulk bs) @ z" using True by (simp add: in_header_def encode_request_def)
    have "awaits c bs s ?inp r z" using True False q by (simp add: awaits_def in_header_def)
    moreover have "processMultibulkBuffer c (?inp, s) = Some (False, ?inp, s)"
      using False m strchr_pos_line [OF e, simplified, OF dec_no_line] by (simp add: processMultibulkBuffer_def Let_def)
    ultimately show ?thesis using quiet_refl [OF s(1)] by (intro exI [of _ False]) simp
  next
    case full: True
    note h = header_line [OF True full bs]
    have "processMultibulkBuffer c (?inp, s) = mbulk_args c (length (dec (length bs)) + 1 + 2) (?inp\<lparr>multibulklen := length bs\<rparr>, s)"
      using m h(1-4) bs by (simp add: processMultibulkBuffer_def Let_def request_ok_def)
    moreover have "args c s []" "short_args bs" "bs = [] @ bs" using True bs by (simp_all add: in_header_def request_ok_def)
    ultimately show ?thesis using mbulk_args_ok [OF h(5) s] by simp
  qed
qed

text \<open>The reader always asks for something, and what it gets fits in the buffer.\<close>

lemma dec_short:
  assumes "request_ok bs"
  shows "length (dec (length bs)) \<le> 9" "b \<in> set bs \<Longrightarrow> length (dec (length b)) \<le> 9"
  using assms by (auto simp: request_ok_def intro!: dec_length_le)

lemma awaits_readlen: "awaits c bs s inp r z \<Longrightarrow> 0 < readlen inp"
  unfolding awaits_def
proof (elim disjE exE conjE)
  fix ds cs assume "waiting cs inp r z"
  then show ?thesis by (cases cs) (auto simp: readlen_def REDIS_IOBUF_LEN_def split: if_splits)
qed (simp add: in_header_def readlen_def REDIS_IOBUF_LEN_def)

lemma awaits_piece:
  assumes a: "awaits c bs s inp (x @ r) z" and x: "int (length x) \<le> readlen inp" and bs: "request_ok bs"
  defines "inp' \<equiv> inp\<lparr>querybuf := querybuf inp @ x\<rparr>"
  shows "parsing c bs s inp' r z" "length (querybuf inp') \<le> 512 * 1024 * 1024 + 2"
proof -
  have "parsing c bs s inp' r z \<and> length (querybuf inp') \<le> 512 * 1024 * 1024 + 2"
    using a unfolding awaits_def
  proof (elim disjE exE conjE)
    assume h: "in_header c bs s inp (x @ r) z" "length (querybuf inp) < length (dec (length bs)) + 3"
      and t: "reqtype inp = (if querybuf inp = [] then None else Some REDIS_REQ_MULTIBULK)"
    have "length x \<le> REDIS_IOBUF_LEN" using h(1) x by (simp add: in_header_def readlen_def)
    then have "length (querybuf inp) + length x \<le> REDIS_INLINE_MAX_SIZE"
      using h(2) dec_short(1) [OF bs] by (simp add: REDIS_IOBUF_LEN_def REDIS_INLINE_MAX_SIZE_def)
    then show ?thesis using h(1) t by (auto simp: parsing_def in_header_def inp'_def REDIS_INLINE_MAX_SIZE_def)
  next
    fix ds cs assume d: "bs = ds @ cs" "args c s ds" "waiting cs inp (x @ r) z"
    obtain b cs' where cs: "cs = b # cs'" using d(3) by (cases cs) auto
    have b: "length b \<le> 512 * 1024 * 1024" "length (dec (length b)) \<le> 9" using bs dec_short(2) [OF bs] by (auto simp: d(1) cs request_ok_def)
    have "reading cs 0 inp' r z \<and> length (querybuf inp') \<le> 512 * 1024 * 1024 + 2"
    proof (cases "bulklen inp \<noteq> -1 \<and> REDIS_MBULK_BIG_ARG \<le> length b")
      case True
      then have "length (querybuf inp) + length x \<le> length b + 2" using d(3) x by (auto simp: cs readlen_def Let_def split: if_splits)
      then show ?thesis using True d(3) b by (auto simp: cs reading_def inp'_def)
    next
      case False
      then have "length x \<le> REDIS_IOBUF_LEN" using d(3) x by (auto simp: cs readlen_def split: if_splits)
      then have "length (querybuf inp) + length x \<le> REDIS_INLINE_MAX_SIZE"
        using False d(3) b(2) by (auto simp: cs REDIS_IOBUF_LEN_def REDIS_INLINE_MAX_SIZE_def REDIS_MBULK_BIG_ARG_def split: if_splits)
      then show ?thesis using d(3) by (auto simp: cs reading_def inp'_def REDIS_INLINE_MAX_SIZE_def)
    qed
    then show ?thesis using d cs by (auto simp: parsing_def)
  qed
  then show "parsing c bs s inp' r z" "length (querybuf inp') \<le> 512 * 1024 * 1024 + 2" by auto
qed

lemma header_more:
  assumes "in_header c bs s inp r z"
  shows "length z < length (querybuf inp) + length r"
proof -
  have "querybuf inp @ r = encode_request bs @ z" using assms by (simp add: in_header_def)
  from arg_cong [OF this, of length] show ?thesis by (simp add: encode_request_def)
qed

lemma parsing_more: "parsing c bs s inp r z \<Longrightarrow> length z < length (querybuf inp) + length r"
  unfolding parsing_def
proof (elim disjE exE conjE)
  fix ds cs assume "cs \<noteq> []" and r: "reading cs 0 inp r z"
  then obtain b cs' where cs: "cs = b # cs'" by (cases cs) auto
  have "querybuf inp @ r = (if bulklen inp = -1 then concat (map bulk cs) @ z else b @ CRLF @ concat (map bulk cs') @ z)"
    using r by (simp add: reading_def cs split: if_splits)
  from arg_cong [OF this, of length] show ?thesis by (simp add: cs bulk_def CRLF_def split: if_splits)
qed (simp_all add: header_more)

lemma parsing_empty: "parsing c bs s inp r z \<Longrightarrow> querybuf inp = [] \<Longrightarrow> awaits c bs s inp r z"
  unfolding parsing_def
proof (elim disjE exE conjE)
  fix ds cs assume d: "querybuf inp = []" "bs = ds @ cs" "cs \<noteq> []" "args c s ds" "reading cs 0 inp r z"
  have "waiting cs inp r z" using d(1,3,5) by (cases cs) (auto simp: reading_def)
  then show ?thesis using d(2,4) by (auto simp: awaits_def)
qed (simp_all add: awaits_def)

lemma parsing_star:
  assumes "parsing c bs s inp r z" "querybuf inp \<noteq> []"
  shows "(case reqtype inp of Some t \<Rightarrow> t | None \<Rightarrow> if hd (querybuf inp) = CHR ''*'' then REDIS_REQ_MULTIBULK else REDIS_REQ_INLINE) = REDIS_REQ_MULTIBULK"
  using assms unfolding parsing_def
proof (elim disjE exE conjE)
  assume "in_header c bs s inp r z"
  then have "hd (querybuf inp @ r) = CHR ''*''" by (simp add: in_header_def encode_request_def)
  then have "hd (querybuf inp) = CHR ''*''" using assms(2) by simp
  then show "reqtype inp = None \<Longrightarrow> ?thesis" "reqtype inp = Some REDIS_REQ_MULTIBULK \<Longrightarrow> ?thesis" by simp_all
qed (simp add: reading_def)

lemma resetClient_ok:
  assumes "good s" "c < nclients s" "REDIS_ASKING \<notin> c_flags (clients s c)"
  obtains s' where "resetClient c (inp, s) = Some (inp\<lparr>reqtype := None, multibulklen := 0, bulklen := -1\<rparr>, s')" "quiet c s s'" "args c s' []"
proof -
  obtain s1 where r: "release_all (c_argv (clients s c)) s = Some s1" "quiet c s (update_client c (\<lambda>cl. cl\<lparr>c_argv := []\<rparr>) s1)"
    by (rule release_args [OF assms(1,2)])
  define s2 where "s2 = update_client c (\<lambda>cl. cl\<lparr>c_cmd := []\<rparr>) (update_client c (\<lambda>cl. cl\<lparr>c_argv := []\<rparr>) s1)"
  have q: "quiet c s s2" using quiet_trans [OF r(2) set_cmd_quiet [OF quietD(1) [OF r(2)]]] assms(2) quietD(4) [OF r(2)] by (simp add: s2_def)
  have f: "freeClientArgv c s = Some s2" using r(1) by (simp add: freeClientArgv_def s2_def update_client_def)
  have "REDIS_ASKING \<notin> c_flags (clients s2 c)" using quiet_client(3) [OF q] assms(3) by simp
  then have "update_client c (\<lambda>cl. cl\<lparr>c_flags := c_flags cl - {REDIS_ASKING}\<rparr>) s2 = s2" by (simp add: update_client_def)
  then have "resetClient c (inp, s) = Some (inp\<lparr>reqtype := None, multibulklen := 0, bulklen := -1\<rparr>, s2)"
    using f by (simp add: resetClient_def)
  moreover have "args c s2 []" by (simp add: args_def s2_def update_client_def)
  ultimately show ?thesis using that q by blast
qed

end
