(* ===== verification/Streams.thy ===== *)
theory Streams
  imports RequestRead
begin

text \<open>
  A connection over which a client sends requests, one after the other and without waiting for replies. Whatever
  the pieces are in which the bytes arrive, each request is run once, when its last byte is there.
\<close>

definition stream :: "bytes list list \<Rightarrow> bytes" where
  "stream reqs = concat (map encode_request reqs)"

lemma stream_simps [simp]: "stream [] = []" "stream (bs # reqs) = encode_request bs @ stream reqs" "stream (xs @ ys) = stream xs @ stream ys"
  by (simp_all add: stream_def)

text \<open>The pieces that \<open>read\<close> returns.\<close>

inductive arrives :: "nat \<Rightarrow> (cid \<Rightarrow> redisServer \<Rightarrow> (bool \<times> redisServer) option) \<Rightarrow> cid \<Rightarrow> input \<times> redisServer \<Rightarrow> bytes \<Rightarrow>
    input \<times> redisServer \<Rightarrow> bool" for maxlen process c st where
  nothing: "arrives maxlen process c st [] st"
| piece: "arrives maxlen process c st u (inp, s) \<Longrightarrow> x \<noteq> [] \<Longrightarrow> int (length x) \<le> readlen inp \<Longrightarrow>
    readQueryFromClient maxlen process c (Bytes x) (inp, s) = Some (Some inp', s') \<Longrightarrow> arrives maxlen process c st (u @ x) (inp', s')"

definition fresh_input :: "cid \<Rightarrow> input \<Rightarrow> redisServer \<Rightarrow> bool" where
  "fresh_input c inp s \<longleftrightarrow> inp = no_input \<and> args c s []"

text \<open>Between two pieces, with \<open>r\<close> to arrive; and while a piece is processed.\<close>

fun waits :: "cid \<Rightarrow> bytes list list \<Rightarrow> input \<Rightarrow> redisServer \<Rightarrow> bytes \<Rightarrow> bool" where
  "waits c [] inp s r \<longleftrightarrow> fresh_input c inp s \<and> r = []"
| "waits c (bs # reqs) inp s r \<longleftrightarrow> awaits c bs s inp r (stream reqs)"

fun works_on :: "cid \<Rightarrow> bytes list list \<Rightarrow> input \<Rightarrow> redisServer \<Rightarrow> bytes \<Rightarrow> bool" where
  "works_on c [] inp s r \<longleftrightarrow> fresh_input c inp s \<and> r = []"
| "works_on c (bs # reqs) inp s r \<longleftrightarrow> parsing c bs s inp r (stream reqs)"

lemma works_on_empty: "works_on c reqs inp s r \<Longrightarrow> querybuf inp = [] \<Longrightarrow> waits c reqs inp s r"
  by (cases reqs) (simp_all add: parsing_empty)

lemma works_on_next:
  assumes "args c s []" "querybuf inp @ r = stream reqs" "length (querybuf inp) \<le> REDIS_INLINE_MAX_SIZE"
  shows "works_on c reqs (inp\<lparr>reqtype := None, multibulklen := 0, bulklen := -1\<rparr>) s r"
  using assms by (cases reqs) (simp_all add: fresh_input_def no_input_def parsing_def in_header_def)

lemma waits_start:
  assumes "fresh_input c inp s"
  shows "waits c reqs inp s (stream reqs)"
proof (cases reqs)
  case (Cons bs reqs')
  then show ?thesis using assms by (simp add: fresh_input_def awaits_def in_header_def no_input_def)
qed (use assms in simp)

lemma waits_readlen:
  assumes "waits c reqs inp s r"
  shows "0 < readlen inp"
proof (cases reqs)
  case Nil
  then show ?thesis using assms by (simp add: fresh_input_def no_input_def readlen_def REDIS_IOBUF_LEN_def)
qed (use assms awaits_readlen in auto)

text \<open>All that is missing of the requests is less than the next of them and what follows it.\<close>

lemma waiting_more: "waiting cs inp r z \<Longrightarrow> length z < length r \<and> length r \<le> length (concat (map bulk cs)) + length z"
proof (cases cs)
  case (Cons b cs')
  assume w: "waiting cs inp r z"
  then have "querybuf inp @ r = (if bulklen inp = -1 then concat (map bulk cs) @ z else b @ CRLF @ concat (map bulk cs') @ z)"
    using Cons by (simp split: if_splits)
  from arg_cong [OF this, of length] w Cons show ?thesis by (auto simp: bulk_def CRLF_def split: if_splits)
qed simp

lemma awaits_more:
  assumes "awaits c bs s inp r z"
  shows "length z < length r \<and> length r \<le> length (encode_request bs) + length z"
  using assms unfolding awaits_def
proof (elim disjE exE conjE)
  assume h: "in_header c bs s inp r z" "length (querybuf inp) < length (dec (length bs)) + 3"
  have "querybuf inp @ r = encode_request bs @ z" using h(1) by (simp add: in_header_def)
  from arg_cong [OF this, of length] h(2) show ?thesis by (simp add: encode_request_def CRLF_def)
next
  fix ds cs assume "bs = ds @ cs" "waiting cs inp r z"
  then show ?thesis using waiting_more [of cs inp r z] by (simp add: encode_request_def)
qed

subsection \<open>The server at the other end\<close>

lemma call_seq_append:
  "call_seq f (xs @ ys) v = do { (as, v1) \<leftarrow> call_seq f xs v; (bs, v2) \<leftarrow> call_seq f ys v1; Some (as @ bs, v2) }"
proof (induction xs arbitrary: v)
  case (Cons x xs)
  then show ?case by (cases "f x v") (auto split: Option.bind_splits)
qed (auto split: Option.bind_splits)

text \<open>Of \<open>reqs\<close>, the requests \<open>ds\<close> have been run since \<open>s\<close>, and \<open>rest\<close> have not.\<close>

definition progress :: "(redisServer \<Rightarrow> bool) \<Rightarrow> (redisServer \<Rightarrow> 'v) \<Rightarrow> (bytes list \<Rightarrow> 'v \<Rightarrow> (reply \<times> 'v) option) \<Rightarrow> cid \<Rightarrow> bytes list list \<Rightarrow>
    redisServer \<Rightarrow> bytes list list \<Rightarrow> bytes list list \<Rightarrow> redisServer \<Rightarrow> bool" where
  "progress invar view exec c reqs s ds rest s' \<longleftrightarrow> reqs = ds @ rest \<and> invar s' \<and>
     (\<exists>ts. call_seq exec ds (view s) = Some (ts, view s') \<and> out s' c = out s c @ concat (map print_reply ts))"

text \<open>
  What the reader relies on: \<open>process\<close> runs the command of which the client holds the arguments, if \<open>exec\<close> says
  what it does with the contents of the server, and appends the reply to the output.
\<close>

locale command_server =
  fixes process :: "cid \<Rightarrow> redisServer \<Rightarrow> (bool \<times> redisServer) option"
    and c :: cid
    and invar :: "redisServer \<Rightarrow> bool"
    and view :: "redisServer \<Rightarrow> 'v"
    and exec :: "bytes list \<Rightarrow> 'v \<Rightarrow> (reply \<times> 'v) option"
  assumes inv_good: "invar s \<Longrightarrow> good s \<and> c < nclients s \<and> {REDIS_BLOCKED, REDIS_CLOSE_AFTER_REPLY, REDIS_ASKING} \<inter> c_flags (clients s c) = {}"
    and inv_quiet: "invar s \<Longrightarrow> quiet c s s' \<Longrightarrow> invar s' \<and> view s' = view s"
    and process_ok: "invar s \<Longrightarrow> args c s bs \<Longrightarrow> exec bs (view s) = Some (t, v) \<Longrightarrow>
      \<exists>s'. process c s = Some (True, s') \<and> invar s' \<and> view s' = v \<and> out s' c = out s c @ print_reply t"
begin

lemma round_ok:
  assumes "invar s" "args c s bs" "exec bs (view s) = Some (t, v)"
  shows "\<exists>s1 s2. process c s = Some (True, s1) \<and>
    resetClient c (inp, s1) = Some (inp\<lparr>reqtype := None, multibulklen := 0, bulklen := -1\<rparr>, s2) \<and>
    invar s2 \<and> view s2 = v \<and> out s2 c = out s c @ print_reply t \<and> args c s2 []"
proof -
  obtain s1 where 1: "process c s = Some (True, s1)" "invar s1" "view s1 = v" "out s1 c = out s c @ print_reply t"
    using process_ok [OF assms] by blast
  have g: "good s1" "c < nclients s1" "REDIS_ASKING \<notin> c_flags (clients s1 c)" using inv_good [OF 1(2)] by auto
  obtain s2 where 2: "resetClient c (inp, s1) = Some (inp\<lparr>reqtype := None, multibulklen := 0, bulklen := -1\<rparr>, s2)" "quiet c s1 s2" "args c s2 []"
    by (rule resetClient_ok [OF g]) (rule that)
  show ?thesis using 1 2 inv_quiet [OF 1(2) 2(2)] quietD(8) [OF 2(2) g(2)] by auto
qed

lemma input_loop_ok:
  assumes "works_on c reqs inp s r" "invar s" "\<forall>bs\<in>set reqs. request_ok bs" "call_seq exec reqs (view s) \<noteq> None"
    "length (querybuf inp) \<le> n"
  shows "\<exists>inp' s' ds rest. input_loop n process c (inp, s) = Some (inp', s') \<and> progress invar view exec c reqs s ds rest s' \<and> waits c rest inp' s' r"
  using assms
proof (induction n arbitrary: reqs inp s)
  case 0
  then have "waits c reqs inp s r" by (simp add: works_on_empty)
  moreover have "progress invar view exec c reqs s [] reqs s" using 0 by (simp add: progress_def)
  ultimately show ?case using 0 by auto
next
  case (Suc n)
  note g = inv_good [OF Suc.prems(2)]
  show ?case
  proof (cases "querybuf inp = []")
    case True
    have "progress invar view exec c reqs s [] reqs s" using Suc.prems by (simp add: progress_def)
    then show ?thesis using works_on_empty [OF Suc.prems(1) True] True by auto
  next
    case q: False
    then obtain bs reqs' where reqs: "reqs = bs # reqs'" using Suc.prems(1) by (cases reqs) (auto simp: fresh_input_def no_input_def)
    have p: "parsing c bs s inp r (stream reqs')" and bs: "request_ok bs" using Suc.prems(1,3) by (simp_all add: reqs)
    obtain ok inp1 s1 where 1: "processMultibulkBuffer c (inp\<lparr>reqtype := Some REDIS_REQ_MULTIBULK\<rparr>, s) = Some (ok, inp1, s1)" "quiet c s s1"
        "if ok then args c s1 bs \<and> multibulklen inp1 = 0 \<and> bulklen inp1 = -1 \<and> querybuf inp1 @ r = stream reqs' \<and>
           length (querybuf inp1) \<le> REDIS_INLINE_MAX_SIZE
         else awaits c bs s1 inp1 r (stream reqs')"
      using processMultibulkBuffer_ok [OF p _ _ bs q] g by blast
    note i1 = inv_quiet [OF Suc.prems(2) 1(2)] and o1 = quietD(8) [OF 1(2) conjunct1 [OF conjunct2 [OF g]]]
    note e = parsing_star [OF p q] q g
    show ?thesis
    proof (cases ok)
      case False
      then have "input_loop (Suc n) process c (inp, s) = Some (inp1, s1)" using e 1(1) by (simp add: Let_def)
      moreover have "progress invar view exec c reqs s [] reqs s1" using i1 o1 by (simp add: progress_def)
      moreover have "waits c reqs inp1 s1 r" using False 1(3) reqs by simp
      ultimately show ?thesis by blast
    next
      case True
      then have a: "args c s1 bs" "querybuf inp1 @ r = stream reqs'" "length (querybuf inp1) \<le> REDIS_INLINE_MAX_SIZE" using 1(3) by simp_all
      obtain t v where tv: "exec bs (view s) = Some (t, v)" using Suc.prems(4) by (cases "exec bs (view s)") (auto simp: reqs)
      have t: "exec bs (view s1) = Some (t, v)" "call_seq exec reqs' v \<noteq> None"
        using Suc.prems(4) i1 tv by (cases "call_seq exec reqs' v"; simp add: reqs)+
      let ?inp2 = "inp1\<lparr>reqtype := None, multibulklen := 0, bulklen := -1\<rparr>"
      obtain s2 s3 where 2: "process c s1 = Some (True, s2)" "resetClient c (inp1, s2) = Some (?inp2, s3)"
          "invar s3" "view s3 = v" "out s3 c = out s1 c @ print_reply t" "args c s3 []"
        using round_ok [OF conjunct1 [OF i1] a(1) t(1), of inp1] by blast
      have ne: "c_argv (clients s1 c) \<noteq> []" using a(1) bs by (auto simp: args_def request_ok_def)
      have l: "input_loop (Suc n) process c (inp, s) = input_loop n process c (?inp2, s3)"
        using e 1(1) True ne 2(1,2) by (simp add: Let_def)
      have "length (querybuf inp1) < length (querybuf inp)"
        using parsing_more [OF p] arg_cong [OF a(2), of length] by simp
      then obtain inp' s' ds rest where IH: "input_loop n process c (?inp2, s3) = Some (inp', s')" "progress invar view exec c reqs' s3 ds rest s'" "waits c rest inp' s' r"
        using Suc.IH [OF works_on_next [OF 2(6) a(2,3)] 2(3)] Suc.prems(3,5) t(2) 2(4) by (auto simp: reqs)
      have "progress invar view exec c reqs s (bs # ds) rest s'" using IH(2) t(1) i1 2(4,5) o1 reqs by (auto simp: progress_def)
      then show ?thesis using l IH(1,3) by auto
    qed
  qed
qed

lemma piece_ok:
  assumes "waits c reqs inp s (x @ r)" "invar s" "\<forall>bs\<in>set reqs. request_ok bs" "call_seq exec reqs (view s) \<noteq> None"
    "x \<noteq> []" "int (length x) \<le> readlen inp" "512 * 1024 * 1024 + 2 \<le> maxlen"
  shows "\<exists>inp' s' ds rest. readQueryFromClient maxlen process c (Bytes x) (inp, s) = Some (Some inp', s') \<and>
    progress invar view exec c reqs s ds rest s' \<and> waits c rest inp' s' r"
proof -
  let ?inp = "inp\<lparr>querybuf := querybuf inp @ x\<rparr>"
  obtain bs reqs' where reqs: "reqs = bs # reqs'" using assms(1,5) by (cases reqs) auto
  have "awaits c bs s inp (x @ r) (stream reqs')" "request_ok bs" using assms(1,3) by (simp_all add: reqs)
  note p = awaits_piece [OF this(1) assms(6) this(2)]
  have "works_on c reqs ?inp s r" using p(1) by (simp add: reqs)
  from input_loop_ok [OF this assms(2-4) order_refl] show ?thesis
    using p(2) assms(7) by (auto simp: readQueryFromClient_def processInputBuffer_def Let_def)
qed

lemma arrives_ok:
  assumes "arrives maxlen process c (no_input, s) u st" "u @ r = stream reqs" "invar s" "args c s []"
    "\<forall>bs\<in>set reqs. request_ok bs" "call_seq exec reqs (view s) \<noteq> None" "512 * 1024 * 1024 + 2 \<le> maxlen"
  shows "\<exists>ds rest. progress invar view exec c reqs s ds rest (snd st) \<and> waits c rest (fst st) (snd st) r"
  using assms
proof (induction u st arbitrary: r rule: arrives.induct)
  case nothing
  then have "progress invar view exec c reqs s [] reqs s" "waits c reqs no_input s r"
    using waits_start [of c no_input s reqs] by (simp_all add: fresh_input_def progress_def)
  then show ?case by auto
next
  case (piece u inp s1 x inp' s')
  obtain ds rest where IH: "progress invar view exec c reqs s ds rest s1" "waits c rest inp s1 (x @ r)"
    using piece.IH [of "x @ r"] piece.prems by auto
  have i: "invar s1" and reqs: "reqs = ds @ rest" using IH(1) by (simp_all add: progress_def)
  obtain ts where ts: "call_seq exec ds (view s) = Some (ts, view s1)" "out s1 c = out s c @ concat (map print_reply ts)"
    using IH(1) by (auto simp: progress_def)
  have "call_seq exec rest (view s1) \<noteq> None" using piece.prems(5) ts(1) by (cases "call_seq exec rest (view s1)") (auto simp: reqs call_seq_append)
  then obtain inp2 s2 ds2 rest2 where 2: "readQueryFromClient maxlen process c (Bytes x) (inp, s1) = Some (Some inp2, s2)"
      "progress invar view exec c rest s1 ds2 rest2 s2" "waits c rest2 inp2 s2 r"
    using piece_ok [OF IH(2) i _ _ piece.hyps(2,3) piece.prems(6)] piece.prems(4) by (auto simp: reqs)
  have "progress invar view exec c reqs s (ds @ ds2) rest2 s2"
    using 2(2) ts by (auto simp: progress_def reqs call_seq_append)
  then show ?case using 2(1,3) piece.hyps(4) by auto
qed

end

end
