(* ===== verification/Connections.thy ===== *)
theory Connections
  imports Streams
begin

text \<open>
  The server at the other end of a connection: \<open>processCommand\<close> with the table of commands, for a client that may
  use it and is in no transaction.
\<close>

subsection \<open>The table of commands\<close>

lemma find_command_append: "find_command xs name = Some r \<Longrightarrow> find_command (xs @ ys) name = Some r"
  unfolding find_command_def by (induction xs) auto

lemma find_command_name:
  assumes "r \<in> set redisCommandTable"
  shows "find_command redisCommandTable (cmd_name r) = Some r"
proof -
  have d: "distinct (map (map tolower \<circ> cmd_name) redisCommandTable)"
    by (simp add: redisCommandTable_def row_def) code_simp
  have "find (\<lambda>x. map tolower (cmd_name x) = map tolower (cmd_name r)) rs = Some r"
    if "distinct (map (map tolower \<circ> cmd_name) rs)" "r \<in> set rs" for rs
    using that by (induction rs) (auto simp: image_iff)
  then show ?thesis using d assms by (simp add: find_command_def strcaseeq_def)
qed

lemma find_command_commands:
  "find_command redisCommandTable name = Some r \<Longrightarrow> find_command (commands other duration) name = Some r"
  by (simp add: commands_def Let_def find_command_append)

definition arity_of :: "bytes \<Rightarrow> int option" where
  "arity_of name = map_option cmd_arity (find (\<lambda>r. cmd_name r = name) redisCommandTable)"

lemma arity_of_row: "r \<in> set redisCommandTable \<Longrightarrow> arity_of (cmd_name r) = Some (cmd_arity r)"
  using find_row [of r] by (simp add: arity_of_def)

lemma arity_of_names:
  "arity_of ''get'' = Some 2" "arity_of ''strlen'' = Some 2" "arity_of ''exists'' = Some 2" "arity_of ''set'' = Some (-3)"
  "arity_of ''setnx'' = Some 3" "arity_of ''setex'' = Some 4" "arity_of ''psetex'' = Some 4" "arity_of ''append'' = Some 3"
  "arity_of ''incr'' = Some 2" "arity_of ''decr'' = Some 2" "arity_of ''incrby'' = Some 3" "arity_of ''decrby'' = Some 3"
  by (simp_all add: arity_of_def redisCommandTable_def row_def)

lemma kv_run_arity:
  assumes "r \<in> set redisCommandTable" "kv_run now (cmd_name r) as m = Some (t, m')"
  shows "\<not> wrong_arity r (int (length (name # as)))"
  using assms(2) arity_of_row [OF assms(1)]
  by (cases rule: kv_run_cases) (simp_all add: arity_of_names wrong_arity_def)

definition kv_names :: "bytes list" where
  "kv_names = [''get'', ''strlen'', ''exists'', ''set'', ''setnx'', ''setex'', ''psetex'', ''append'', ''incr'', ''decr'', ''incrby'', ''decrby'']"

lemma kv_run_not_quit:
  assumes "kv_run now x as m = Some (t, m')"
  shows "\<not> strcaseeq x ''quit''"
proof -
  have "x \<in> set kv_names" using assms by (cases rule: kv_run_cases) (simp_all add: kv_names_def)
  moreover have "\<forall>x\<in>set kv_names. \<not> strcaseeq x ''quit''" by code_simp
  ultimately show ?thesis by blast
qed

subsection \<open>A client that may run commands\<close>

definition admits :: "policy \<Rightarrow> int \<Rightarrow> cid \<Rightarrow> redisServer \<Rightarrow> bool" where
  "admits p duration c s \<longleftrightarrow>
     (requirepass p \<longrightarrow> authenticated p c) \<and> \<not> lua_timedout p \<and>
     (repl_min_slaves_to_write p = 0 \<or> repl_min_slaves_max_lag p = 0 \<or> repl_min_slaves_to_write p \<le> repl_good_slaves_count p) \<and>
     maxmemory s = 0 \<and> \<not> masterhost s \<and> \<not> loading s \<and>
     (slowlog_log_slower_than s < 0 \<or> duration < slowlog_log_slower_than s \<and> length (slowlog s) \<le> slowlog_max_len s) \<and>
     c_flags (clients s c) \<inter> {REDIS_BLOCKED, REDIS_CLOSE_AFTER_REPLY, REDIS_ASKING, REDIS_MULTI, REDIS_FORCE_AOF, REDIS_FORCE_REPL} = {} \<and>
     c_pubsub_channels (clients s c) = [] \<and> c_pubsub_patterns (clients s c) = []"

lemma admits_cong:
  assumes "settings s' = settings s" "c_flags (clients s' c) - {REDIS_DIRTY_CAS} = c_flags (clients s c) - {REDIS_DIRTY_CAS}"
    "c_pubsub_channels (clients s' c) = c_pubsub_channels (clients s c)" "c_pubsub_patterns (clients s' c) = c_pubsub_patterns (clients s c)"
  shows "admits p duration c s' = admits p duration c s"
proof -
  let ?F = "{REDIS_BLOCKED, REDIS_CLOSE_AFTER_REPLY, REDIS_ASKING, REDIS_MULTI, REDIS_FORCE_AOF, REDIS_FORCE_REPL}"
  have "c_flags (clients s' c) \<inter> ?F = (c_flags (clients s' c) - {REDIS_DIRTY_CAS}) \<inter> ?F"
    "c_flags (clients s c) \<inter> ?F = (c_flags (clients s c) - {REDIS_DIRTY_CAS}) \<inter> ?F" by auto
  then have "c_flags (clients s' c) \<inter> ?F = c_flags (clients s c) \<inter> ?F" using assms(2) by simp
  then show ?thesis using assms(1,3,4) by (simp add: admits_def settings_def)
qed

lemma admits_quiet: "quiet c s s' \<Longrightarrow> admits p duration c s' = admits p duration c s"
  by (rule admits_cong) (simp_all add: quietD(3) quiet_client)

lemma answered_client:
  assumes "answered c t d f s s'"
  shows "c_flags (clients s' x) - {REDIS_DIRTY_CAS} = c_flags (clients s x) - {REDIS_DIRTY_CAS}" "c_cmd (clients s' x) = c_cmd (clients s x)"
    "c_pubsub_channels (clients s' x) = c_pubsub_channels (clients s x)" "c_pubsub_patterns (clients s' x) = c_pubsub_patterns (clients s x)"
    "c_db (clients s' x) = c_db (clients s x)" "c_watched_keys (clients s' x) = c_watched_keys (clients s x)"
    "accepts (clients s' x) = accepts (clients s x)"
proof -
  have u: "unflag (clients s' x) = (unflag (clients s x))
      \<lparr>c_argv := c_argv (clients s' x), c_buf := c_buf (clients s' x), c_reply := c_reply (clients s' x)\<rparr>"
    using assms by (simp add: answered_def)
  then show "c_flags (clients s' x) - {REDIS_DIRTY_CAS} = c_flags (clients s x) - {REDIS_DIRTY_CAS}" "c_cmd (clients s' x) = c_cmd (clients s x)"
    "c_pubsub_channels (clients s' x) = c_pubsub_channels (clients s x)" "c_pubsub_patterns (clients s' x) = c_pubsub_patterns (clients s x)"
    "c_db (clients s' x) = c_db (clients s x)" "c_watched_keys (clients s' x) = c_watched_keys (clients s x)"
    by (cases "clients s x"; cases "clients s' x"; simp add: unflag_def)+
  show "accepts (clients s' x) = accepts (clients s x)"
    using u by (cases "clients s x"; cases "clients s' x") (auto simp: unflag_def accepts_def)
qed

subsection \<open>What is propagated\<close>

lemma obj_str_vals:
  assumes "server_inv s" "vals s i = Some (Str b)"
  shows "obj_str s i = Some b"
proof -
  obtain ob where ob: "objs s i = Some ob" "value_of ob = Str b" using assms(2) by (auto simp: vals_def)
  then show ?thesis using live(1) [OF assms(1) ob(1)]
    by (auto simp: obj_str_def value_of_def string_chars_def obj_ok_def content_def obj_sds_def obj_long_def sdsEncodedObject_def ll2string_dec split: if_splits)
qed

lemma arg_strings_vals:
  assumes "server_inv s" "map (vals s) is = map (Some \<circ> Str) bs"
  shows "arg_strings s is = Some bs"
  using assms(2)
proof (induction "is" arbitrary: bs)
  case (Cons i "is")
  then show ?case by (cases bs) (auto simp: obj_str_vals [OF assms(1)])
qed simp

lemma propagate_quiet:
  assumes "good s" "map (vals s) argv = map (Some \<circ> Str) bs"
  obtains s' where "propagate d argv s = Some s'" "quiet c s s'" "clients s' = clients s"
proof -
  let ?s = "s\<lparr>propagated := propagated s @ [(d, bs)]\<rparr>"
  have r: "refs ?s = refs s" by (simp add: fun_eq_iff refs_def pubsub_refs_def)
  have "server_inv ?s" using goodD(1) [OF assms(1)] by (simp add: server_inv_def counted_def shared_ok_def r)
  then have g: "good ?s" using assms(1) by (simp add: good_def db_ok_def)
  have v: "vals ?s = vals s" by (simp add: vals_def fun_eq_iff)
  have "out ?s c' = out s c'" for c' by (rule out_update_obj) (simp_all add: v)
  moreover have "same_dbs s ?s" by (rule same_dbsI [OF goodD(1) [OF assms(1)]]) (simp_all add: v)
  ultimately have "quiet c s ?s" using g by (simp add: quiet_def settings_def)
  then show ?thesis using that [of ?s] arg_strings_vals [OF goodD(1) [OF assms(1)] assms(2)] by (simp add: propagate_def)
qed

subsection \<open>Running a command\<close>

lemma args_vals:
  assumes "serving c d s" "args c s bs"
  shows "map (vals s) (c_argv (clients s c)) = map (Some \<circ> Str) bs"
proof (rule nth_equalityI)
  show l: "length (map (vals s) (c_argv (clients s c))) = length (map (Some \<circ> Str) bs)"
    using assms(2) by (auto simp: args_def dest: map_eq_imp_length_eq)
  fix n assume "n < length (map (vals s) (c_argv (clients s c)))"
  then have n: "n < length bs" "n < length (c_argv (clients s c))" using l by simp_all
  obtain ob where "objs s (c_argv (clients s c) ! n) = Some ob" "is_str ob" "ob_ptr ob = Sds (bs ! n)"
    by (rule named_obj [OF servingD(5) [OF assms(1)] argsD(2) [OF assms n(1)]])
  then show "map (vals s) (c_argv (clients s c)) ! n = map (Some \<circ> Str) bs ! n" using n by (simp add: vals_def value_of_def content_def)
qed

lemma call_command_ok:
  assumes s: "serving c d s" "args c s (name # as)" "admits p duration c s"
    and r: "find_command table (c_cmd (clients s c)) = Some r" "r \<in> set redisCommandTable"
    and t: "kv_run (mstime s) (cmd_name r) as (store s d) = Some (t, m)" "sendable t"
  obtains s1 s' where "call table True True duration c s = Some s'" "answered c (print_reply t) d m s s1" "quiet c s1 s'"
    "clients s' = clients s1"
proof -
  let ?forced = "{REDIS_FORCE_AOF, REDIS_FORCE_REPL}"
  obtain s1 where 1: "cmd_proc r c s = Some s1" and a: "answered c (print_reply t) d m s s1"
    using string_command_answered [OF s(1,2) r(2) t] by blast
  note A = answeredD [OF a s(1)] and C = answered_client [OF a]
  have f: "c_flags (clients s c) \<inter> ?forced = {}" using s(3) by (auto simp: admits_def)
  have ad: "admits p duration c s1" using s(3) admits_cong [OF A(6) C(1,3,4)] by simp
  then have f1: "c_flags (clients s1 c) \<inter> ?forced = {}" by (auto simp: admits_def)
  have id: "update_client c (\<lambda>cl. cl\<lparr>c_flags := c_flags cl - ?forced\<rparr>) s = s" using f by (simp add: update_client_def Diff_triv)
  have slow: "slowlogPushEntryIfNeeded (c_argv (clients s1 c)) duration s1 = Some s1"
    using ad by (auto simp: admits_def slowlogPushEntryIfNeeded_def)
  have load: "\<not> loading s1" using ad by (simp add: admits_def)
  have "map (vals s1) (c_argv (clients s1 c)) = map (Some \<circ> Str) (name # as)"
    using args_vals [OF s(1,2)] a by (simp add: answered_def holds_def)
  then obtain s2 where 2: "propagate (c_db (clients s1 c)) (c_argv (clients s1 c)) s1 = Some s2" "quiet c s1 s2" "clients s2 = clients s1"
    by (rule propagate_quiet [OF A(1)])
  define s3 where "s3 = (if dirty s1 \<noteq> dirty s then s2 else s1)"
  have q3: "quiet c s1 s3" "clients s3 = clients s1" using 2 quiet_refl [OF A(1)] by (simp_all add: s3_def)
  have id3: "update_client c (\<lambda>cl. cl\<lparr>c_flags := c_flags cl - ?forced \<union> (c_flags (clients s c) \<inter> ?forced)\<rparr>) s3 = s3"
    using f f1 by (simp add: update_client_def q3(2) Diff_triv)
  have e: "call table True True duration c s =
      (if dirty s1 \<noteq> dirty s then propagate (c_db (clients s1 c)) (c_argv (clients s1 c)) s1 else Some s1) \<bind>
      (\<lambda>s3. Some (update_client c (\<lambda>cl. cl\<lparr>c_flags := c_flags cl - ?forced \<union> (c_flags (clients s c) \<inter> ?forced)\<rparr>) s3))"
    using r(1) 1 f1 slow load by (simp add: call_def id Let_def)
  have "call table True True duration c s = Some s3"
  proof (cases "dirty s1 = dirty s")
    case True
    then have "s3 = s1" by (simp add: s3_def)
    then show ?thesis using True e id3 by simp
  next
    case False
    then have "s3 = s2" by (simp add: s3_def)
    then show ?thesis using False e id3 2(1) by simp
  qed
  then show ?thesis using that a q3 by blast
qed

definition request_spec :: "int \<Rightarrow> bytes list \<Rightarrow> kvstore \<Rightarrow> (reply \<times> kvstore) option" where
  "request_spec now bs m =
     (case bs of
        [] \<Rightarrow> None
      | name # as \<Rightarrow> if NUL \<in> set name then None
          else do {
            r \<leftarrow> find_command redisCommandTable name;
            (t, m') \<leftarrow> kv_run now (cmd_name r) as m;
            (if sendable t then Some (t, m') else None)
          })"

lemma request_specD:
  assumes "request_spec now bs m = Some (t, m')"
  obtains name as r where "bs = name # as" "c_str name = name" "find_command redisCommandTable name = Some r"
    "kv_run now (cmd_name r) as m = Some (t, m')" "sendable t"
proof -
  obtain name as r where r: "bs = name # as" "NUL \<notin> set name" "find_command redisCommandTable name = Some r"
      "kv_run now (cmd_name r) as m = Some (t, m')" "sendable t"
    using assms by (auto simp: request_spec_def split: list.splits if_splits Option.bind_splits)
  have "c_str name = name" using r(2) by (auto simp: c_str_def takeWhile_eq_all_conv)
  then show ?thesis using that r by blast
qed

lemma processCommand_ok:
  assumes s: "serving c d s" "args c s bs" "admits p duration c s" and t: "request_spec (mstime s) bs (store s d) = Some (t, m)"
  obtains s0 s1 s' where "processCommand p other duration c s = Some (True, s')" "quiet c s s0" "answered c (print_reply t) d m s0 s1" "quiet c s1 s'"
proof -
  obtain name as r where r: "bs = name # as" "c_str name = name" "find_command redisCommandTable name = Some r"
      "kv_run (mstime s) (cmd_name r) as (store s d) = Some (t, m)" "sendable t"
    by (rule request_specD [OF t]) (rule that)
  have rt: "r \<in> set redisCommandTable" by (rule find_command_in [OF r(3)])
  note S = servingD [OF s(1)]
  define s0 where "s0 = update_client c (\<lambda>cl. cl\<lparr>c_cmd := cmd_name r\<rparr>) s"
  have q0: "quiet c s s0" unfolding s0_def by (rule set_cmd_quiet [OF S(1,6)])
  have s0: "serving c d s0" "admits p duration c s0" using quiet_serving [OF q0 s(1)] admits_quiet [OF q0] s(3) by simp_all
  have "sds_at s0 = sds_at s" by (simp add: s0_def sds_at_def fun_eq_iff update_client_def)
  then have a0: "args c s0 (name # as)" using s(2) r(1) by (simp add: args_def) (simp add: s0_def update_client_def)
  have cmd: "find_command (commands other duration) (c_cmd (clients s0 c)) = Some r"
    using find_command_commands [OF find_command_name [OF rt]] by (simp add: s0_def update_client_def)
  have k0: "kv_run (mstime s0) (cmd_name r) as (store s0 d) = Some (t, m)" using r(4) quietD(6) [OF q0] quiet_store [OF q0 S(4)] by simp
  obtain s1 s' where c: "call (commands other duration) True True duration c s0 = Some s'" "answered c (print_reply t) d m s0 s1" "quiet c s1 s'"
    by (rule call_command_ok [OF s0(1) a0 s0(2) cmd rt k0 r(5)]) (rule that)
  have n: "arg c 0 s = Some (c_argv (clients s c) ! 0)" "sds_at s (c_argv (clients s c) ! 0) = Some name"
    using argsD(1,4) [OF s(1,2), of 0] r(1) by simp_all
  have l: "length (c_argv (clients s c)) = length (name # as)" using s(2) r(1) by (auto simp: args_def dest: map_eq_imp_length_eq)
  have "strcaseeq (cmd_name r) name" using r(3) by (auto simp: find_command_def find_Some_iff)
  then have nq: "\<not> strcaseeq (c_str name) ''quit''" using kv_run_not_quit [OF r(4)] r(2) by (simp add: strcaseeq_def)
  have w: "\<not> wrong_arity r (int (length (c_argv (clients s c))))" using kv_run_arity [OF rt r(4)] l by simp
  have A: "\<not> (requirepass p \<and> \<not> authenticated p c)" "\<not> lua_timedout p" "maxmemory s0 = 0" "\<not> masterhost s0" "\<not> loading s0"
      "\<not> (repl_min_slaves_to_write p > 0 \<and> repl_min_slaves_max_lag p > 0 \<and> repl_good_slaves_count p < repl_min_slaves_to_write p)"
      "REDIS_MULTI \<notin> c_flags (clients s0 c)" "c_pubsub_channels (clients s0 c) = []" "c_pubsub_patterns (clients s0 c) = []"
    using s0(2) by (auto simp: admits_def)
  have "processCommand p other duration c s = Some (True, s')"
    using find_command_commands [OF r(3), of other duration] A
    by (simp add: processCommand_def Let_def n nq w s0_def [symmetric] c(1) cong: if_cong) (use A(1,6) in auto)
  then show ?thesis using that q0 c(2,3) by blast
qed

subsection \<open>The connection\<close>

definition connected :: "policy \<Rightarrow> int \<Rightarrow> cid \<Rightarrow> dbid \<Rightarrow> redisServer \<Rightarrow> redisServer \<Rightarrow> bool" where
  "connected p duration c d s0 s \<longleftrightarrow>
     serving c d s \<and> admits p duration c s \<and> settings s = settings s0 \<and> (\<forall>d'<dbnum s0. d' \<noteq> d \<longrightarrow> store s d' = store s0 d') \<and>
     (\<forall>c'<nclients s0. c' \<noteq> c \<longrightarrow> out s c' = out s0 c')"

lemma connected_quiet:
  assumes "connected p duration c d s0 s" "quiet c s s'"
  shows "connected p duration c d s0 s'" "store s' d = store s d"
  using assms quiet_serving [OF assms(2)] admits_quiet [OF assms(2)] quietD [OF assms(2)] quiet_store [OF assms(2)]
  by (auto simp: connected_def settings_def serving_def)

interpretation redis: command_server "processCommand p other duration" c "connected p duration c d s0" "\<lambda>s. store s d" "request_spec (mstime s0)"
  for p other duration c d s0
proof
  fix s assume "connected p duration c d s0 s"
  then show "good s \<and> c < nclients s \<and> {REDIS_BLOCKED, REDIS_CLOSE_AFTER_REPLY, REDIS_ASKING} \<inter> c_flags (clients s c) = {}"
    using servingD(1,6) [of c d s] by (auto simp: connected_def admits_def)
next
  fix s s' assume "connected p duration c d s0 s" "quiet c s s'"
  then show "connected p duration c d s0 s' \<and> store s' d = store s d" using connected_quiet by blast
next
  fix s bs t v
  assume i: "connected p duration c d s0 s" and a: "args c s bs" and t: "request_spec (mstime s0) bs (store s d) = Some (t, v)"
  have s: "serving c d s" "admits p duration c s" "mstime s = mstime s0" using i by (auto simp: connected_def settings_def)
  obtain s1 s2 s' where 1: "processCommand p other duration c s = Some (True, s')" "quiet c s s1" "answered c (print_reply t) d v s1 s2" "quiet c s2 s'"
    by (rule processCommand_ok [OF s(1) a s(2), of t v other]) (use t s(3) in \<open>simp_all add: that\<close>)
  note i1 = connected_quiet [OF i 1(2)]
  have s1: "serving c d s1" using i1(1) by (simp add: connected_def)
  note A = answeredD [OF 1(3) s1] and n = settings_def
  have "connected p duration c d s0 s2"
    using i1(1) A admits_cong [OF A(6) answered_client(1,3,4) [OF 1(3)]] by (auto simp: connected_def settings_def)
  note i2 = connected_quiet [OF this 1(4)]
  have c: "c < nclients s" "c < nclients s2" using servingD(6) [OF s(1)] servingD(6) [OF A(7)] by auto
  then have "out s' c = out s c @ print_reply t" using quietD(8) [OF 1(2) c(1)] quietD(8) [OF 1(4) c(2)] A(2) by simp
  then show "\<exists>s'. processCommand p other duration c s = Some (True, s') \<and> connected p duration c d s0 s' \<and> store s' d = v \<and>
      out s' c = out s c @ print_reply t"
    using 1(1) i2 A(4) by auto
qed

lemma call_seq_length: "call_seq f xs v = Some (ts, v') \<Longrightarrow> length ts = length xs"
  by (induction xs arbitrary: v ts) (auto split: Option.bind_splits)

lemma call_seq_prefix:
  assumes "call_seq f (xs @ ys) v = Some (ts, v2)" "call_seq f xs v = Some (ts1, v1)"
  shows "ts1 = take (length xs) ts"
  using assms call_seq_length [OF assms(2)] by (auto simp: call_seq_append split: Option.bind_splits)

text \<open>Where the bytes end of which the requests \<open>ds\<close> are complete.\<close>

lemma waits_position:
  assumes "waits c rest inp s r" "u @ r = stream (ds @ rest)"
  shows "length (stream ds) \<le> length u \<and> (rest \<noteq> [] \<longrightarrow> length u < length (stream (ds @ [hd rest])))"
proof (cases rest)
  case Nil
  then show ?thesis using assms by simp
next
  case (Cons bs reqs)
  then show ?thesis using assms(1) awaits_more [of c bs s inp r "stream reqs"] arg_cong [OF assms(2), of length] by simp
qed

lemma connection_progress:
  assumes "serving c d s" "admits p duration c s" "c_argv (clients s c) = []" "\<forall>bs\<in>set reqs. request_ok bs"
    "call_seq (request_spec (mstime s)) reqs (store s d) = Some (ts, m)" "512 * 1024 * 1024 + 2 \<le> maxlen" "u @ r = stream reqs"
    "arrives maxlen (processCommand p other duration) c (no_input, s) u (inp, s')"
  obtains ds rest where "progress (connected p duration c d s) (\<lambda>s. store s d) (request_spec (mstime s)) c reqs s ds rest s'"
    "waits c rest inp s' r" "connected p duration c d s s'" "reqs = ds @ rest" "call_seq (request_spec (mstime s)) rest (store s' d) \<noteq> None"
proof -
  have "connected p duration c d s s" using assms(1,2) by (simp add: connected_def)
  then obtain ds rest where 1: "progress (connected p duration c d s) (\<lambda>s. store s d) (request_spec (mstime s)) c reqs s ds rest s'"
      "waits c rest inp s' r"
    using redis.arrives_ok [OF assms(8,7), of d s] assms(3-6) by (auto simp: args_def)
  then have "call_seq (request_spec (mstime s)) rest (store s' d) \<noteq> None"
    using assms(5) by (cases "call_seq (request_spec (mstime s)) rest (store s' d)") (auto simp: progress_def call_seq_append)
  moreover have "connected p duration c d s s'" "reqs = ds @ rest" using 1(1) by (simp_all add: progress_def)
  ultimately show ?thesis using that [OF 1] by blast
qed

subsection \<open>A server with a client\<close>

definition demo_policy :: policy where
  "demo_policy = \<lparr>requirepass = False, authenticated = (\<lambda>c. False), freeMemoryIfNeeded = (\<lambda>s. Some (True, s)), stop_writes_on_bgsave_err = True,
     saveparamslen = 0, lastbgsave_ok = True, repl_min_slaves_to_write = 0, repl_min_slaves_max_lag = 10, repl_good_slaves_count = 0,
     repl_slave_ro = True, repl_connected = False, repl_serve_stale_data = True, lua_timedout = False\<rparr>"

definition demo_requests :: "bytes list list" where
  "demo_requests = [[''SET'', ''k'', ''7''], [''INCR'', ''k'']]"

lemma demo_admits: "admits demo_policy 0 0 demo" "c_argv (clients demo 0) = []" "mstime demo = 0" "store demo 0 = (\<lambda>k. None)" "out demo 0 = []"
  by (simp_all add: admits_def demo_policy_def demo_def initServer_def createClient_def store_def keyspace_def out_def fun_eq_iff)

lemma demo_requests_ok: "\<forall>bs\<in>set demo_requests. request_ok bs"
  by (simp add: demo_requests_def request_ok_def)

lemma demo_spec:
  "call_seq (request_spec (mstime demo)) demo_requests (store demo 0) =
     Some ([RStatus ''OK'', RInt 8], (\<lambda>k. None)(''k'' \<mapsto> (Str ''8'', None)))"
proof -
  have e: "int_of ''7'' = Some 7" "dec_int 8 = ''8''" by code_simp+
  let ?m = "\<lambda>b. (\<lambda>k. None)(''k'' \<mapsto> (Str b, None))"
  have k: "kv_run 0 ''set'' [''k'', ''7''] (\<lambda>k. None) = Some (RStatus ''OK'', ?m ''7'')"
    "kv_run 0 ''incr'' [''k''] (?m ''7'') = Some (RInt 8, ?m ''8'')"
    by (simp_all add: kv_run_def kv_set_command_def kv_set_def kv_expire_def kv_incr_def e in_ll_def)
  have "request_spec 0 [''SET'', ''k'', ''7''] (\<lambda>k. None) = Some (RStatus ''OK'', ?m ''7'')"
    "request_spec 0 [''INCR'', ''k''] (?m ''7'') = Some (RInt 8, ?m ''8'')"
    by (simp_all add: request_spec_def find_command_demo row_def k in_ll_def)
  then show ?thesis unfolding demo_admits(3,4) by (simp add: demo_requests_def)
qed

lemma demo_length: "int (length (stream demo_requests)) \<le> readlen no_input"
  by (simp add: demo_requests_def encode_request_def bulk_def dec_small CRLF_def readlen_def no_input_def REDIS_IOBUF_LEN_def)

lemma demo_arrives:
  obtains inp s' where
    "arrives (1024 * 1024 * 1024) (processCommand demo_policy [] 0) 0 (no_input, demo) (stream demo_requests) (inp, s')"
proof -
  have w: "waits 0 demo_requests no_input demo (stream demo_requests @ [])"
    using waits_start [of 0 no_input demo demo_requests] demo_admits(2) by (simp add: fresh_input_def args_def)
  have i: "connected demo_policy 0 0 0 demo demo" using demo_serving(1) demo_admits(1) by (simp add: connected_def)
  have "stream demo_requests \<noteq> []" by (simp add: demo_requests_def encode_request_def)
  then obtain inp s' where "readQueryFromClient (1024 * 1024 * 1024) (processCommand demo_policy [] 0) 0 (Bytes (stream demo_requests)) (no_input, demo) =
      Some (Some inp, s')"
    using redis.piece_ok [OF w i demo_requests_ok _ _ demo_length, of "1024 * 1024 * 1024" "[]"] demo_spec by auto
  from arrives.piece [OF arrives.nothing _ demo_length this] show ?thesis
    using that \<open>stream demo_requests \<noteq> []\<close> by simp
qed

text \<open>
  C1. However the network cuts the bytes of a sequence of requests into pieces, after every piece the server has run
  exactly the requests whose last byte has arrived, one after the other, as the functions on stores say: the client
  will receive their replies in order and nothing else, the store of its database is theirs, and the other databases
  and the output of the other clients are the same.
\<close>

theorem stream_refines:
  assumes "serving c d s" "admits p duration c s" "c_argv (clients s c) = []" "\<forall>bs\<in>set reqs. request_ok bs"
    and "call_seq (request_spec (mstime s)) reqs (store s d) = Some (ts, m)" "512 * 1024 * 1024 + 2 \<le> maxlen" "u @ r = stream reqs"
    and "arrives maxlen (processCommand p other duration) c (no_input, s) u (inp, s')"
  shows "\<exists>k\<le>length reqs. length (stream (take k reqs)) \<le> length u \<and> (k < length reqs \<longrightarrow> length u < length (stream (take (Suc k) reqs))) \<and>
    call_seq (request_spec (mstime s)) (take k reqs) (store s d) = Some (take k ts, store s' d) \<and>
    out s' c = out s c @ concat (map print_reply (take k ts)) \<and>
    (\<forall>d'<dbnum s. d' \<noteq> d \<longrightarrow> store s' d' = store s d') \<and> (\<forall>c'<nclients s. c' \<noteq> c \<longrightarrow> out s' c' = out s c')"
proof -
  obtain ds rest where 1: "progress (connected p duration c d s) (\<lambda>s. store s d) (request_spec (mstime s)) c reqs s ds rest s'"
    "waits c rest inp s' r" "connected p duration c d s s'" "reqs = ds @ rest"
    by (rule connection_progress [OF assms]) (rule that)
  obtain ts1 where ts: "call_seq (request_spec (mstime s)) ds (store s d) = Some (ts1, store s' d)"
      "out s' c = out s c @ concat (map print_reply ts1)" using 1(1) by (auto simp: progress_def)
  have t: "ts1 = take (length ds) ts" by (rule call_seq_prefix [OF assms(5) [unfolded 1(4)] ts(1)])
  have "length (stream ds) \<le> length u \<and> (rest \<noteq> [] \<longrightarrow> length u < length (stream (ds @ [hd rest])))"
    by (rule waits_position [OF 1(2)]) (use assms(7) 1(4) in simp)
  moreover have "rest \<noteq> [] \<Longrightarrow> take (Suc (length ds)) reqs = ds @ [hd rest]" using 1(4) by (cases rest) simp_all
  ultimately show ?thesis using 1(3,4) ts t by (intro exI [of _ "length ds"]) (auto simp: connected_def)
qed

theorem stream_refines_witness:
  "\<exists>inp s'. arrives (1024 * 1024 * 1024) (processCommand demo_policy [] 0) 0 (no_input, demo) (stream demo_requests) (inp, s') \<and>
    out s' 0 = ''+OK'' @ CRLF @ '':8'' @ CRLF \<and> store s' 0 ''k'' = Some (Str ''8'', None)"
proof -
  obtain inp s' where a: "arrives (1024 * 1024 * 1024) (processCommand demo_policy [] 0) 0 (no_input, demo) (stream demo_requests) (inp, s')"
    by (rule demo_arrives)
  have "\<exists>k\<le>length demo_requests. length (stream (take k demo_requests)) \<le> length (stream demo_requests) \<and>
      (k < length demo_requests \<longrightarrow> length (stream demo_requests) < length (stream (take (Suc k) demo_requests))) \<and>
      call_seq (request_spec (mstime demo)) (take k demo_requests) (store demo 0) = Some (take k [RStatus ''OK'', RInt 8], store s' 0) \<and>
      out s' 0 = out demo 0 @ concat (map print_reply (take k [RStatus ''OK'', RInt 8])) \<and>
      (\<forall>d'<dbnum demo. d' \<noteq> 0 \<longrightarrow> store s' d' = store demo d') \<and> (\<forall>c'<nclients demo. c' \<noteq> 0 \<longrightarrow> out s' c' = out demo c')"
    by (rule stream_refines [OF demo_serving(1) demo_admits(1,2) demo_requests_ok demo_spec _ _ a, where r = "[]"]) simp_all
  then obtain k where k: "k \<le> length demo_requests" "k < length demo_requests \<longrightarrow> length (stream demo_requests) < length (stream (take (Suc k) demo_requests))"
      "call_seq (request_spec (mstime demo)) (take k demo_requests) (store demo 0) = Some (take k [RStatus ''OK'', RInt 8], store s' 0)"
      "out s' 0 = out demo 0 @ concat (map print_reply (take k [RStatus ''OK'', RInt 8]))" by blast
  have "k = 2" using k(1,2) by (auto simp: demo_requests_def less_Suc_eq)
  moreover have "take 2 demo_requests = demo_requests" by (simp add: demo_requests_def)
  moreover have "dec_int 8 = ''8''" by code_simp
  ultimately have "out s' 0 = ''+OK'' @ CRLF @ '':8'' @ CRLF" "store s' 0 ''k'' = Some (Str ''8'', None)"
    using k(3,4) demo_spec demo_admits(5) by (auto simp: print_reply.simps dest: fun_cong [where x = "''k''"])
  then show ?thesis using a by blast
qed

text \<open>
  C8. The connection never gets stuck on a sequence of requests: at every point the server asks for at least one byte,
  and whatever part of the remaining bytes it gets, it takes them and keeps the connection open.
\<close>

theorem stream_progress:
  assumes "serving c d s" "admits p duration c s" "c_argv (clients s c) = []" "\<forall>bs\<in>set reqs. request_ok bs"
    and "call_seq (request_spec (mstime s)) reqs (store s d) = Some (ts, m)" "512 * 1024 * 1024 + 2 \<le> maxlen" "u @ r = stream reqs"
    and "arrives maxlen (processCommand p other duration) c (no_input, s) u (inp, s')"
  shows "0 < readlen inp \<and> (\<forall>x r'. r = x @ r' \<longrightarrow> x \<noteq> [] \<longrightarrow> int (length x) \<le> readlen inp \<longrightarrow>
    (\<exists>inp2 s2. readQueryFromClient maxlen (processCommand p other duration) c (Bytes x) (inp, s') = Some (Some inp2, s2)))"
proof -
  obtain ds rest where 1: "waits c rest inp s' r" "connected p duration c d s s'" "reqs = ds @ rest"
      "call_seq (request_spec (mstime s)) rest (store s' d) \<noteq> None"
    by (rule connection_progress [OF assms]) (rule that)
  have "\<exists>inp2 s2. readQueryFromClient maxlen (processCommand p other duration) c (Bytes x) (inp, s') = Some (Some inp2, s2)"
    if "r = x @ r'" "x \<noteq> []" "int (length x) \<le> readlen inp" for x r'
    using redis.piece_ok [OF _ 1(2) _ 1(4) that(2,3) assms(6), of r' other] 1(1,3) assms(4) that(1) by auto
  then show ?thesis using waits_readlen [OF 1(1)] by auto
qed

theorem stream_progress_witness:
  "\<exists>inp s'. readQueryFromClient (1024 * 1024 * 1024) (processCommand demo_policy [] 0) 0 (Bytes (stream demo_requests)) (no_input, demo) =
    Some (Some inp, s')"
proof -
  have "stream demo_requests = stream demo_requests @ []" "stream demo_requests \<noteq> []" by (simp_all add: demo_requests_def encode_request_def)
  moreover have "0 < readlen no_input \<and> (\<forall>x r'. stream demo_requests = x @ r' \<longrightarrow> x \<noteq> [] \<longrightarrow> int (length x) \<le> readlen no_input \<longrightarrow>
    (\<exists>inp2 s2. readQueryFromClient (1024 * 1024 * 1024) (processCommand demo_policy [] 0) 0 (Bytes x) (no_input, demo) = Some (Some inp2, s2)))"
    by (rule stream_progress [OF demo_serving(1) demo_admits(1,2) demo_requests_ok demo_spec _ _ arrives.nothing]) simp_all
  ultimately show ?thesis using demo_length by blast
qed

end
