(* ===== verification/Inline.thy ===== *)
theory Inline
  imports Connections
begin

text \<open>Requests that are lines of words.\<close>

lemma push_words_ok:
  assumes "good s" "c < nclients s" "args c s bs"
  shows "quiet c s (push_words c ws s) \<and> args c (push_words c ws s) (bs @ filter (\<lambda>w. w \<noteq> []) ws)"
  using assms
proof (induction ws arbitrary: s bs)
  case Nil
  then show ?case by (simp add: quiet_refl)
next
  case (Cons w ws)
  let ?s = "if w \<noteq> [] then push_arg c (createObject REDIS_STRING (Sds w) s) else s"
  have 1: "quiet c s ?s" "args c ?s (bs @ filter (\<lambda>w. w \<noteq> []) [w])"
    using push_args(3,4) [OF Cons.prems, of w] quiet_refl [OF Cons.prems(1)] Cons.prems(3) by auto
  have "quiet c ?s (push_words c ws ?s) \<and> args c (push_words c ws ?s) ((bs @ filter (\<lambda>w. w \<noteq> []) [w]) @ filter (\<lambda>w. w \<noteq> []) ws)"
    by (rule Cons.IH [OF quietD(1) [OF 1(1)] _ 1(2)]) (use Cons.prems(2) quietD(4) [OF 1(1)] in simp)
  then show ?case using quiet_trans [OF 1(1)] by (cases "w = []") auto
qed

lemma strchr_pos_newline:
  assumes "NUL \<notin> set l" "CHR 0x0A \<notin> set l"
  shows "strchr_pos (CHR 0x0A) (l @ CHR 0x0A # x) = Some (length l)"
proof -
  have "takeWhile (\<lambda>y. y \<noteq> CHR 0x0A \<and> y \<noteq> NUL) (l @ CHR 0x0A # x) = l" using assms by (auto simp: takeWhile_append)
  then show ?thesis by (simp add: strchr_pos_def)
qed

lemma inline_line:
  assumes "NUL \<notin> set l" "CHR 0x0A \<notin> set l" "l \<noteq> [] \<Longrightarrow> last l \<noteq> CHR 0x0D" "sdssplitargs l = Some ws" "args c s []"
  shows "processInlineBuffer c (inp\<lparr>querybuf := l @ CRLF @ rest\<rparr>, s) = Some (True, inp\<lparr>querybuf := rest\<rparr>, push_words c ws s)"
    "processInlineBuffer c (inp\<lparr>querybuf := l @ CHR 0x0A # rest\<rparr>, s) = Some (True, inp\<lparr>querybuf := drop 1 rest\<rparr>, push_words c ws s)"
proof -
  have "(clients s c)\<lparr>c_argv := []\<rparr> = clients s c" using assms(5) by (cases "clients s c") (simp add: args_def)
  then have e: "update_client c (\<lambda>cl. cl\<lparr>c_argv := []\<rparr>) s = s" by (simp add: update_client_def)
  have "strchr_pos (CHR 0x0A) ((l @ [CHR 0x0D]) @ CHR 0x0A # rest) = Some (length (l @ [CHR 0x0D]))"
    by (rule strchr_pos_newline) (use assms in auto)
  then show "processInlineBuffer c (inp\<lparr>querybuf := l @ CRLF @ rest\<rparr>, s) = Some (True, inp\<lparr>querybuf := rest\<rparr>, push_words c ws s)"
    using assms(4) e by (simp add: processInlineBuffer_def CRLF_def Let_def nth_append)
  have "(l @ CHR 0x0A # rest) ! (length l - 1) = last l" if "l \<noteq> []" using that by (simp add: nth_append last_conv_nth)
  then show "processInlineBuffer c (inp\<lparr>querybuf := l @ CHR 0x0A # rest\<rparr>, s) = Some (True, inp\<lparr>querybuf := drop 1 rest\<rparr>, push_words c ws s)"
    using strchr_pos_newline [OF assms(1,2), of rest] assms(3,4) e by (auto simp: processInlineBuffer_def Let_def)
qed

text \<open>
  C17. A line of words becomes the arguments of a request, without the empty ones, and if it ends with CR LF, what
  follows it stays in the buffer. If it ends with LF alone, which is accepted as well, the first byte of what
  follows is lost.
\<close>

theorem inline_requests:
  assumes "good s" "c < nclients s" "args c s []" "NUL \<notin> set l" "CHR 0x0A \<notin> set l" "l \<noteq> [] \<longrightarrow> last l \<noteq> CHR 0x0D" "sdssplitargs l = Some ws"
  shows "\<exists>s'. processInlineBuffer c (inp\<lparr>querybuf := l @ CRLF @ rest\<rparr>, s) = Some (True, inp\<lparr>querybuf := rest\<rparr>, s') \<and>
    processInlineBuffer c (inp\<lparr>querybuf := l @ CHR 0x0A # rest\<rparr>, s) = Some (True, inp\<lparr>querybuf := drop 1 rest\<rparr>, s') \<and>
    quiet c s s' \<and> args c s' (filter (\<lambda>w. w \<noteq> []) ws)"
  using push_words_ok [OF assms(1-3), of ws] inline_line [OF assms(4,5) _ assms(7,3), where inp = inp and rest = rest] assms(6) by simp

theorem inline_requests_witness:
  "\<exists>s'. processInlineBuffer 0 (no_input\<lparr>querybuf := ''PING'' @ [CHR 0x0A] @ ''PING'' @ [CHR 0x0A]\<rparr>, demo) =
      Some (True, no_input\<lparr>querybuf := ''ING'' @ [CHR 0x0A]\<rparr>, s') \<and> args 0 s' [''PING'']"
proof -
  have "sdssplitargs ''PING'' = Some [''PING'']" by code_simp
  moreover have "args 0 demo []" using demo_admits(2) by (simp add: args_def)
  ultimately show ?thesis
    using inline_requests [OF demo_serving(2) servingD(6) [OF demo_serving(1)], where l = "''PING''" and ws = "[''PING'']" and inp = no_input and rest = "''PING'' @ [CHR 0x0A]"] by auto
qed

end
