(* ===== verification/Transactions.thy ===== *)
theory Transactions
  imports Connections
begin

text \<open>
  Optimistic locking: the keys that a client watches are registered in their databases, a command that changes one
  of them marks the client, and a marked client cannot commit.
\<close>

subsection \<open>Letting go of references\<close>

text \<open>The server looks the same, and objects that are still referenced keep their names.\<close>

definition calm :: "redisServer \<Rightarrow> redisServer \<Rightarrow> bool" where
  "calm s s' \<longleftrightarrow>
     good s' \<and> settings s' = settings s \<and> (\<forall>d<dbnum s. keyspace s' d = keyspace s d \<and> db_expires (dbs s' d) = db_expires (dbs s d)) \<and>
     (\<forall>c<nclients s. out s' c = out s c) \<and> (\<forall>i. refs s' i \<le> refs s i \<and> (0 < refs s' i \<longrightarrow> sds_at s' i = sds_at s i))"

lemma calmD:
  assumes "calm s s'"
  shows "good s'" "settings s' = settings s" "nclients s' = nclients s" "dbnum s' = dbnum s" "c < nclients s \<Longrightarrow> out s' c = out s c"
    "d < dbnum s \<Longrightarrow> store s' d = store s d" "refs s' i \<le> refs s i" "0 < refs s' i \<Longrightarrow> sds_at s' i = sds_at s i"
  using assms store_cong [of s' s d] by (auto simp: calm_def settings_def)

lemma calm_refl: "good s \<Longrightarrow> calm s s"
  by (simp add: calm_def)

lemma calm_trans:
  assumes 1: "calm s s1" and 2: "calm s1 s2"
  shows "calm s s2"
proof -
  have "refs s2 i \<le> refs s i" for i using calmD(7) [OF 1, of i] calmD(7) [OF 2, of i] by linarith
  moreover have "sds_at s2 i = sds_at s i" if "0 < refs s2 i" for i
    using calmD(8) [OF 2 that] calmD(8) [OF 1, of i] calmD(7) [OF 2, of i] that by simp
  ultimately show ?thesis using 1 2 calmD(3,4) [OF 1] by (simp add: calm_def)
qed

lemma calm_same:
  assumes "good s'" "settings s' = settings s" "objs s' = objs s" "\<And>i. refs s' i \<le> refs s i"
    "\<And>d. db_dict (dbs s' d) = db_dict (dbs s d) \<and> db_expires (dbs s' d) = db_expires (dbs s d)"
    "\<And>c. c_buf (clients s' c) = c_buf (clients s c) \<and> c_reply (clients s' c) = c_reply (clients s c)"
  shows "calm s s'"
proof -
  have v: "vals s' = vals s" "sds_at s' = sds_at s" by (simp_all add: vals_def sds_at_def fun_eq_iff assms(3))
  have "out s' c = out s c" for c by (rule out_update_obj) (simp_all add: v assms(6))
  moreover have "keyspace s' d = keyspace s d" for d by (intro ext) (simp add: keyspace_def v assms(5))
  ultimately show ?thesis using assms by (simp add: calm_def v)
qed

lemma calm_client:
  assumes s: "good s" "c < nclients s" and f: "\<And>j. client_refs (f (clients s c)) j \<le> client_refs (clients s c) j"
    "c_buf (f (clients s c)) = c_buf (clients s c)" "c_reply (f (clients s c)) = c_reply (clients s c)"
  shows "calm s (update_client c f s)"
proof (rule calm_same)
  have i: "server_inv (update_client c f s)" by (rule inv_update_client [OF goodD(1) [OF s(1)] s(2), where i = None]) (simp_all add: f)
  then show "good (update_client c f s)" using s(1) by (simp add: good_def db_ok_def) (simp add: update_client_def)
  show "refs (update_client c f s) j \<le> refs s j" for j using refs_update_client [OF s(2), of f j] f(1) [of j] by linarith
qed (simp_all add: update_client_def settings_def f)

lemma inv_update_db:
  assumes s: "server_inv s" "d < dbnum s"
    and le: "\<And>j. db_refs (f (dbs s d)) j \<le> db_refs (dbs s d) j + (if i = Some j then 1 else 0)"
    and i: "\<And>j. i = Some j \<Longrightarrow> \<exists>ob. objs s j = Some ob \<and> int (refs s j) < refcount ob"
    and fin: "finite (dom (db_dict (f (dbs s d))))" "finite (dom (db_watched_keys (f (dbs s d))))"
  shows "server_inv (update_db d f s)"
proof -
  let ?s = "update_db d f s"
  have o: "objs ?s = objs s" "fresh ?s = fresh s" "dbnum ?s = dbnum s" by (simp_all add: update_db_def)
  have r: "refs ?s j \<le> refs s j + (if i = Some j then 1 else 0)" for j
    using refs_update_db [OF s(2), of f j] le [of j] by linarith
  have "counted ?s j" for j
  proof (cases "i = Some j")
    case True
    then obtain ob where "objs s j = Some ob" "int (refs s j) < refcount ob" using i by blast
    then show ?thesis using r [of j] True live [OF s(1)] by (auto simp: counted_def o)
  next
    case False
    then show ?thesis using r [of j] server_invD(2) [OF s(1), of j] by (auto simp: counted_def o)
  qed
  then show ?thesis using s fin by (auto simp: server_inv_def shared_ok_def o) (auto simp: update_db_def)
qed

abbreviation set_watched :: "dbid \<Rightarrow> bytes \<Rightarrow> (oid \<times> cid list) option \<Rightarrow> redisServer \<Rightarrow> redisServer" where
  "set_watched d k v s \<equiv> update_db d (\<lambda>b. b\<lparr>db_watched_keys := (db_watched_keys b)(k := v)\<rparr>) s"

lemma watch_refs_set:
  assumes "finite (dom w)"
  shows "watch_refs (w(k := v)) j + (if map_option fst (w k) = Some j then 1 else 0) = watch_refs w j + (if map_option fst v = Some j then 1 else 0)"
proof -
  let ?m = "\<lambda>k. map_option fst (w k)"
  have f: "finite (dom ?m)" using assms by (simp add: dom_def)
  have e: "(\<lambda>x. map_option fst ((w(k := v)) x)) = ?m(k := map_option fst v)" by (simp add: fun_eq_iff)
  show ?thesis unfolding watch_refs_def e
    using dict_refs_del [OF f, of k j] dict_refs_upd [OF f, of k _ j] by (cases v) auto
qed

lemma db_refs_watched:
  assumes "finite (dom (db_watched_keys b))"
  shows "db_refs (b\<lparr>db_watched_keys := (db_watched_keys b)(k := v)\<rparr>) j + (if map_option fst (db_watched_keys b k) = Some j then 1 else 0) =
    db_refs b j + (if map_option fst v = Some j then 1 else 0)"
  using watch_refs_set [OF assms, of k v j] by (simp add: db_refs_def)

lemma good_watched:
  assumes s: "good s" "d < dbnum s" and v: "\<And>j. map_option fst v = Some j \<Longrightarrow> map_option fst (db_watched_keys (dbs s d) k) \<noteq> Some j \<Longrightarrow> owned s j"
  shows "good (set_watched d k v s)"
proof -
  note i = goodD(1) [OF s(1)]
  define new old where no: "new = map_option fst v" "old = map_option fst (db_watched_keys (dbs s d) k)"
  note r = db_refs_watched [OF server_invD(5) [OF i s(2)], of k v, folded no]
  have "server_inv (set_watched d k v s)"
  proof (rule inv_update_db [OF i s(2), where i = "if new = old then None else new"])
    show "db_refs ((dbs s d)\<lparr>db_watched_keys := (db_watched_keys (dbs s d))(k := v)\<rparr>) j \<le>
        db_refs (dbs s d) j + (if (if new = old then None else new) = Some j then 1 else 0)" for j
      using r [of j] by (auto split: if_splits)
    show "\<exists>ob. objs s j = Some ob \<and> int (refs s j) < refcount ob" if "(if new = old then None else new) = Some j" for j
      using v [of j, folded no] that owned_iff [OF i] by (auto split: if_splits)
  qed (use server_invD(4,5) [OF i s(2)] in simp_all)
  then show ?thesis using s(1) by (simp add: good_def db_ok_def) (simp add: update_db_def)
qed

lemma calm_watched:
  assumes s: "good s" "d < dbnum s" and v: "v = None \<or> map_option fst v = map_option fst (db_watched_keys (dbs s d) k)"
  shows "calm s (set_watched d k v s)"
proof (rule calm_same)
  note i = goodD(1) [OF s(1)]
  define new old where no: "new = map_option fst v" "old = map_option fst (db_watched_keys (dbs s d) k)"
  have v': "new = None \<or> new = old" using v by (auto simp: no)
  show "good (set_watched d k v s)"
  proof (rule good_watched [OF s])
    fix j assume "map_option fst v = Some j" "map_option fst (db_watched_keys (dbs s d) k) \<noteq> Some j"
    then have "new = Some j" "old \<noteq> Some j" by (simp_all only: no not_False_eq_True)
    then show "owned s j" using v' by simp
  qed
  show "refs (set_watched d k v s) j \<le> refs s j" for j
    using refs_update_db [OF s(2), of "\<lambda>b. b\<lparr>db_watched_keys := (db_watched_keys b)(k := v)\<rparr>" j]
      db_refs_watched [OF server_invD(5) [OF i s(2)], of k v j, folded no] v' by (auto split: if_splits)
qed (simp_all add: update_db_def settings_def)

lemma calm_decr:
  assumes s: "good s" "owned s i"
  obtains s' where "decrRefCount i s = Some s'" "calm s s'" "clients s' = clients s" "dbs s' = dbs s"
proof -
  obtain s' where 1: "decrRefCount i s = Some s'" "changes (at i (-1)) s s'" "same_dbs s s'"
      "\<And>j. 0 < refs s j \<Longrightarrow> vals s' j = vals s j" "\<And>j. j \<noteq> i \<Longrightarrow> objs s' j = objs s j"
    by (rule decr_changes [OF s]) (rule that)
  obtain s2 where q: "decrRefCount i s = Some s2" "quiet 0 s s2" by (rule decr_quiet [OF s])
  have s2: "s2 = s'" using q(1) 1(1) by simp
  have cl: "clients s' = clients s" by (rule decr_clients [OF 1(1)])
  have d: "dbs s' = dbs s" using 1(3) by (simp add: same_dbs_def)
  have r: "refs s' = refs s" using 1(1) by (auto simp: decrRefCount_def split: option.splits if_splits)
  have "sds_at s' j = sds_at s j" if "0 < refs s j" for j
  proof (cases "j = i")
    case True
    obtain ob where ob: "objs s i = Some ob" "int (refs s i) < refcount ob" using s(2) by (auto simp: owned_iff [OF goodD(1) [OF s(1)]])
    then have "objs s' i = Some (ob\<lparr>refcount := refcount ob - 1\<rparr>)"
      using 1(1) that True by (auto simp: decrRefCount_def update_obj_def split: if_splits)
    then show ?thesis using ob True by (simp add: sds_at_def obj_sds_def)
  qed (simp add: sds_at_def 1(5))
  then have "calm s s'" using q(2) 1(3) d by (simp add: calm_def quiet_def s2 r same_dbs_def)
  then show ?thesis using that 1(1) cl d by blast
qed

lemma owned_drop:
  assumes "good s" "good sB" "objs sB = objs s" "refs sB i < refs s i"
  shows "owned sB i"
proof -
  obtain ob where "objs s i = Some ob" using referenced [OF goodD(1) [OF assms(1)], of i] assms(4) by auto
  then show ?thesis using live(2) [OF goodD(1) [OF assms(1)]] assms(3,4) by (subst owned_iff [OF goodD(1) [OF assms(2)]]) fastforce
qed

lemma release_calm:
  assumes "good s" "\<forall>i\<in>set xs. \<exists>ob. objs s i = Some ob \<and> int (refs s i + count_list xs i) \<le> refcount ob"
  shows "\<exists>s'. release_all xs s = Some s' \<and> calm s s' \<and> clients s' = clients s \<and> dbs s' = dbs s"
  using assms
proof (induction xs arbitrary: s)
  case Nil
  then show ?case by (simp add: calm_refl)
next
  case (Cons i xs)
  obtain ob where ob: "objs s i = Some ob" "int (refs s i + count_list (i # xs) i) \<le> refcount ob" using Cons.prems(2) by auto
  then have ow: "owned s i" by (subst owned_iff [OF goodD(1) [OF Cons.prems(1)]]) auto
  obtain s1 where 1: "decrRefCount i s = Some s1" "calm s s1" "clients s1 = clients s" "dbs s1 = dbs s" by (rule calm_decr [OF Cons.prems(1) ow])
  have r: "refs s1 = refs s" using 1(1) by (auto simp: decrRefCount_def split: option.splits if_splits)
  have "\<exists>ob. objs s1 j = Some ob \<and> int (refs s1 j + count_list xs j) \<le> refcount ob" if j: "j \<in> set xs" for j
  proof (cases "j = i")
    case True
    have "0 < count_list xs i" using j True count_list_0_iff [of xs i] by simp
    then have "objs s1 i = Some (ob\<lparr>refcount := refcount ob - 1\<rparr>)"
      using 1(1) ob by (auto simp: decrRefCount_def update_obj_def split: if_splits)
    then show ?thesis using ob(2) True r by simp
  next
    case False
    moreover have "objs s1 j = objs s j" using 1(1) False by (auto simp: decrRefCount_def update_obj_def split: option.splits if_splits)
    ultimately show ?thesis using Cons.prems(2) j r by (auto split: if_splits)
  qed
  then obtain s' where "release_all xs s1 = Some s'" "calm s1 s'" "clients s' = clients s1" "dbs s' = dbs s1"
    using Cons.IH [OF calmD(1) [OF 1(2)]] by blast
  then show ?case using 1 calm_trans [OF 1(2)] by auto
qed

lemma release_all_commute: "release_all xs (update_client c f s) = map_option (update_client c f) (release_all xs s)"
proof (induction xs arbitrary: s)
  case (Cons i xs)
  then show ?case by (cases "decrRefCount i s") (simp_all add: update_client_commute)
qed simp

lemma freeClientMultiState_ok:
  assumes s: "good s" "c < nclients s"
  obtains s1 where "freeClientMultiState c s = Some s1" "calm s (initClientMultiState c s1)"
    "clients (initClientMultiState c s1) = (clients s)(c := (clients s c)\<lparr>c_mstate := []\<rparr>)" "dbs (initClientMultiState c s1) = dbs s"
proof -
  define xs where "xs = concat (map mc_argv (c_mstate (clients s c)))"
  define sB where "sB = initClientMultiState c s"
  have cB: "calm s sB" unfolding sB_def initClientMultiState_def by (rule calm_client [OF s]) (simp_all add: client_refs_def)
  have cnt: "count_list xs i = sum_list (map (\<lambda>m. count_list (mc_argv m) i) (c_mstate (clients s c)))" for i
    unfolding xs_def by (simp add: count_list_concat comp_def)
  have r: "refs sB i + count_list xs i = refs s i" for i
    using refs_update_client [OF s(2), of "\<lambda>cl. cl\<lparr>c_mstate := []\<rparr>" i] unfolding sB_def initClientMultiState_def
    by (simp add: client_refs_def cnt)
  have o: "objs sB = objs s" "clients sB = (clients s)(c := (clients s c)\<lparr>c_mstate := []\<rparr>)" "dbs sB = dbs s"
    by (simp_all add: sB_def initClientMultiState_def update_client_def)
  have "\<exists>ob. objs sB i = Some ob \<and> int (refs sB i + count_list xs i) \<le> refcount ob" if "i \<in> set xs" for i
  proof -
    have "0 < refs s i" using r [of i] that count_list_0_iff [of xs i] by simp
    then obtain ob where "objs s i = Some ob" by (rule referenced [OF goodD(1) [OF s(1)]])
    then show ?thesis using live(2) [OF goodD(1) [OF s(1)]] r [of i] o(1) by auto
  qed
  then obtain s2 where 2: "release_all xs sB = Some s2" "calm sB s2" "clients s2 = clients sB" "dbs s2 = dbs sB"
    using release_calm [OF calmD(1) [OF cB], of xs] by blast
  obtain s1 where "release_all xs s = Some s1" "s2 = initClientMultiState c s1"
    using 2(1) unfolding sB_def initClientMultiState_def by (auto simp: release_all_commute)
  then show ?thesis using that calm_trans [OF cB 2(2)] 2(3,4) o by (simp add: freeClientMultiState_def xs_def)
qed

subsection \<open>Watched keys\<close>

text \<open>Every key that the client watches is registered for it, and none is on its list twice.\<close>

fun watch_ok :: "redisServer \<Rightarrow> cid \<Rightarrow> (oid \<times> dbid) list \<Rightarrow> bool" where
  "watch_ok s c [] = True"
| "watch_ok s c ((i, d) # wks) \<longleftrightarrow>
     d < dbnum s \<and>
     (\<exists>k ko cs. sds_at s i = Some k \<and> db_watched_keys (dbs s d) k = Some (ko, cs) \<and> c \<in> set cs \<and> (i, d) \<notin> set wks \<and>
        (\<forall>j. (j, d) \<in> set wks \<longrightarrow> sds_at s j \<noteq> Some k)) \<and>
     watch_ok s c wks"

definition watches :: "redisServer \<Rightarrow> cid \<Rightarrow> bool" where
  "watches s c \<longleftrightarrow> watch_ok s c (c_watched_keys (clients s c))"

definition watching :: "redisServer \<Rightarrow> cid \<Rightarrow> dbid \<Rightarrow> bytes \<Rightarrow> bool" where
  "watching s c d k \<longleftrightarrow> (\<exists>i. (i, d) \<in> set (c_watched_keys (clients s c)) \<and> sds_at s i = Some k)"

lemma watch_ok_cong:
  assumes "watch_ok s c wks" "dbnum s' = dbnum s" "\<And>i d. (i, d) \<in> set wks \<Longrightarrow> sds_at s' i = sds_at s i"
    and "\<And>i d k ko cs. (i, d) \<in> set wks \<Longrightarrow> sds_at s i = Some k \<Longrightarrow> db_watched_keys (dbs s d) k = Some (ko, cs) \<Longrightarrow> c \<in> set cs \<Longrightarrow>
      \<exists>ko' cs'. db_watched_keys (dbs s' d) k = Some (ko', cs') \<and> c \<in> set cs'"
  shows "watch_ok s' c wks"
  using assms
proof (induction s c wks rule: watch_ok.induct)
  case (2 s c i d wks)
  note prems = "2.prems"
  obtain k ko cs where k: "sds_at s i = Some k" "db_watched_keys (dbs s d) k = Some (ko, cs)" "c \<in> set cs" "(i, d) \<notin> set wks"
      "\<forall>j. (j, d) \<in> set wks \<longrightarrow> sds_at s j \<noteq> Some k"
    using prems(1) by auto
  obtain ko' cs' where "db_watched_keys (dbs s' d) k = Some (ko', cs')" "c \<in> set cs'" using prems(4) [of i d, OF _ k(1-3)] by auto
  moreover have "sds_at s' i = Some k" using prems(3) [of i d] k(1) by simp
  moreover have "\<forall>j. (j, d) \<in> set wks \<longrightarrow> sds_at s' j \<noteq> Some k" using prems(3) [of _ d] k(5) by simp
  moreover have "watch_ok s c wks" using prems(1) by simp
  then have "watch_ok s' c wks" by (rule "2.IH" [OF _ prems(2) prems(3) [OF list.set_intros(2)] prems(4) [OF list.set_intros(2)]])
  ultimately show ?case using prems(1,2) k(4) by auto
qed simp

lemma watch_ok_entry:
  assumes "watch_ok s c wks" "(i, d) \<in> set wks" "sds_at s i = Some k"
  shows "\<exists>ko cs. db_watched_keys (dbs s d) k = Some (ko, cs) \<and> c \<in> set cs"
  using assms by (induction s c wks rule: watch_ok.induct) auto

lemma watching_registered:
  assumes "watches s c" "watching s c d k"
  shows "\<exists>ko cs. db_watched_keys (dbs s d) k = Some (ko, cs) \<and> c \<in> set cs"
  using watch_ok_entry [OF assms(1) [unfolded watches_def]] assms(2) by (auto simp: watching_def)

lemma watched_refs_pos: "c < nclients s \<Longrightarrow> (i, d) \<in> set (c_watched_keys (clients s c)) \<Longrightarrow> 0 < refs s i"
  using client_refs_le [of c s i] watched_refs [of i "clients s c"] by force

text \<open>What removing one registration leaves.\<close>

definition unwatched :: "cid \<Rightarrow> dbid \<Rightarrow> bytes \<Rightarrow> redisServer \<Rightarrow> redisServer \<Rightarrow> bool" where
  "unwatched c d k s s' \<longleftrightarrow>
     (\<forall>d' k'. (d', k') \<noteq> (d, k) \<longrightarrow> db_watched_keys (dbs s' d') k' = db_watched_keys (dbs s d') k') \<and>
     (\<forall>ko cs c'. db_watched_keys (dbs s d) k = Some (ko, cs) \<longrightarrow> c' \<in> set cs \<longrightarrow> c' \<noteq> c \<longrightarrow>
        (\<exists>cs'. db_watched_keys (dbs s' d) k = Some (ko, cs') \<and> c' \<in> set cs'))"

lemma unregister:
  assumes s: "good s" "d < dbnum s" and k: "db_watched_keys (dbs s d) k = Some (ko, cs)" "c \<in> set cs"
  obtains s1 where "(if c \<notin> set cs then None
      else if remove1 c cs = [] then decrRefCount ko (set_watched d k None s)
      else Some (set_watched d k (Some (ko, remove1 c cs)) s)) = Some s1"
    "calm s s1" "clients s1 = clients s" "unwatched c d k s s1"
proof (cases "remove1 c cs = []")
  case False
  let ?s1 = "set_watched d k (Some (ko, remove1 c cs)) s"
  have "calm s ?s1" by (rule calm_watched [OF s]) (simp add: k(1))
  moreover have "unwatched c d k s ?s1" using k(1) by (auto simp: unwatched_def update_db_def)
  ultimately show ?thesis using that [of ?s1] False k(2) by (simp add: update_db_def)
next
  case True
  let ?sB = "set_watched d k None s"
  have cB: "calm s ?sB" by (rule calm_watched [OF s]) simp
  have o: "objs ?sB = objs s" "clients ?sB = clients s" by (simp_all add: update_db_def)
  have "refs ?sB ko < refs s ko"
    using refs_update_db [OF s(2), of "\<lambda>b. b\<lparr>db_watched_keys := (db_watched_keys b)(k := None)\<rparr>" ko]
      db_refs_watched [OF server_invD(5) [OF goodD(1) [OF s(1)] s(2)], of k None ko] k(1) by simp
  then have "owned ?sB ko" by (rule owned_drop [OF s(1) calmD(1) [OF cB] o(1)])
  then obtain s1 where 1: "decrRefCount ko ?sB = Some s1" "calm ?sB s1" "clients s1 = clients ?sB" "dbs s1 = dbs ?sB"
    by (rule calm_decr [OF calmD(1) [OF cB]])
  have "c' = c" if "c' \<in> set cs" for c' using that True k(2) by (cases cs) (auto split: if_splits)
  then have "unwatched c d k s s1" using k(1) 1(4) by (auto simp: unwatched_def update_db_def)
  then show ?thesis using that [of s1] True k(2) 1 calm_trans [OF cB 1(2)] o(2) by simp
qed

lemma unwatch_key_ok:
  assumes s: "good s" "c < nclients s" and w: "c_watched_keys (clients s c) = (i, d) # wks" "watch_ok s c ((i, d) # wks)"
  obtains s' where "unwatch_key c i d s = Some s'" "calm s s'" "clients s' = (clients s)(c := (clients s c)\<lparr>c_watched_keys := wks\<rparr>)" "watch_ok s' c wks"
    "\<And>c'. c' < nclients s \<Longrightarrow> c' \<noteq> c \<Longrightarrow> watches s c' \<Longrightarrow> watches s' c'"
proof -
  obtain k ko cs where k: "d < dbnum s" "sds_at s i = Some k" "db_watched_keys (dbs s d) k = Some (ko, cs)" "c \<in> set cs"
      "\<forall>j. (j, d) \<in> set wks \<longrightarrow> sds_at s j \<noteq> Some k" and ok: "watch_ok s c wks"
    using w(2) by auto
  obtain s1 where 1: "(if c \<notin> set cs then None else if remove1 c cs = [] then decrRefCount ko (set_watched d k None s)
        else Some (set_watched d k (Some (ko, remove1 c cs)) s)) = Some s1"
      "calm s s1" "clients s1 = clients s" "unwatched c d k s s1"
    by (rule unregister [OF s(1) k(1,3,4)]) (rule that)
  let ?f = "\<lambda>cl. cl\<lparr>c_watched_keys := tl (c_watched_keys cl)\<rparr>"
  let ?s2 = "update_client c ?f s1"
  have c1: "c < nclients s1" using s(2) calmD(3) [OF 1(2)] by simp
  have cr: "client_refs (clients s1 c) j = client_refs (?f (clients s1 c)) j + (if j = i then 1 else 0)" for j
    by (simp add: client_refs_def 1(3) w(1))
  have c2: "calm s1 ?s2" by (rule calm_client [OF calmD(1) [OF 1(2)] c1]) (simp_all add: cr)
  have r2: "refs ?s2 i < refs s1 i" using refs_update_client [OF c1, of ?f i] cr [of i] by simp
  have "owned ?s2 i" by (rule owned_drop [OF calmD(1) [OF 1(2)] calmD(1) [OF c2] _ r2]) (simp add: update_client_def)
  then obtain s' where 3: "decrRefCount i ?s2 = Some s'" "calm ?s2 s'" "clients s' = clients ?s2" "dbs s' = dbs ?s2"
    by (rule calm_decr [OF calmD(1) [OF c2]])
  have calm: "calm s s'" by (rule calm_trans [OF 1(2) calm_trans [OF c2 3(2)]])
  have cl: "clients s' = (clients s)(c := (clients s c)\<lparr>c_watched_keys := wks\<rparr>)" by (simp add: 3(3) update_client_def 1(3) w(1))
  have d': "dbs s' = dbs s1" by (simp add: 3(4) update_client_def)
  have name: "sds_at s' j = sds_at s j" if "c' < nclients s" "(j, e) \<in> set (c_watched_keys (clients s' c'))" for c' j e
    by (rule calmD(8) [OF calm watched_refs_pos]) (use that calmD(3) [OF calm] in auto)
  have "watch_ok s' c wks"
  proof (rule watch_ok_cong [OF ok calmD(4) [OF calm]])
    fix j e assume j: "(j, e) \<in> set wks"
    then show "sds_at s' j = sds_at s j" using name [OF s(2), of j e] by (simp add: cl)
    fix k' ko' cs' assume "sds_at s j = Some k'" "db_watched_keys (dbs s e) k' = Some (ko', cs')" "c \<in> set cs'"
    moreover from this(1) j k(5) have "(e, k') \<noteq> (d, k)" by auto
    ultimately show "\<exists>ko' cs'. db_watched_keys (dbs s' e) k' = Some (ko', cs') \<and> c \<in> set cs'" using 1(4) d' by (auto simp: unwatched_def)
  qed
  moreover have "watches s' c'" if c': "c' < nclients s" "c' \<noteq> c" "watches s c'" for c'
    unfolding watches_def
  proof (rule watch_ok_cong [OF _ calmD(4) [OF calm]])
    show "watch_ok s c' (c_watched_keys (clients s' c'))" using c' by (simp add: cl watches_def)
    fix j e assume j: "(j, e) \<in> set (c_watched_keys (clients s' c'))"
    show "sds_at s' j = sds_at s j" by (rule name [OF c'(1) j])
    fix k' ko' cs' assume "sds_at s j = Some k'" "db_watched_keys (dbs s e) k' = Some (ko', cs')" "c' \<in> set cs'"
    then show "\<exists>ko' cs'. db_watched_keys (dbs s' e) k' = Some (ko', cs') \<and> c' \<in> set cs'"
      using 1(4) d' c'(2) k(3) by (cases "(e, k') = (d, k)") (auto simp: unwatched_def)
  qed
  moreover have "unwatch_key c i d s = Some s'" using k(2,3) 1(1) 3(1) by (simp add: unwatch_key_def)
  ultimately show ?thesis using that calm cl by blast
qed

lemma unwatch_loop_ok:
  assumes "good s" "c < nclients s" "c_watched_keys (clients s c) = wks" "watch_ok s c wks"
  shows "\<exists>s'. unwatch_loop c wks s = Some s' \<and> calm s s' \<and> clients s' = (clients s)(c := (clients s c)\<lparr>c_watched_keys := []\<rparr>) \<and>
    (\<forall>c'<nclients s. c' \<noteq> c \<longrightarrow> watches s c' \<longrightarrow> watches s' c')"
  using assms
proof (induction wks arbitrary: s)
  case Nil
  then have e: "(clients s c)\<lparr>c_watched_keys := []\<rparr> = clients s c" by (cases "clients s c") simp
  show ?case using Nil unfolding e fun_upd_triv by (simp add: calm_refl)
next
  case (Cons w wks)
  obtain i d where w: "w = (i, d)" by (cases w)
  note prems = Cons.prems [unfolded w]
  obtain s1 where 1: "unwatch_key c i d s = Some s1" "calm s s1" "clients s1 = (clients s)(c := (clients s c)\<lparr>c_watched_keys := wks\<rparr>)"
      "watch_ok s1 c wks" "\<And>c'. c' < nclients s \<Longrightarrow> c' \<noteq> c \<Longrightarrow> watches s c' \<Longrightarrow> watches s1 c'"
    by (rule unwatch_key_ok [OF prems]) (rule that)
  have n1: "c < nclients s1" "c_watched_keys (clients s1 c) = wks" using prems(2) calmD(3) [OF 1(2)] by (simp_all add: 1(3))
  obtain s' where 2: "unwatch_loop c wks s1 = Some s'" "calm s1 s'" "clients s' = (clients s1)(c := (clients s1 c)\<lparr>c_watched_keys := []\<rparr>)"
      "\<forall>c'<nclients s1. c' \<noteq> c \<longrightarrow> watches s1 c' \<longrightarrow> watches s' c'"
    using Cons.IH [OF calmD(1) [OF 1(2)] n1 1(4)] by blast
  show ?case using 1 2 w calm_trans [OF 1(2) 2(2)] calmD(3) [OF 1(2)] by auto
qed

lemma discardTransaction_ok:
  assumes s: "good s" "c < nclients s" "watches s c"
  obtains s' where "discardTransaction c s = Some s'" "calm s s'"
    "clients s' = (clients s)(c := (clients s c)
       \<lparr>c_mstate := [], c_flags := c_flags (clients s c) - {REDIS_MULTI, REDIS_DIRTY_CAS, REDIS_DIRTY_EXEC}, c_watched_keys := []\<rparr>)"
    "\<And>c'. c' < nclients s \<Longrightarrow> c' \<noteq> c \<Longrightarrow> watches s c' \<Longrightarrow> watches s' c'"
proof -
  obtain s1 where 1: "freeClientMultiState c s = Some s1" "calm s (initClientMultiState c s1)"
      "clients (initClientMultiState c s1) = (clients s)(c := (clients s c)\<lparr>c_mstate := []\<rparr>)" "dbs (initClientMultiState c s1) = dbs s"
    by (rule freeClientMultiState_ok [OF s(1,2)])
  let ?s1 = "initClientMultiState c s1"
  let ?f = "\<lambda>cl. cl\<lparr>c_flags := c_flags cl - {REDIS_MULTI, REDIS_DIRTY_CAS, REDIS_DIRTY_EXEC}\<rparr>"
  let ?s2 = "update_client c ?f ?s1"
  have n1: "c < nclients ?s1" using s(2) calmD(3) [OF 1(2)] by simp
  have c2: "calm ?s1 ?s2" by (rule calm_client [OF calmD(1) [OF 1(2)] n1]) (simp_all add: client_refs_def)
  note calm = calm_trans [OF 1(2) c2]
  have cl: "clients ?s2 = (clients s)(c := (clients s c)\<lparr>c_mstate := [], c_flags := c_flags (clients s c) - {REDIS_MULTI, REDIS_DIRTY_CAS, REDIS_DIRTY_EXEC}\<rparr>)"
    by (simp add: update_client_def [of c ?f] 1(3))
  have d: "dbs ?s2 = dbs s" by (simp add: update_client_def [of c ?f] 1(4))
  have keep: "watches ?s2 c'" if c': "c' < nclients s" "watches s c'" for c'
    unfolding watches_def
  proof (rule watch_ok_cong [OF _ calmD(4) [OF calm]])
    show "watch_ok s c' (c_watched_keys (clients ?s2 c'))" using c'(2) by (cases "c' = c") (simp_all add: cl watches_def)
    show "sds_at ?s2 i = sds_at s i" if "(i, e) \<in> set (c_watched_keys (clients ?s2 c'))" for i e
      by (rule calmD(8) [OF calm watched_refs_pos]) (use c'(1) that calmD(3) [OF calm] in auto)
  qed (auto simp: d)
  have n2: "c < nclients ?s2" using s(2) calmD(3) [OF calm] by simp
  obtain s' where 3: "unwatch_loop c (c_watched_keys (clients ?s2 c)) ?s2 = Some s'" "calm ?s2 s'"
      "clients s' = (clients ?s2)(c := (clients ?s2 c)\<lparr>c_watched_keys := []\<rparr>)" "\<forall>c'<nclients ?s2. c' \<noteq> c \<longrightarrow> watches ?s2 c' \<longrightarrow> watches s' c'"
    using unwatch_loop_ok [OF calmD(1) [OF calm] n2 refl] keep [OF s(2,3)] unfolding watches_def by blast
  show ?thesis
  proof (rule that)
    show "discardTransaction c s = Some s'" using 1(1) 3(1) by (simp add: discardTransaction_def unwatchAllKeys_def)
    show "calm s s'" by (rule calm_trans [OF calm 3(2)])
    show "clients s' = (clients s)(c := (clients s c)
       \<lparr>c_mstate := [], c_flags := c_flags (clients s c) - {REDIS_MULTI, REDIS_DIRTY_CAS, REDIS_DIRTY_EXEC}, c_watched_keys := []\<rparr>)"
      unfolding 3(3) cl by simp
    show "watches s' c'" if "c' < nclients s" "c' \<noteq> c" "watches s c'" for c'
      using 3(4) keep [OF that(1,3)] that(1,2) calmD(3) [OF calm] by simp
  qed
qed

subsection \<open>Aborting\<close>

lemma watches_holds:
  assumes "watches s c'" "c' < nclients s" "dbnum s' = dbnum s" "c_watched_keys (clients s' c') = c_watched_keys (clients s c')"
    "\<And>d. db_watched_keys (dbs s' d) = db_watched_keys (dbs s d)" "holds c s s'"
  shows "watches s' c'" "watching s' c' d k = watching s c' d k"
proof -
  have n: "sds_at s' i = sds_at s i" if "(i, d) \<in> set (c_watched_keys (clients s c'))" for i d
    using assms(2,6) that by (force simp: holds_def)
  show "watches s' c'"
    unfolding watches_def assms(4)
    by (rule watch_ok_cong [OF assms(1) [unfolded watches_def] assms(3)]) (use n assms(5) in auto)
  show "watching s' c' d k = watching s c' d k" using n by (auto simp: watching_def assms(4))
qed

lemma exec_aborted:
  assumes s: "good s" "ready c s" "watches s c" and f: "REDIS_MULTI \<in> c_flags (clients s c)" "REDIS_DIRTY_CAS \<in> c_flags (clients s c)"
    "REDIS_DIRTY_EXEC \<notin> c_flags (clients s c)"
  obtains s' where "execCommand readonly run_cmd c s = Some s'" "good s'" "settings s' = settings s"
    "\<And>d. d < dbnum s \<Longrightarrow> store s' d = store s d" "out s' c = out s c @ ''*-1'' @ CRLF"
    "\<And>c'. c' < nclients s \<Longrightarrow> c' \<noteq> c \<Longrightarrow> out s' c' = out s c'" "c_mstate (clients s' c) = []" "c_watched_keys (clients s' c) = []"
    "c_flags (clients s' c) = c_flags (clients s c) - {REDIS_MULTI, REDIS_DIRTY_CAS, REDIS_DIRTY_EXEC}"
    "\<And>c'. c' < nclients s \<Longrightarrow> c' \<noteq> c \<Longrightarrow> watches s c' \<Longrightarrow> watches s' c'"
proof -
  note c = readyD(2) [OF s(2)] and i = goodD(1) [OF s(1)]
  have "emits c (shared_string S_nullmultibulk) s (addReply c (Shared S_nullmultibulk) s)"
    by (rule emits_shared [OF s(2)]) simp
  then obtain s1 where 1: "addReply c (Shared S_nullmultibulk) s = Some s1" "server_inv s1" "out s1 c = out s c @ ''*-1'' @ CRLF"
      "kept c s s1" "io_only c s s1"
    using emits_sends by (fastforce simp: sends_def)
  note io = io_only_fields [OF 1(5)] and io' = io_client [OF 1(5)]
  have g1: "good s1" by (rule io_good [OF s(1) 1(2,5)])
  have wk: "c_watched_keys (clients s1 c') = c_watched_keys (clients s c')" for c' using io(12,20) by (cases "c' = c") simp_all
  have w1: "watches s1 c'" if "c' < nclients s" "watches s c'" for c'
    by (rule watches_holds [OF that(2,1) io(3) wk _ holds_io [OF i c 1(4,5)]]) (simp add: io(2))
  have n1: "c < nclients s1" using c io(1) by simp
  obtain s' where 2: "discardTransaction c s1 = Some s'" "calm s1 s'"
    "clients s' = (clients s1)(c := (clients s1 c)
       \<lparr>c_mstate := [], c_flags := c_flags (clients s1 c) - {REDIS_MULTI, REDIS_DIRTY_CAS, REDIS_DIRTY_EXEC}, c_watched_keys := []\<rparr>)"
    "\<And>c'. c' < nclients s1 \<Longrightarrow> c' \<noteq> c \<Longrightarrow> watches s1 c' \<Longrightarrow> watches s' c'"
    by (rule discardTransaction_ok [OF g1 n1 w1 [OF c s(3)]]) (rule that)
  note k = calmD [OF 2(2)]
  show ?thesis
  proof (rule that [of s'])
    show "execCommand readonly run_cmd c s = Some s'" using f 1(1) 2(1) by (simp add: execCommand_def)
    show "good s'" "settings s' = settings s" using k(1,2) io'(3) by simp_all
    show "store s' d = store s d" if "d < dbnum s" for d
      using k(6) [of d] io_stores [OF s(1) c 1(4,5), of d] that io(3) by (simp add: stores_def)
    show "out s' c = out s c @ ''*-1'' @ CRLF" using k(5) [OF n1] 1(3) by simp
    show "out s' c' = out s c'" if "c' < nclients s" "c' \<noteq> c" for c'
      using k(5) [of c'] emits_isolated(1) [OF i c 1(4,5) that] that io(1) by simp
    show "watches s' c'" if "c' < nclients s" "c' \<noteq> c" "watches s c'" for c' using 2(4) w1 [OF that(1,3)] that(1,2) io(1) by simp
  qed (simp_all add: 2(3) io(13))
qed

subsection \<open>Registering\<close>

lemma sds_obj:
  assumes "server_inv s" "sds_at s i = Some k"
  obtains ob where "objs s i = Some ob" "is_str ob" "sdsEncodedObject ob" "ob_ptr ob = Sds k"
proof -
  obtain ob where ob: "objs s i = Some ob" "obj_sds ob = Some k" using assms(2) by (auto simp: sds_at_def split: Option.bind_splits)
  then have "ob_ptr ob = Sds k" by (cases "ob_ptr ob") (auto simp: obj_sds_def)
  then show ?thesis using that [OF ob(1)] live(1) [OF assms(1) ob(1)] by (auto simp: obj_ok_def split: if_splits)
qed

lemma equalStringObjects_names:
  assumes "server_inv s" "sds_at s a = Some x" "sds_at s b = Some y"
  shows "equalStringObjects s a b = Some (x = y)"
proof -
  obtain oa where a: "objs s a = Some oa" "is_str oa" "sdsEncodedObject oa" "ob_ptr oa = Sds x" by (rule sds_obj [OF assms(1,2)])
  obtain ob where b: "objs s b = Some ob" "is_str ob" "sdsEncodedObject ob" "ob_ptr ob = Sds y" by (rule sds_obj [OF assms(1,3)])
  let ?n = "min (length x) (length y)"
  have "length (take ?n x) = length (take ?n y)" by simp
  note m = memcmp_eq_0 [OF this]
  have e: "memcmp (take ?n x) (take ?n y) = 0 \<and> length x = length y \<longleftrightarrow> x = y" using m by auto
  have "memcmp (take ?n x) (take ?n y) = 0 \<Longrightarrow> length x = length y \<Longrightarrow> x = y" using e by blast
  then have "compareStringObjects s a b \<noteq> None \<and> (compareStringObjects s a b = Some 0 \<longleftrightarrow> x = y)"
    using a b m by (cases "a = b") (auto simp: compareStringObjects_def string_chars_def obj_sds_def Let_def)
  moreover have "ob_enc oa \<noteq> REDIS_ENCODING_INT" using a(3) by (auto simp: sdsEncodedObject_def)
  ultimately show ?thesis using a(1) b(1) by (auto simp: equalStringObjects_def)
qed

lemma key_watched_ok:
  assumes "server_inv s" "sds_at s i = Some k" "\<forall>(j, e)\<in>set wks. sds_at s j \<noteq> None"
  shows "key_watched s d i wks = Some (\<exists>j. (j, d) \<in> set wks \<and> sds_at s j = Some k)"
  using assms(3)
proof (induction wks)
  case (Cons w wks)
  obtain j e y where w: "w = (j, e)" "sds_at s j = Some y" using Cons.prems by (cases w) auto
  then show ?case using Cons equalStringObjects_names [OF assms(1,2) w(2)] by (auto simp: w(1))
qed simp

lemma watch_ok_names: "watch_ok s c wks \<Longrightarrow> \<forall>(j, e)\<in>set wks. sds_at s j \<noteq> None"
  by (induction s c wks rule: watch_ok.induct) auto

lemma watch_ok_snoc:
  assumes "watch_ok s c wks" "d < dbnum s" "sds_at s i = Some k" "db_watched_keys (dbs s d) k = Some (ko, cs)" "c \<in> set cs"
    "\<forall>j. (j, d) \<in> set wks \<longrightarrow> sds_at s j \<noteq> Some k"
  shows "watch_ok s c (wks @ [(i, d)])"
  using assms by (induction s c wks rule: watch_ok.induct) auto

lemma incr_plain:
  assumes "good s" "objs s i = Some ob"
  obtains s' where "incrRefCount i s = Some s'" "good s'" "owned s' i" "vals s' = vals s" "sds_at s' = sds_at s" "clients s' = clients s"
    "dbs s' = dbs s" "settings s' = settings s" "objs s' i = Some (ob\<lparr>refcount := refcount ob + 1\<rparr>)"
proof -
  obtain s' where 1: "incrRefCount i s = Some s'" "changes (at i 1) s s'" "same_dbs s s'" "owned s' i" "vals s' = vals s"
      "objs s' i = Some (ob\<lparr>refcount := refcount ob + 1\<rparr>)"
    by (rule incr_changes [OF assms]) (rule that)
  have e: "s' = update_obj i (Some (ob\<lparr>refcount := refcount ob + 1\<rparr>)) s" using 1(1) assms(2) by (simp add: incrRefCount_def)
  have "sds_at s' = sds_at s" using assms(2) by (auto simp: e sds_at_def update_obj_def obj_sds_def fun_eq_iff)
  then show ?thesis using that [OF 1(1) stepD(1) [OF 1(2)] 1(4,5)] 1(6) by (simp add: e update_obj_def settings_def)
qed

text \<open>Nothing changes but the registrations.\<close>

definition registers :: "cid \<Rightarrow> redisServer \<Rightarrow> redisServer \<Rightarrow> bool" where
  "registers c s s' \<longleftrightarrow>
     good s' \<and> settings s' = settings s \<and> vals s' = vals s \<and> sds_at s' = sds_at s \<and>
     (\<forall>d. db_dict (dbs s' d) = db_dict (dbs s d) \<and> db_expires (dbs s' d) = db_expires (dbs s d)) \<and>
     (\<exists>wks. clients s' = (clients s)(c := (clients s c)\<lparr>c_watched_keys := c_watched_keys (clients s c) @ wks\<rparr>)) \<and> watches s' c \<and>
     (\<forall>c'. c' \<noteq> c \<longrightarrow> watches s c' \<longrightarrow> watches s' c')"

lemma registersD:
  assumes "registers c s s'"
  shows "good s'" "settings s' = settings s" "nclients s' = nclients s" "dbnum s' = dbnum s" "sds_at s' = sds_at s" "watches s' c"
    "c' \<noteq> c \<Longrightarrow> watches s c' \<Longrightarrow> watches s' c'" "c_argv (clients s' c) = c_argv (clients s c)" "c_db (clients s' c) = c_db (clients s c)"
    "watching s c d k \<Longrightarrow> watching s' c d k" "c'' < nclients s \<Longrightarrow> out s' c'' = out s c''" "store s' d = store s d"
    "accepts (clients s' c) = accepts (clients s c)" "objs s' i = None \<Longrightarrow> vals s i = None"
proof -
  have v: "vals s' = vals s" using assms by (simp add: registers_def)
  obtain wks where cl: "clients s' = (clients s)(c := (clients s c)\<lparr>c_watched_keys := c_watched_keys (clients s c) @ wks\<rparr>)"
    using assms by (auto simp: registers_def)
  show r: "good s'" "settings s' = settings s" "nclients s' = nclients s" "dbnum s' = dbnum s" "sds_at s' = sds_at s" "watches s' c"
    "c' \<noteq> c \<Longrightarrow> watches s c' \<Longrightarrow> watches s' c'" using assms by (auto simp: registers_def settings_def)
  show "c_argv (clients s' c) = c_argv (clients s c)" "c_db (clients s' c) = c_db (clients s c)" "accepts (clients s' c) = accepts (clients s c)"
    by (simp_all add: cl accepts_def)
  show "watching s c d k \<Longrightarrow> watching s' c d k" by (auto simp: watching_def r(5) cl)
  show "out s' c'' = out s c''" by (rule out_update_obj) (simp_all add: v cl)
  have "keyspace s' d = keyspace s d" using assms by (intro ext) (simp add: keyspace_def v registers_def)
  then show "store s' d = store s d" by (rule store_cong [OF r(2)]) (use assms in \<open>simp add: registers_def\<close>)
  show "objs s' i = None \<Longrightarrow> vals s i = None" by (simp add: v [symmetric]) (simp add: vals_def)
qed

lemma update_db_commute: "incrRefCount i (update_db d f s) = map_option (update_db d f) (incrRefCount i s)"
  by (auto simp: incrRefCount_def update_db_def update_obj_def split: option.splits)

text \<open>The registration in the database, with its reference.\<close>

lemma register_db:
  assumes s: "good s" "d < dbnum s" and i: "objs s i = Some ob" "sds_at s i = Some k"
  obtains s1 ko cs where "(case db_watched_keys (dbs s d) k of
        None \<Rightarrow> incrRefCount i (set_watched d k (Some (i, [c])) s)
      | Some (ko, cs) \<Rightarrow> Some (set_watched d k (Some (ko, cs @ [c])) s)) = Some s1"
    "good s1" "settings s1 = settings s" "vals s1 = vals s" "sds_at s1 = sds_at s" "clients s1 = clients s" "objs s1 i \<noteq> None"
    "\<And>e. dbs s1 e = (if e = d then (dbs s d)\<lparr>db_watched_keys := (db_watched_keys (dbs s d))(k \<mapsto> (ko, cs))\<rparr> else dbs s e)"
    "c \<in> set cs" "\<And>ko' cs'. db_watched_keys (dbs s d) k = Some (ko', cs') \<Longrightarrow> set cs' \<subseteq> set cs"
proof (cases "db_watched_keys (dbs s d) k")
  case None
  obtain sA where A: "incrRefCount i s = Some sA" "good sA" "owned sA i" "vals sA = vals s" "sds_at sA = sds_at s" "clients sA = clients s"
      "dbs sA = dbs s" "settings sA = settings s" "objs sA i = Some (ob\<lparr>refcount := refcount ob + 1\<rparr>)"
    by (rule incr_plain [OF s(1) i(1)]) (rule that)
  let ?s1 = "set_watched d k (Some (i, [c])) sA"
  have f: "vals ?s1 = vals sA" "sds_at ?s1 = sds_at sA" "clients ?s1 = clients sA" "objs ?s1 = objs sA" "settings ?s1 = settings sA"
    by (simp_all add: update_db_def vals_def sds_at_def fun_eq_iff settings_def)
  have n: "dbnum sA = dbnum s" using A(8) by (simp add: settings_def)
  have "good ?s1" by (rule good_watched [OF A(2)]) (use s(2) n A(3) in auto)
  then show ?thesis
    using that [of ?s1 i "[c]"] None A f by (simp add: update_db_commute) (simp add: update_db_def)
next
  case (Some x)
  obtain ko cs where x: "x = (ko, cs)" by (cases x)
  let ?s1 = "set_watched d k (Some (ko, cs @ [c])) s"
  have f: "vals ?s1 = vals s" "sds_at ?s1 = sds_at s" "clients ?s1 = clients s" "objs ?s1 = objs s" "settings ?s1 = settings s"
    by (simp_all add: update_db_def vals_def sds_at_def fun_eq_iff settings_def)
  have "good ?s1" by (rule good_watched [OF s]) (use Some x in auto)
  then show ?thesis using that [of ?s1 ko "cs @ [c]"] Some x i(1) f by simp (auto simp: update_db_def)
qed

lemma watchForKey_ok:
  assumes s: "good s" "c < nclients s" "c_db (clients s c) = d" "d < dbnum s" "watches s c" and i: "objs s i = Some ob" "sds_at s i = Some k"
  obtains s' where "watchForKey c i s = Some s'" "registers c s s'" "watching s' c d k"
proof -
  let ?wks = "c_watched_keys (clients s c)"
  note inv = goodD(1) [OF s(1)]
  have kw: "key_watched s d i ?wks = Some (watching s c d k)"
    using key_watched_ok [OF inv i(2), of ?wks d] watch_ok_names [of s c ?wks] s(5) by (simp add: watches_def watching_def)
  show ?thesis
  proof (cases "watching s c d k")
    case True
    have "clients s = (clients s)(c := (clients s c)\<lparr>c_watched_keys := c_watched_keys (clients s c) @ []\<rparr>)" by simp
    then have "registers c s s" using s(1,5) unfolding registers_def by blast
    then show ?thesis using that True kw s(3) by (simp add: watchForKey_def)
  next
    case False
    obtain s1 ko cs where 1: "(case db_watched_keys (dbs s d) k of None \<Rightarrow> incrRefCount i (set_watched d k (Some (i, [c])) s)
          | Some (ko, cs) \<Rightarrow> Some (set_watched d k (Some (ko, cs @ [c])) s)) = Some s1"
        "good s1" "settings s1 = settings s" "vals s1 = vals s" "sds_at s1 = sds_at s" "clients s1 = clients s" "objs s1 i \<noteq> None"
        "\<And>e. dbs s1 e = (if e = d then (dbs s d)\<lparr>db_watched_keys := (db_watched_keys (dbs s d))(k \<mapsto> (ko, cs))\<rparr> else dbs s e)"
        "c \<in> set cs" "\<And>ko' cs'. db_watched_keys (dbs s d) k = Some (ko', cs') \<Longrightarrow> set cs' \<subseteq> set cs"
      by (rule register_db [OF s(1,4) i]) (rule that)
    obtain ob1 where ob1: "objs s1 i = Some ob1" using 1(7) by auto
    obtain s2 where 2: "incrRefCount i s1 = Some s2" "good s2" "owned s2 i" "vals s2 = vals s1" "sds_at s2 = sds_at s1" "clients s2 = clients s1"
        "dbs s2 = dbs s1" "settings s2 = settings s1"
      by (rule incr_plain [OF 1(2) ob1]) (rule that)
    let ?s' = "update_client c (\<lambda>cl. cl\<lparr>c_watched_keys := c_watched_keys cl @ [(i, d)]\<rparr>) s2"
    have n: "nclients s2 = nclients s" "dbnum s2 = dbnum s" using 1(3) 2(8) by (auto simp: settings_def)
    have "\<exists>ob. objs s2 i = Some ob \<and> int (refs s2 i) < refcount ob" using 2(3) owned_iff [OF goodD(1) [OF 2(2)]] by simp
    then have inv': "server_inv ?s'"
      by (intro inv_update_client [OF goodD(1) [OF 2(2)], where i = "Some i"]) (use s(2) n in \<open>auto simp: client_refs_def\<close>)
    have f: "settings ?s' = settings s" "vals ?s' = vals s" "sds_at ?s' = sds_at s" "dbs ?s' = dbs s1" "dbnum ?s' = dbnum s"
        "clients ?s' = (clients s)(c := (clients s c)\<lparr>c_watched_keys := ?wks @ [(i, d)]\<rparr>)"
      using 1 2 n by (simp_all add: update_client_def vals_def sds_at_def fun_eq_iff settings_def)
    have g: "good ?s'" using 2(2) inv' by (simp add: good_def db_ok_def) (simp add: update_client_def)
    have keep: "watch_ok ?s' c' wks" if "watch_ok s c' wks" for c' wks
    proof (rule watch_ok_cong [OF that f(5)])
      fix j e k' ko' cs' assume "db_watched_keys (dbs s e) k' = Some (ko', cs')" "c' \<in> set cs'"
      then show "\<exists>ko' cs'. db_watched_keys (dbs ?s' e) k' = Some (ko', cs') \<and> c' \<in> set cs'" using 1(10) by (auto simp: f(4) 1(8))
    qed (simp add: f(3))
    have w: "watches ?s' c" unfolding watches_def f(6)
      using watch_ok_snoc [OF keep, of c ?wks d i k ko cs] s(4,5) i(2) 1(9) False by (auto simp: watches_def watching_def f(3-5) 1(8))
    have "\<exists>wks. clients ?s' = (clients s)(c := (clients s c)\<lparr>c_watched_keys := ?wks @ wks\<rparr>)" using f(6) by blast
    then have "registers c s ?s'"
      using g f(1-4) w keep 1(8) unfolding registers_def by (auto simp: watches_def f(6))
    moreover have "watching ?s' c d k" using i(2) by (auto simp: watching_def f(3,6))
    moreover have "watchForKey c i s = Some ?s'" using kw False s(3) i(2) 1(1) 2(1) by (simp add: watchForKey_def)
    ultimately show ?thesis using that by blast
  qed
qed

lemma registers_trans:
  assumes 1: "registers c s s1" and 2: "registers c s1 s2"
  shows "registers c s s2"
proof -
  obtain w1 where w1: "clients s1 = (clients s)(c := (clients s c)\<lparr>c_watched_keys := c_watched_keys (clients s c) @ w1\<rparr>)"
    using 1 by (auto simp: registers_def)
  obtain w2 where w2: "clients s2 = (clients s1)(c := (clients s1 c)\<lparr>c_watched_keys := c_watched_keys (clients s1 c) @ w2\<rparr>)"
    using 2 by (auto simp: registers_def)
  have "clients s2 = (clients s)(c := (clients s c)\<lparr>c_watched_keys := c_watched_keys (clients s c) @ (w1 @ w2)\<rparr>)"
    unfolding w2 w1 by simp
  then have e: "\<exists>wks. clients s2 = (clients s)(c := (clients s c)\<lparr>c_watched_keys := c_watched_keys (clients s c) @ wks\<rparr>)" by (rule exI)
  have v: "vals s2 = vals s" "\<forall>d. db_dict (dbs s2 d) = db_dict (dbs s d) \<and> db_expires (dbs s2 d) = db_expires (dbs s d)"
    using 1 2 by (simp_all add: registers_def)
  have "settings s2 = settings s" "sds_at s2 = sds_at s" using registersD(2,5) [OF 1] registersD(2,5) [OF 2] by simp_all
  moreover have "\<forall>c'. c' \<noteq> c \<longrightarrow> watches s c' \<longrightarrow> watches s2 c'" using registersD(7) [OF 1] registersD(7) [OF 2] by blast
  ultimately show ?thesis using registersD(1,6) [OF 2] v e unfolding registers_def by blast
qed

lemma registers_refl:
  assumes "good s" "watches s c"
  shows "registers c s s"
proof -
  have "clients s = (clients s)(c := (clients s c)\<lparr>c_watched_keys := c_watched_keys (clients s c) @ []\<rparr>)" by simp
  then show ?thesis using assms unfolding registers_def by blast
qed

lemma watch_loop_ok:
  assumes "good s" "c < nclients s" "c_db (clients s c) = d" "d < dbnum s" "watches s c" "map (sds_at s) is = map Some ks"
  shows "\<exists>s'. watch_loop c is s = Some s' \<and> registers c s s' \<and> (\<forall>k\<in>set ks. watching s' c d k)"
  using assms
proof (induction "is" arbitrary: s ks)
  case Nil
  then show ?case using registers_refl by auto
next
  case (Cons i "is")
  obtain k ks' where ks: "ks = k # ks'" "sds_at s i = Some k" "map (sds_at s) is = map Some ks'" using Cons.prems(6) by (cases ks) auto
  obtain ob where ob: "objs s i = Some ob" by (rule sds_obj [OF goodD(1) [OF Cons.prems(1)] ks(2)])
  obtain s1 where 1: "watchForKey c i s = Some s1" "registers c s s1" "watching s1 c d k"
    by (rule watchForKey_ok [OF Cons.prems(1-5) ob ks(2)])
  note r = registersD [OF 1(2)]
  obtain s' where 2: "watch_loop c is s1 = Some s'" "registers c s1 s'" "\<forall>k\<in>set ks'. watching s' c d k"
    using Cons.IH [of s1 ks'] r(1,3-6,9) Cons.prems(2-4) ks(3) by auto
  show ?case using 1(1) 2 registers_trans [OF 1(2) 2(2)] registersD(10) [OF 2(2) 1(3)] by (auto simp: ks(1))
qed

lemma watchCommand_ok:
  assumes "serving c d s" "args c s (name # ks)" "REDIS_MULTI \<notin> c_flags (clients s c)" "watches s c"
  shows "\<exists>s'. watchCommand c s = Some s' \<and> serving c d s' \<and> settings s' = settings s \<and> c_flags (clients s' c) = c_flags (clients s c) \<and>
    (\<forall>c'. c' \<noteq> c \<longrightarrow> clients s' c' = clients s c') \<and> out s' c = out s c @ ''+OK'' @ CRLF \<and> watches s' c \<and>
    (\<forall>k\<in>set ks. watching s' c d k) \<and> (\<forall>d'<dbnum s. store s' d' = store s d') \<and>
    (\<forall>c'<nclients s. c' \<noteq> c \<longrightarrow> out s' c' = out s c' \<and> (watches s c' \<longrightarrow> watches s' c'))"
proof -
  note S = servingD [OF assms(1)]
  have "map (sds_at s) (tl (c_argv (clients s c))) = map Some ks" using assms(2) by (cases "c_argv (clients s c)") (auto simp: args_def)
  then obtain s1 where 1: "watch_loop c (tl (c_argv (clients s c))) s = Some s1" "registers c s s1" "\<forall>k\<in>set ks. watching s1 c d k"
    using watch_loop_ok [OF S(1,6,3,4) assms(4)] by blast
  note r = registersD [OF 1(2)]
  have s1: "serving c d s1" using assms(1) r(1,3,4,9,13) by (simp add: serving_def ready_def goodD)
  note S1 = servingD [OF s1]
  have "emits c (shared_string S_ok) s1 (addReply c (Shared S_ok) s1)" by (rule emits_shared [OF S1(2)]) simp
  then obtain s' where 2: "addReply c (Shared S_ok) s1 = Some s'" "server_inv s'" "out s' c = out s1 c @ ''+OK'' @ CRLF" "kept c s1 s'" "io_only c s1 s'"
    using emits_sends by (fastforce simp: sends_def)
  note io = io_only_fields [OF 2(5)]
  have wk: "c_watched_keys (clients s' c') = c_watched_keys (clients s1 c')" for c' using io(12,20) by (cases "c' = c") simp_all
  have w: "watches s' c'" "watching s' c' e k = watching s1 c' e k" if "c' < nclients s" "watches s1 c'" for c' e k
    using watches_holds [OF that(2) _ io(3) wk _ holds_io [OF S1(5,6) 2(4,5)]] that(1) r(3) io(2) by simp_all
  have "serving c d s'" using s1 io io_good [OF S1(1) 2(2,5)] io_only_accepts [OF 2(5)] by (simp add: serving_def ready_def goodD)
  moreover have "store s' d' = store s d'" if "d' < dbnum s" for d'
    using io_stores [OF S1(1,6) 2(4,5), of d'] that r(4,12) by (simp add: stores_def)
  moreover have "out s' c' = out s c'" if "c' < nclients s" "c' \<noteq> c" for c'
    using emits_isolated(1) [OF S1(5,6) 2(4,5)] that r(3) r(11) [of c'] by simp
  moreover have "settings s' = settings s" using io_client(3) [OF 2(5)] r(2) by simp
  moreover obtain wks where cl: "clients s1 = (clients s)(c := (clients s c)\<lparr>c_watched_keys := c_watched_keys (clients s c) @ wks\<rparr>)"
    using 1(2) by (auto simp: registers_def)
  have "c_flags (clients s' c) = c_flags (clients s c)" "\<And>c'. c' \<noteq> c \<Longrightarrow> clients s' c' = clients s c'" using io(12,13) by (simp_all add: cl)
  moreover have "watchCommand c s = Some s'" using assms(3) 1(1) 2(1) by (simp add: watchCommand_def)
  ultimately show ?thesis using 2(3) r(11) [OF S(6)] w [OF S(6) r(6)] 1(3) w(1) r(7) by auto
qed



lemma demo_watch:
  obtains sw where "watchCommand (Suc 0) (requesting (Suc 0) [''WATCH'', ''k''] demo) = Some sw" "serving 0 0 sw" "mstime sw = 0" "store sw 0 = (\<lambda>k. None)"
    "watches sw (Suc 0)" "watching sw (Suc 0) 0 ''k''" "accepts (clients sw (Suc 0))" "c_flags (clients sw (Suc 0)) = {}" "out sw (Suc 0) = ''+OK'' @ CRLF"
    "out sw 0 = []" "nclients sw = 2"
proof -
  let ?s = "requesting (Suc 0) [''WATCH'', ''k''] demo"
  have n: "nclients demo = 2" "dbnum demo = 16" "clients demo (Suc 0) = createClient 8 True" by (simp_all add: demo_def initServer_def)
  have sv: "serving (Suc 0) 0 demo" using demo_serving(2) demo_ready(2) n by (simp add: serving_def createClient_def)
  note q = requesting_quiet [OF servingD(1,6) [OF sv], of "[''WATCH'', ''k'']"]
  have s: "serving (Suc 0) 0 ?s" by (rule quiet_serving [OF q(1) sv])
  have cl: "c_flags (clients ?s (Suc 0)) = {}" "watches ?s (Suc 0)"
    using quiet_client(3,7) [OF q(1)] by (simp_all add: watches_def n createClient_def)
  obtain sw where w: "watchCommand (Suc 0) ?s = Some sw" "serving (Suc 0) 0 sw" "settings sw = settings ?s"
      "c_flags (clients sw (Suc 0)) = {}" "\<And>c'. c' \<noteq> Suc 0 \<Longrightarrow> clients sw c' = clients ?s c'"
      "out sw (Suc 0) = out ?s (Suc 0) @ ''+OK'' @ CRLF" "watches sw (Suc 0)" "watching sw (Suc 0) 0 ''k''" "\<And>d'. d' < dbnum ?s \<Longrightarrow> store sw d' = store ?s d'"
      "\<And>c'. c' < nclients ?s \<Longrightarrow> c' \<noteq> Suc 0 \<Longrightarrow> out sw c' = out ?s c'"
    using watchCommand_ok [OF s q(2), simplified cl] by auto
  note st = w(3) [unfolded quietD(3) [OF q(1)]]
  have f: "nclients sw = 2" "dbnum sw = 16" "mstime sw = 0" using st n demo_admits(3) by (auto simp: settings_def)
  have c0: "clients sw 0 = clients demo 0" using w(5) [of 0] quietD(7) [OF q(1), of 0] by simp
  have "serving 0 0 sw" using demo_serving(1) servingD(1,5) [OF w(2)] c0 f by (simp add: serving_def ready_def)
  moreover have "store sw 0 = (\<lambda>k. None)" using w(9) [of 0] quiet_store [OF q(1), of 0] quietD(5) [OF q(1)] demo_admits(4) n by simp
  moreover have "out sw (Suc 0) = ''+OK'' @ CRLF" "out sw 0 = []"
    using w(6) w(10) [of 0] quietD(4,8) [OF q(1)] demo_admits(5) n by (simp_all add: out_def [of demo] createClient_def)
  moreover have "accepts (clients sw (Suc 0))" using servingD(2) [OF w(2)] by (simp add: ready_def)
  ultimately show ?thesis using that w(1,4,7,8) f cl by simp
qed

text \<open>A client makes the objects of its arguments: no registration is lost.\<close>

lemma requesting_watches:
  assumes s: "good s" "c < nclients s" and w: "w < nclients s" "watches s w"
  shows "watches (requesting c bs s) w" "watching (requesting c bs s) w d k = watching s w d k"
proof -
  obtain argv s1 where a: "create_args bs s = (argv, s1)" by (cases "create_args bs s")
  have c: "step s s1" "dbs s1 = dbs s" "clients s1 = clients s" using create_args_steps [OF s(1) a] by (auto simp: same_dbs_def)
  let ?s = "update_client c (\<lambda>cl. cl\<lparr>c_argv := argv\<rparr>) s1"
  have e: "requesting c bs s = ?s" by (simp add: requesting_def a)
  have f: "dbnum ?s = dbnum s" "dbs ?s = dbs s" "sds_at ?s = sds_at s1" "c_watched_keys (clients ?s w) = c_watched_keys (clients s w)"
    using c(2,3) frameD(2) [OF stepD(2) [OF c(1)]] by (simp_all add: update_argv_fields sds_at_def fun_eq_iff)
  have h: "sds_at ?s i = sds_at s i" if "(i, e) \<in> set (c_watched_keys (clients s w))" for i e
    using holds_step [OF goodD(1) [OF s(1)] s(2) c(1)] w(1) that by (force simp: f(3) holds_def)
  show "watches (requesting c bs s) w"
    unfolding watches_def e f(4) by (rule watch_ok_cong [OF w(2) [unfolded watches_def] f(1)]) (use h f(2) in auto)
  show "watching (requesting c bs s) w d k = watching s w d k" using h by (auto simp: watching_def e f(4))
qed



end
