(* ===== verification/Spec2Isabelle.thy ===== *)
theory Spec2Isabelle
  imports Util Glob SdsText Adlist DictScan DictIter Intset Inline Transactions
begin

text \<open>
  \<^bold>\<open>Verification of the core of redis-v8\<close>

  redis-v8 is a Redis server (\<open>src/lib/src/*.c\<close>) in which clients run JavaScript through V8
  (\<open>src/lib/src/v8*.cc\<close>). This library models the server from its data structures upwards and proves what
  each layer promises to the next one.

  \<^bold>\<open>How the parts interact.\<close>
  A command reads keys and values through the dicts of a database, changes reference counted objects, and
  queues its reply in the output buffers of a client. Strings are sds strings; dicts, linked lists and
  intsets store the rest. A JavaScript program calls commands with a client of its own, and the parser of
  \<open>v8redisparser.cc\<close> turns the reply into a JavaScript value.

  \<^bold>\<open>Conventions.\<close>
  A byte is a \<open>char\<close>, a string a list of bytes, a C integer an \<open>int\<close> with its range written out or a word where
  it wraps. An undefined operation (an access outside a buffer, a dangling pointer, a signed overflow) and a
  failed assertion are the value \<open>None\<close>, so that a theorem that an operation returns \<open>Some\<close> also says that
  it is free of them. Loops that may run forever are \<open>partial_function (option)\<close>; the others are functions
  with a termination proof.

  \<^bold>\<open>The theories and the source.\<close>
  \<^item> \<open>Prelude\<close>: characters, decimal notation, ranges and word arithmetic shared by all.
  \<^item> \<open>Util\<close>, \<open>Glob\<close>: \<open>util.c\<close>. Number conversions are exact inverses with overflow detection; the glob matcher is
    equivalent to a reference semantics on parsed patterns, and reads outside an empty string.
  \<^item> \<open>Sds\<close>, \<open>SdsText\<close>: \<open>sds.c\<close> with its header, free space and possibly uninitialised bytes. Every
    operation keeps the representation and acts on the content as its specification does; splitting and
    quoting are inverse to joining and parsing. The locale \<open>append_buffer\<close> is the contract of an appendable string.
  \<^item> \<open>Adlist\<close>: \<open>adlist.c\<close> with nodes in a store; the operations refine sequences.
  \<^item> \<open>Dict\<close>, \<open>DictMap\<close>, \<open>Cursor\<close>, \<open>DictScan\<close>, \<open>DictIter\<close>: \<open>dict.c\<close> with incremental rehashing. Every sequence of
    operations refines a finite map (locale \<open>dict_type\<close>, interpreted on the types of \<open>redis.c\<close>); a scan
    reports everything that stays, also across rehashing to a larger table, and ends; safe iterators visit every
    entry once. The bounds are those of the code: tables of at most \<open>2^31\<close> buckets.
  \<^item> \<open>Endian\<close>, \<open>SetInterface\<close>, \<open>Intset\<close>: \<open>endianconv.c\<close> and \<open>intset.c\<close> at the level of bytes. The locale
    \<open>set_type\<close> is the contract of a set, interpreted on intsets of fewer than \<open>2^29\<close> members, beyond which
    \<open>intsetResize\<close> could wrap.
  \<^item> \<open>State\<close>, \<open>Object\<close>, \<open>Refs\<close>: the structures of \<open>redis.h\<close>, the string objects of \<open>object.c\<close>, and the
    invariant \<open>server_inv\<close> that every reference is counted.
  \<^item> \<open>Reply\<close>, \<open>ReplyStream\<close>: the output side of \<open>networking.c\<close>. Replies form a stream, although they are sent by
    reference and glued together in place.
  \<^item> \<open>Pubsub\<close>: \<open>pubsub.c\<close> and \<open>notify.c\<close>.
  \<^item> \<open>V8Parser\<close>: \<open>v8redisparser.cc\<close>, with the replies it gets right and those it does not.
  \<^item> \<open>Watch\<close>, \<open>Db\<close>, \<open>T_string\<close>, \<open>Slowlog\<close>, \<open>Multi\<close>: \<open>multi.c\<close>, \<open>db.c\<close>, \<open>t_string.c\<close> and \<open>slowlog.c\<close>, handler by
    handler, with watched keys, expires, notifications, propagation and every reply on every branch.
  \<^item> \<open>Command\<close>, \<open>Request\<close>: the table of commands, \<open>call\<close> and \<open>processCommand\<close> of \<open>redis.c\<close>; the input side of
    \<open>networking.c\<close> from the bytes that \<open>read\<close> returns to the argument vector and the next command. The loop over
    requests has as fuel the length of the buffer, of which every round takes at least a byte.
  \<^item> \<open>V8Script\<close>: \<open>v8scripting.cc\<close> and \<open>v8run_js.cc\<close>: the functions that a JavaScript program calls, and how its
    source and its result go through the fixed buffers. V8 itself is an argument.
  \<^item> \<open>Keyspace\<close>, \<open>Answers\<close>: what a step of the server keeps, as relations on states: \<open>changes\<close> says how the counts
    of the objects move, \<open>works\<close> what becomes of the store of a database and who is told about it, \<open>answered\<close>
    adds the reply. A store maps a key to its value and its time of expiry; an expired key is absent from it.
  \<^item> \<open>Strings\<close>, \<open>Updates\<close>, \<open>Argv\<close>, \<open>StringCommands\<close>: functions on stores (\<open>kv_run\<close>) as the specification of twelve
    commands on strings, and the proof that the handlers refine them, whatever the encodings and the sharing of the
    objects are.
  \<^item> \<open>Scripts\<close>: sequences of \<open>redis.__run\<close> calls are sequences of such functions (locale \<open>store_api\<close>, interpreted on
    \<open>run\<close> of \<open>v8scripting.cc\<close>), for the replies that the parser reads.
  \<^item> \<open>RequestRead\<close>, \<open>Streams\<close>, \<open>Connections\<close>: a connection over which requests arrive in pieces of any size. The
    locale \<open>command_server\<close> is what the reader relies on; it is interpreted on \<open>processCommand\<close>. Together they say
    that the server runs each request once, in order, when its last byte is there, and never gets stuck. The bounds
    are those of the code: 1024*1024 arguments of at most 512 MB, in a query buffer that may hold one of them. The
    clock stands still meanwhile, commands are fast enough for the slow log, and the client is in no transaction.
  \<^item> \<open>Inline\<close>: requests that are lines of words, and the byte that is lost after a bare LF.
  \<^item> \<open>Transactions\<close>: optimistic locking with \<open>WATCH\<close> and \<open>EXEC\<close>.

  \<^bold>\<open>Not modelled.\<close>
  V8, Lua, jemalloc, hiredis and linenoise are third party code that the server calls. JavaScript and Lua programs
  (\<open>v8core.js\<close>, \<open>scripting.c\<close>) would need a semantics of these languages. Sockets, files, child processes, threads
  and timers (\<open>ae.c\<close>, \<open>anet.c\<close>, \<open>aof.c\<close>, \<open>rdb.c\<close>, \<open>replication.c\<close>, \<open>cluster.c\<close>, \<open>sentinel.c\<close>, \<open>bio.c\<close>) are effects
  outside the model. Of the aggregate types only the representations named above are modelled; at the level of
  the server a list, set, sorted set or hash is an opaque value. Floating point commands, the LRU clock and
  memory accounting are left out.
\<close>

end
